(* ===== verification/Prelude.thy ===== *)
theory Prelude
  imports Main "HOL-Library.Word"
begin

text \<open>
  Shared vocabulary of the development: C integer arithmetic with its width written out,
  pointer chains (a linked list threaded through a table of slots, the shape of the hole
  list, the ready queues and the caller queues), and the rules about them that the
  component theories use.
\<close>

section \<open>Collections\<close>

named_theorems cint_simps \<open>evaluation of C integer arithmetic inside its range\<close>
named_theorems chain_simps \<open>rewriting of pointer chains\<close>

section \<open>C integers\<close>

text \<open>
  A C \<open>int\<close> is kept as a mathematical integer; \<open>int32\<close> is the two's complement
  wrap-around to 32 bits that every addition of the source may run into, and \<open>cdiv\<close>
  is C's division, which truncates towards zero.
\<close>

definition in_int32 :: "int \<Rightarrow> bool" where
  "in_int32 x \<longleftrightarrow> - (2 ^ 31) \<le> x \<and> x < 2 ^ 31"

definition int32 :: "int \<Rightarrow> int" where
  "int32 x = (x + 2 ^ 31) mod 2 ^ 32 - 2 ^ 31"

definition uint32 :: "int \<Rightarrow> int" where
  "uint32 x = x mod 2 ^ 32"

definition cdiv :: "int \<Rightarrow> int \<Rightarrow> int" where
  "cdiv a b = sgn a * sgn b * (\<bar>a\<bar> div \<bar>b\<bar>)"

definition crem :: "int \<Rightarrow> int \<Rightarrow> int" where
  "crem a b = a - cdiv a b * b"

lemma int32_id [cint_simps]: "in_int32 x \<Longrightarrow> int32 x = x"
  by (simp add: in_int32_def int32_def)

lemma int32_range: "in_int32 (int32 x)"
proof -
  have "0 \<le> (x + 2 ^ 31) mod 2 ^ 32" "(x + 2 ^ 31) mod 2 ^ 32 < 2 ^ 32" by simp_all
  then show ?thesis by (simp add: in_int32_def int32_def)
qed

lemma int32_idem [simp]: "int32 (int32 x) = int32 x"
  by (rule int32_id) (rule int32_range)

lemma int32_add_left [simp]: "int32 (int32 x + y) = int32 (x + y)"
proof -
  have "(int32 x + y + 2 ^ 31) mod 2 ^ 32 = ((x + 2 ^ 31) mod 2 ^ 32 + y) mod 2 ^ 32"
    by (simp add: int32_def algebra_simps)
  also have "\<dots> = (x + y + 2 ^ 31) mod 2 ^ 32"
    by (metis (no_types, opaque_lifting) add.assoc add.commute mod_add_left_eq)
  finally show ?thesis by (simp add: int32_def)
qed

lemma int32_add_right [simp]: "int32 (y + int32 x) = int32 (y + x)"
  by (metis add.commute int32_add_left)

lemma cdiv_nonneg [cint_simps]: "0 \<le> a \<Longrightarrow> 0 < b \<Longrightarrow> cdiv a b = a div b"
  by (cases "a = 0") (simp_all add: cdiv_def)

lemma crem_nonneg [cint_simps]: "0 \<le> a \<Longrightarrow> 0 < b \<Longrightarrow> crem a b = a mod b"
  by (simp add: crem_def cdiv_nonneg minus_div_mult_eq_mod)

lemma mod_shift: "((a + b) mod c + d) mod c = (a + (b + d)) mod (c :: int)"
  by (simp add: mod_add_left_eq add.assoc)

lemma in_int32I [intro]: "- 2147483648 \<le> x \<Longrightarrow> x < 2147483648 \<Longrightarrow> in_int32 x"
  by (simp add: in_int32_def)

section \<open>Results of kernel routines\<close>

text \<open>
  A routine that walks pointers ends with a value, in a \<open>panic\<close>, by following a null
  pointer, or not at all. A walk over a table of \<open>n\<close> slots is given \<open>n + 1\<close> steps: one that
  needs more has met a slot twice, so the loop of the source does not end, which is
  \<open>Hang\<close>.
\<close>

datatype 'a res = Ok 'a | Panic string | Null_deref | Hang

fun bind_res :: "'a res \<Rightarrow> ('a \<Rightarrow> 'b res) \<Rightarrow> 'b res" where
  "bind_res (Ok x) f = f x"
| "bind_res (Panic m) f = Panic m"
| "bind_res Null_deref f = Null_deref"
| "bind_res Hang f = Hang"

lemma bind_res_Ok_iff: "bind_res m f = Ok y \<longleftrightarrow> (\<exists>x. m = Ok x \<and> f x = Ok y)"
  by (cases m) auto

section \<open>Pointer chains\<close>

text \<open>
  A pointer to a slot is \<open>Some\<close> its number, a null pointer is \<open>None\<close>.
  \<open>chain nx p xs q\<close>: following \<open>nx\<close> from \<open>p\<close> visits exactly the slots \<open>xs\<close> and
  arrives at \<open>q\<close>. A null-terminated list is a chain that arrives at \<open>None\<close>.
\<close>

primrec chain :: "('s \<Rightarrow> 's option) \<Rightarrow> 's option \<Rightarrow> 's list \<Rightarrow> 's option \<Rightarrow> bool" where
  "chain nx p [] q = (p = q)"
| "chain nx p (x # xs) q = (p = Some x \<and> chain nx (nx x) xs q)"

abbreviation linked :: "('s \<Rightarrow> 's option) \<Rightarrow> 's option \<Rightarrow> 's list \<Rightarrow> bool" where
  "linked nx p xs \<equiv> chain nx p xs None"

lemma chain_append [chain_simps]:
  "chain nx p (xs @ ys) q \<longleftrightarrow> (\<exists>r. chain nx p xs r \<and> chain nx r ys q)"
  by (induction xs arbitrary: p) auto

lemma linked_None [simp]: "linked nx None xs \<longleftrightarrow> xs = []"
  by (cases xs) auto

lemma linked_Some: "linked nx (Some x) xs \<longleftrightarrow> (\<exists>ys. xs = x # ys \<and> linked nx (nx x) ys)"
  by (cases xs) auto

lemma chain_fun_upd [simp]: "x \<notin> set xs \<Longrightarrow> chain (nx(x := v)) p xs q = chain nx p xs q"
  by (induction xs arbitrary: p) auto

lemma chain_cong: "(\<And>x. x \<in> set xs \<Longrightarrow> nx x = nx' x) \<Longrightarrow> chain nx p xs q = chain nx' p xs q"
  by (induction xs arbitrary: p) auto

lemma linked_unique: "linked nx p xs \<Longrightarrow> linked nx p ys \<Longrightarrow> xs = ys"
proof (induction xs arbitrary: p ys)
  case Nil
  then show ?case by (cases ys) auto
next
  case (Cons x xs)
  from Cons.prems obtain zs where "ys = x # zs" "linked nx (nx x) zs"
    by (auto simp: linked_Some)
  with Cons show ?case by auto
qed

lemma linked_suffix: "linked nx p (xs @ ys) \<Longrightarrow> \<exists>r. chain nx p xs r \<and> linked nx r ys"
  by (simp add: chain_append)

lemma linked_distinct: "linked nx p xs \<Longrightarrow> distinct xs"
proof (induction xs arbitrary: p)
  case Nil
  then show ?case by simp
next
  case (Cons x xs)
  then have l: "linked nx (nx x) xs" by simp
  have "x \<notin> set xs"
  proof
    assume "x \<in> set xs"
    then obtain us vs where xs: "xs = us @ x # vs" by (auto dest: split_list)
    with l have "linked nx (nx x) vs" by (auto simp: chain_append)
    with l have "xs = vs" by (rule linked_unique)
    with xs have "length xs \<noteq> length xs" by (metis length_append length_Cons lessI not_add_less2)
    then show False by simp
  qed
  with Cons.IH l show ?case by simp
qed

lemma linked_split:
  assumes "linked nx p (xs @ x # ys)"
  shows "chain nx p xs (Some x)" and "linked nx (nx x) ys"
  using assms by (auto simp: chain_append)

text \<open>Unlinking the successor of a slot, and linking a fresh slot behind one.\<close>

lemma linked_unlink:
  assumes "linked nx p (xs @ x # y # ys)"
  shows "linked (nx(x := nx y)) p (xs @ x # ys)"
proof -
  have d: "distinct (xs @ x # y # ys)" using assms by (rule linked_distinct)
  with assms show ?thesis by (auto simp: chain_append)
qed

lemma linked_insert_after:
  assumes "linked nx p (xs @ x # ys)" and "n \<notin> set (xs @ x # ys)"
  shows "linked (nx(n := nx x, x := Some n)) p (xs @ x # n # ys)"
proof -
  have d: "distinct (xs @ x # ys)" using assms(1) by (rule linked_distinct)
  have "n \<noteq> x" "n \<notin> set xs" "n \<notin> set ys" using assms(2) by auto
  with d assms(1) show ?thesis by (auto simp: chain_append)
qed

lemma chain_last_eq:
  "chain nx p (xs @ [x]) q \<longleftrightarrow> chain nx p xs (Some x) \<and> nx x = q"
  by (auto simp: chain_append)

lemma linked_snoc:
  assumes "linked nx p (xs @ [x])" and "n \<notin> set (xs @ [x])"
  shows "linked (nx(x := Some n, n := None)) p (xs @ [x, n])"
proof -
  have d: "distinct (xs @ [x])" using assms(1) by (rule linked_distinct)
  have "n \<noteq> x" "n \<notin> set xs" using assms(2) by auto
  with d assms(1) show ?thesis by (auto simp: chain_append)
qed

section \<open>Lists\<close>

lemma nth_list_update_iff:
  "i < length xs \<Longrightarrow> (xs[j := v]) ! i = (if i = j then v else xs ! i)"
  by (auto simp: nth_list_update)

lemma drop_map_nth: "i < length xs \<Longrightarrow> drop i xs = xs ! i # drop (Suc i) xs"
  by (simp add: Cons_nth_drop_Suc)

lemma prefix_upt:
  assumes "xs @ ys = map f [0..<m]"
  shows "xs = map f [0..<length xs]"
proof -
  have "xs = take (length xs) (map f [0..<m])" by (metis append_eq_conv_conj assms)
  moreover have "length xs \<le> m"
    by (metis assms length_append length_map length_upt le_add1 diff_zero)
  ultimately show ?thesis by (simp add: take_map min_def)
qed

end
