(* ===== verification/Fifo.thy ===== *)
theory Fifo
  imports Prelude
begin

text \<open>
  The interface of a bounded first-in first-out buffer, as both pierogi programs use it:
  an operation that appends, an operation that takes the oldest item, and the promise that
  neither runs into undefined behaviour while the caller keeps the number of stored items
  within the capacity. Everything the clients need about whole runs is proved here once.
\<close>

datatype 'a fop = Put 'a | Get

text \<open>A run performs the operations in order and collects what was taken; \<open>None\<close> is
  undefined behaviour of some operation.\<close>

fun fifo_run :: "('b \<Rightarrow> 'a \<Rightarrow> 'b option) \<Rightarrow> ('b \<Rightarrow> ('a \<times> 'b) option) \<Rightarrow> 'b \<Rightarrow> 'a fop list
    \<Rightarrow> ('a list \<times> 'b) option" where
  "fifo_run push pop b [] = Some ([], b)"
| "fifo_run push pop b (Put x # ops) =
     (case push b x of None \<Rightarrow> None | Some b' \<Rightarrow> fifo_run push pop b' ops)"
| "fifo_run push pop b (Get # ops) =
     (case pop b of None \<Rightarrow> None
      | Some (x, b') \<Rightarrow> map_option (\<lambda>(xs, b''). (x # xs, b'')) (fifo_run push pop b' ops))"

text \<open>The caller's side of the contract: \<open>n\<close> items stored, capacity \<open>c\<close>.\<close>

fun within :: "nat \<Rightarrow> nat \<Rightarrow> 'a fop list \<Rightarrow> bool" where
  "within c n [] = True"
| "within c n (Put x # ops) = (n < c \<and> within c (Suc n) ops)"
| "within c n (Get # ops) = (0 < n \<and> within c (n - 1) ops)"

fun puts :: "'a fop list \<Rightarrow> 'a list" where
  "puts [] = []"
| "puts (Put x # ops) = x # puts ops"
| "puts (Get # ops) = puts ops"

fun gets :: "'a fop list \<Rightarrow> nat" where
  "gets [] = 0"
| "gets (Put x # ops) = gets ops"
| "gets (Get # ops) = Suc (gets ops)"

lemma within_gets: "within c n ops \<Longrightarrow> gets ops \<le> n + length (puts ops)"
  by (induction c n ops rule: within.induct) auto

locale bounded_fifo =
  fixes rep :: "'b \<Rightarrow> 'a list \<Rightarrow> bool"
    and cap :: "'b \<Rightarrow> nat"
    and push :: "'b \<Rightarrow> 'a \<Rightarrow> 'b option"
    and pop :: "'b \<Rightarrow> ('a \<times> 'b) option"
  assumes rep_bound: "rep b xs \<Longrightarrow> length xs \<le> cap b"
    and push_rep: "rep b xs \<Longrightarrow> length xs < cap b \<Longrightarrow>
      \<exists>b'. push b x = Some b' \<and> rep b' (xs @ [x]) \<and> cap b' = cap b"
    and pop_rep: "rep b (x # xs) \<Longrightarrow> \<exists>b'. pop b = Some (x, b') \<and> rep b' xs \<and> cap b' = cap b"
begin

lemma pushE:
  assumes "rep b xs" and "length xs < cap b"
  obtains b' where "push b x = Some b'" and "rep b' (xs @ [x])" and "cap b' = cap b"
  using push_rep [OF assms] by blast

lemma popE:
  assumes "rep b xs" and "xs \<noteq> []"
  obtains b' where "pop b = Some (hd xs, b')" and "rep b' (tl xs)" and "cap b' = cap b"
  using pop_rep [of b "hd xs" "tl xs"] assms by auto

lemma push_Some_rep:
  assumes "rep b xs" and "length xs < cap b" and "push b x = Some b'"
  shows "rep b' (xs @ [x]) \<and> cap b' = cap b"
  using pushE [OF assms(1,2), of x] assms(3) by auto

lemma pop_Some_rep:
  assumes "rep b xs" and "xs \<noteq> []" and "pop b = Some (x, b')"
  shows "x = hd xs \<and> rep b' (tl xs) \<and> cap b' = cap b"
  using popE [OF assms(1,2)] assms(3) by auto

text \<open>A run that respects the capacity is defined, and takes the items out in the order in
  which they were stored and put.\<close>

lemma run_fifo:
  assumes "rep b xs" and "within (cap b) (length xs) ops"
  shows "\<exists>b'. fifo_run push pop b ops = Some (take (gets ops) (xs @ puts ops), b')
      \<and> rep b' (drop (gets ops) (xs @ puts ops)) \<and> cap b' = cap b"
  using assms
proof (induction ops arbitrary: b xs)
  case Nil
  then show ?case by auto
next
  case (Cons a ops)
  show ?case
  proof (cases a)
    case (Put x)
    with Cons.prems have "length xs < cap b" by simp
    then obtain b' where b': "push b x = Some b'" "rep b' (xs @ [x])" "cap b' = cap b"
      using pushE Cons.prems(1) by blast
    have "within (cap b') (length (xs @ [x])) ops" using Cons.prems(2) Put b'(3) by simp
    from Cons.IH [OF b'(2) this] b' Put show ?thesis by simp
  next
    case Get
    with Cons.prems have ne: "xs \<noteq> []" by auto
    then obtain b' where b': "pop b = Some (hd xs, b')" "rep b' (tl xs)" "cap b' = cap b"
      using popE Cons.prems(1) by blast
    have "within (cap b') (length (tl xs)) ops" using Cons.prems(2) Get b'(3) by simp
    from Cons.IH [OF b'(2) this] obtain b'' where
      "fifo_run push pop b' ops = Some (take (gets ops) (tl xs @ puts ops), b'')"
      "rep b'' (drop (gets ops) (tl xs @ puts ops))" "cap b'' = cap b'" by blast
    with b' Get ne show ?thesis by (cases xs) auto
  qed
qed

end

end
