(* ===== verification/Ring_Buffer.thy ===== *)
theory Ring_Buffer
  imports Fifo
begin

text \<open>
  The items and the ring buffer shared by the two pierogi programs:
  \<^verbatim>\<open>semafors/produce_making.c\<close> (\<^verbatim>\<open>monitors/produce_making.c\<close> is the same file) and
  \<^verbatim>\<open>semafors/buffer.c\<close>. A cell of the array that was never written is \<open>None\<close>, and an
  operation that would read or write outside the array, read an uninitialised cell or divide
  by zero returns \<open>None\<close>. The lemmas end in the interpretation of the FIFO interface.
\<close>

section \<open>Items and their producers\<close>

datatype ingredient = Dough | Meat | Cabbage | Cheese

record item =
  item_id :: int
  item_type :: char

text \<open>One line of output; every \<open>printf\<close> of the programs is paired with an \<open>fprintf\<close> of
  the same text to the result file.\<close>

datatype line =
    Produced int ingredient int char
  | In_buffor ingredient int
  | Item_in_buffor char int
  | Making char int int

text \<open>Each producing function has its own static counter \<open>global_counter\<close>, here the entry
  of its ingredient. The result is the item, the counters and the line printed.\<close>

type_synonym counters = "ingredient \<Rightarrow> int"

definition produce_dough :: "int \<Rightarrow> counters \<Rightarrow> item \<times> counters \<times> line" where
  "produce_dough maker c =
     (\<lparr>item_id = c Dough, item_type = CHR ''D''\<rparr>, c(Dough := int32 (c Dough + 1)),
      Produced maker Dough (c Dough) (CHR ''D''))"

definition produce_cabbage :: "int \<Rightarrow> counters \<Rightarrow> item \<times> counters \<times> line" where
  "produce_cabbage maker c =
     (\<lparr>item_id = c Cabbage, item_type = CHR ''C''\<rparr>, c(Cabbage := int32 (c Cabbage + 1)),
      Produced maker Cabbage (c Cabbage) (CHR ''C''))"

definition produce_meat :: "int \<Rightarrow> counters \<Rightarrow> item \<times> counters \<times> line" where
  "produce_meat maker c =
     (\<lparr>item_id = c Meat, item_type = CHR ''M''\<rparr>, c(Meat := int32 (c Meat + 1)),
      Produced maker Meat (c Meat) (CHR ''M''))"

definition produce_cheese :: "int \<Rightarrow> counters \<Rightarrow> item \<times> counters \<times> line" where
  "produce_cheese maker c =
     (\<lparr>item_id = c Cheese, item_type = CHR ''S''\<rparr>, c(Cheese := int32 (c Cheese + 1)),
      Produced maker Cheese (c Cheese) (CHR ''S''))"

text \<open>The constants of the two \<^verbatim>\<open>main.c\<close>: which maker calls which function.\<close>

fun producer_id :: "ingredient \<Rightarrow> int" where
  "producer_id Dough = 1"
| "producer_id Meat = 2"
| "producer_id Cabbage = 3"
| "producer_id Cheese = 4"

fun produce :: "ingredient \<Rightarrow> counters \<Rightarrow> item \<times> counters \<times> line" where
  "produce Dough c = produce_dough (producer_id Dough) c"
| "produce Meat c = produce_meat (producer_id Meat) c"
| "produce Cabbage c = produce_cabbage (producer_id Cabbage) c"
| "produce Cheese c = produce_cheese (producer_id Cheese) c"

fun type_char :: "ingredient \<Rightarrow> char" where
  "type_char Dough = CHR ''D''"
| "type_char Meat = CHR ''M''"
| "type_char Cabbage = CHR ''C''"
| "type_char Cheese = CHR ''S''"

lemmas produce_defs = produce_dough_def produce_cabbage_def produce_meat_def produce_cheese_def

lemma produce_eq:
  "produce k c = (\<lparr>item_id = c k, item_type = type_char k\<rparr>, c(k := int32 (c k + 1)),
     Produced (producer_id k) k (c k) (type_char k))"
  by (cases k) (simp_all add: produce_defs)

text \<open>The item number \<open>i\<close> of an ingredient.\<close>

definition nth_item :: "ingredient \<Rightarrow> nat \<Rightarrow> item" where
  "nth_item k i = \<lparr>item_id = int32 (int i), item_type = type_char k\<rparr>"

section \<open>The buffer\<close>

record buffer =
  array :: "item option list"
  capacity :: int
  b_in :: int
  b_out :: int

text \<open>\<open>mem\<close> says whether \<open>malloc\<close> found memory: its result is not checked by the code,
  so a failed call leaves an array without cells.\<close>

definition init_buffer :: "bool \<Rightarrow> int \<Rightarrow> buffer" where
  "init_buffer mem n =
     \<lparr>array = (if mem then replicate (nat n) None else []), capacity = n,
      b_in = 0, b_out = 0\<rparr>"

definition buffer_push :: "buffer \<Rightarrow> item \<Rightarrow> buffer option" where
  "buffer_push b item =
     (if 0 \<le> b_in b \<and> b_in b < int (length (array b)) \<and> capacity b \<noteq> 0
      then Some (b\<lparr>array := (array b)[nat (b_in b) := Some item],
                   b_in := crem (int32 (b_in b + 1)) (capacity b)\<rparr>)
      else None)"

definition buffer_pop :: "buffer \<Rightarrow> (item \<times> buffer) option" where
  "buffer_pop b =
     (if 0 \<le> b_out b \<and> b_out b < int (length (array b)) \<and> capacity b \<noteq> 0
      then (case array b ! nat (b_out b) of
              None \<Rightarrow> None
            | Some item \<Rightarrow> Some (item, b\<lparr>b_out := crem (int32 (b_out b + 1)) (capacity b)\<rparr>))
      else None)"

section \<open>Representation\<close>

text \<open>The buffer itself does not store how many items it holds, so it represents a list only
  together with that list's length: with \<open>in = out\<close> it is both an empty and a full one.\<close>

definition ring_geometry :: "item option list \<Rightarrow> int \<Rightarrow> int \<Rightarrow> int \<Rightarrow> item list \<Rightarrow> bool" where
  "ring_geometry a c i out xs \<longleftrightarrow>
     0 < c \<and> c < 2 ^ 31 \<and> length a = nat c \<and> 0 \<le> out \<and> out < c \<and>
     i = (out + int (length xs)) mod c \<and> int (length xs) \<le> c \<and>
     (\<forall>j < length xs. a ! nat ((out + int j) mod c) = Some (xs ! j))"

definition buf_rep :: "buffer \<Rightarrow> item list \<Rightarrow> bool" where
  "buf_rep b xs = ring_geometry (array b) (capacity b) (b_in b) (b_out b) xs"

lemma ring_geometry_init:
  "0 < n \<Longrightarrow> n < 2 ^ 31 \<Longrightarrow> ring_geometry (replicate (nat n) None) n 0 0 []"
  by (simp add: ring_geometry_def)

lemma ring_next:
  assumes "0 \<le> i" and "i < c" and "c < 2 ^ 31"
  shows "crem (int32 (i + 1)) c = (i + 1) mod c"
  using assms by (simp add: int32_id crem_nonneg in_int32_def)

lemma ring_slots_differ:
  assumes "0 \<le> out" and "out < c" and "int j < int m" and "int m < c"
  shows "(out + int m) mod c \<noteq> (out + int j) mod c"
proof
  assume "(out + int m) mod c = (out + int j) mod c"
  then have "c dvd (out + int m) - (out + int j)" by (simp add: mod_eq_dvd_iff)
  then have "c dvd int m - int j" by simp
  with assms show False using zdvd_not_zless [of "int m - int j" c] by linarith
qed

lemma ring_geometry_push:
  assumes g: "ring_geometry a c i out xs" and room: "int (length xs) < c"
  shows "ring_geometry (a[nat i := Some x]) c ((i + 1) mod c) out (xs @ [x])"
proof -
  from g have c: "0 < c" "c < 2 ^ 31" "length a = nat c" "0 \<le> out" "out < c"
    and i: "i = (out + int (length xs)) mod c"
    and cells: "\<forall>j < length xs. a ! nat ((out + int j) mod c) = Some (xs ! j)"
    by (auto simp: ring_geometry_def)
  have "(a[nat i := Some x]) ! nat ((out + int j) mod c) = Some ((xs @ [x]) ! j)"
    if j: "j < length (xs @ [x])" for j
  proof (cases "j = length xs")
    case True
    moreover have "nat i < length a" using c i by (simp add: nat_less_iff)
    ultimately show ?thesis using i by simp
  next
    case False
    with j have jl: "j < length xs" by simp
    have "(out + int j) mod c \<noteq> i"
      using ring_slots_differ [OF c(4,5), of j "length xs"] jl room i by simp
    then have "nat ((out + int j) mod c) \<noteq> nat i" using c(1) i
      by (metis eq_nat_nat_iff pos_mod_sign)
    with jl cells show ?thesis by (simp add: nth_append)
  qed
  moreover have "(i + 1) mod c = (out + int (length (xs @ [x]))) mod c"
    using i mod_shift [of out "int (length xs)" c 1] by (simp add: add.commute)
  ultimately show ?thesis using c room by (simp add: ring_geometry_def)
qed

lemma ring_geometry_pop:
  assumes g: "ring_geometry a c i out (x # xs)"
  shows "ring_geometry a c i ((out + 1) mod c) xs" and "a ! nat out = Some x"
proof -
  from g have c: "0 < c" "c < 2 ^ 31" "length a = nat c" "0 \<le> out" "out < c"
    and i: "i = (out + int (length (x # xs))) mod c" and l: "int (length (x # xs)) \<le> c"
    and cells: "\<forall>j < length (x # xs). a ! nat ((out + int j) mod c) = Some ((x # xs) ! j)"
    by (auto simp: ring_geometry_def)
  from cells have "a ! nat ((out + int 0) mod c) = Some ((x # xs) ! 0)" by blast
  with c show "a ! nat out = Some x" by simp
  have "a ! nat (((out + 1) mod c + int j) mod c) = Some (xs ! j)" if j: "j < length xs" for j
  proof -
    have "((out + 1) mod c + int j) mod c = (out + int (Suc j)) mod c"
      using mod_shift [of out 1 c "int j"] by simp
    moreover from cells j have "a ! nat ((out + int (Suc j)) mod c) = Some ((x # xs) ! Suc j)"
      by (metis Suc_less_eq length_Cons)
    ultimately show ?thesis by simp
  qed
  moreover have "i = ((out + 1) mod c + int (length xs)) mod c"
    using i mod_shift [of out 1 c "int (length xs)"] by simp
  ultimately show "ring_geometry a c i ((out + 1) mod c) xs" using c l
    by (simp add: ring_geometry_def)
qed

lemma buf_rep_init: "0 < n \<Longrightarrow> n < 2 ^ 31 \<Longrightarrow> buf_rep (init_buffer True n) []"
  by (simp add: buf_rep_def init_buffer_def ring_geometry_init)

lemma buf_rep_bound: "buf_rep b xs \<Longrightarrow> int (length xs) \<le> capacity b"
  by (simp add: buf_rep_def ring_geometry_def)

lemma buffer_push_rep:
  assumes "buf_rep b xs" and "int (length xs) < capacity b"
  shows "\<exists>b'. buffer_push b x = Some b' \<and> buf_rep b' (xs @ [x]) \<and> capacity b' = capacity b"
proof -
  have g: "ring_geometry (array b) (capacity b) (b_in b) (b_out b) xs"
    using assms(1) by (simp add: buf_rep_def)
  then have r: "0 \<le> b_in b" "b_in b < capacity b" "capacity b < 2 ^ 31"
    "length (array b) = nat (capacity b)" by (auto simp: ring_geometry_def)
  from ring_geometry_push [OF g assms(2), of x] r show ?thesis
    by (auto simp: buffer_push_def buf_rep_def ring_next)
qed

lemma buffer_pop_rep:
  assumes "buf_rep b (x # xs)"
  shows "\<exists>b'. buffer_pop b = Some (x, b') \<and> buf_rep b' xs \<and> capacity b' = capacity b"
proof -
  have g: "ring_geometry (array b) (capacity b) (b_in b) (b_out b) (x # xs)"
    using assms by (simp add: buf_rep_def)
  then have r: "0 \<le> b_out b" "b_out b < capacity b" "capacity b < 2 ^ 31"
    "length (array b) = nat (capacity b)" by (auto simp: ring_geometry_def)
  from ring_geometry_pop [OF g] r show ?thesis
    by (auto simp: buffer_pop_def buf_rep_def ring_next)
qed

interpretation ring: bounded_fifo buf_rep "\<lambda>b. nat (capacity b)" buffer_push buffer_pop
proof unfold_locales
  fix b :: buffer and xs and x :: item
  show "buf_rep b xs \<Longrightarrow> length xs \<le> nat (capacity b)"
    by (drule buf_rep_bound) simp
  show "buf_rep b xs \<Longrightarrow> length xs < nat (capacity b) \<Longrightarrow>
      \<exists>b'. buffer_push b x = Some b' \<and> buf_rep b' (xs @ [x]) \<and> nat (capacity b') = nat (capacity b)"
    using buffer_push_rep [of b xs x] by (metis zless_nat_eq_int_zless)
  show "buf_rep b (x # xs) \<Longrightarrow>
      \<exists>b'. buffer_pop b = Some (x, b') \<and> buf_rep b' xs \<and> nat (capacity b') = nat (capacity b)"
    using buffer_pop_rep [of b x xs] by metis
qed

end
