(* ===== verification/Semafors.thy ===== *)
theory Semafors
  imports Ring_Buffer
begin

text \<open>
  \<^verbatim>\<open>semafors/main.c\<close>: four producers and three consumers over four ring buffers, each
  buffer guarded by the semaphores \<open>mutex\<close>, \<open>full\<close> and \<open>empty\<close>. A thread's program counter
  names the statement it executes next; one step executes one statement. \<open>Blocked\<close> is a
  \<open>sem_wait\<close> on a semaphore at zero, \<open>Undefined\<close> a step whose C code has no defined effect.
\<close>

section \<open>Semaphores (my_semaphore.c)\<close>

definition down :: "nat \<Rightarrow> nat option" where
  "down s = (if 0 < s then Some (s - 1) else None)"

definition up :: "nat \<Rightarrow> nat" where
  "up s = s + 1"

section \<open>Threads and state\<close>

datatype filling = FMeat | FCheese | FCabbage

fun ingr_of :: "filling \<Rightarrow> ingredient" where
  "ingr_of FMeat = Meat"
| "ingr_of FCheese = Cheese"
| "ingr_of FCabbage = Cabbage"

datatype prod_pc =
    Produce
  | DownEmpty item
  | DownMutex item
  | Push item
  | Report item
  | UpMutex
  | UpFull

datatype take_pc = DownFull | TakeMutex | Pop | GiveMutex item | UpEmpty item

datatype cons_pc =
    TakeFilling take_pc
  | TakeDough item take_pc
  | MakePierogi item item

text \<open>\<open>main\<close> sleeps, then destroys the semaphores, frees the buffers, closes the file and
  exits; the seven threads are never joined.\<close>

datatype main_pc = MSleep | MDestroyed | MFreed | MClosed | MExited

record sem_sys =
  bufs :: "ingredient \<Rightarrow> buffer"
  sem_mutex :: "ingredient \<Rightarrow> nat"
  sem_full :: "ingredient \<Rightarrow> nat"
  sem_empty :: "ingredient \<Rightarrow> nat"
  ctrs :: counters
  prods :: "ingredient \<Rightarrow> prod_pc"
  conss :: "filling \<Rightarrow> cons_pc"
  main_at :: main_pc
  out :: "line list"

datatype 's outcome = Next 's | Blocked | Undefined

datatype thread = Producer ingredient | Consumer filling

text \<open>\<open>main\<close> up to the creation of the threads, for a capacity \<open>N\<close> that is not negative
  (\<open>sem_init\<close> rejects a negative one) and \<open>malloc\<close> calls that succeed.\<close>

definition sem_start :: "int \<Rightarrow> sem_sys" where
  "sem_start N =
     \<lparr>bufs = (\<lambda>_. init_buffer True N), sem_mutex = (\<lambda>_. 1), sem_full = (\<lambda>_. 0),
      sem_empty = (\<lambda>_. nat N), ctrs = (\<lambda>_. 0), prods = (\<lambda>_. Produce),
      conss = (\<lambda>_. TakeFilling DownFull), main_at = MSleep, out = []\<rparr>"

section \<open>Steps\<close>

definition producer_step :: "ingredient \<Rightarrow> sem_sys \<Rightarrow> sem_sys outcome" where
  "producer_step k s =
     (case prods s k of
        Produce \<Rightarrow>
          (case produce k (ctrs s) of
             (item, c, l) \<Rightarrow>
               Next (s\<lparr>ctrs := c, prods := (prods s)(k := DownEmpty item), out := out s @ [l]\<rparr>))
      | DownEmpty item \<Rightarrow>
          (case down (sem_empty s k) of
             None \<Rightarrow> Blocked
           | Some v \<Rightarrow> Next (s\<lparr>sem_empty := (sem_empty s)(k := v),
                             prods := (prods s)(k := DownMutex item)\<rparr>))
      | DownMutex item \<Rightarrow>
          (case down (sem_mutex s k) of
             None \<Rightarrow> Blocked
           | Some v \<Rightarrow> Next (s\<lparr>sem_mutex := (sem_mutex s)(k := v),
                             prods := (prods s)(k := Push item)\<rparr>))
      | Push item \<Rightarrow>
          (case buffer_push (bufs s k) item of
             None \<Rightarrow> Undefined
           | Some b \<Rightarrow> Next (s\<lparr>bufs := (bufs s)(k := b), prods := (prods s)(k := Report item)\<rparr>))
      | Report item \<Rightarrow>
          Next (s\<lparr>out := out s @ [In_buffor k (item_id item)], prods := (prods s)(k := UpMutex)\<rparr>)
      | UpMutex \<Rightarrow>
          Next (s\<lparr>sem_mutex := (sem_mutex s)(k := up (sem_mutex s k)),
                  prods := (prods s)(k := UpFull)\<rparr>)
      | UpFull \<Rightarrow>
          Next (s\<lparr>sem_full := (sem_full s)(k := up (sem_full s k)),
                  prods := (prods s)(k := Produce)\<rparr>))"

text \<open>The four producers are one text with four ingredients.\<close>

definition producer_dough :: "sem_sys \<Rightarrow> sem_sys outcome" where
  "producer_dough = producer_step Dough"

definition producer_meat :: "sem_sys \<Rightarrow> sem_sys outcome" where
  "producer_meat = producer_step Meat"

definition producer_cabbage :: "sem_sys \<Rightarrow> sem_sys outcome" where
  "producer_cabbage = producer_step Cabbage"

definition producer_cheese :: "sem_sys \<Rightarrow> sem_sys outcome" where
  "producer_cheese = producer_step Cheese"

text \<open>Taking one item of ingredient \<open>k\<close>: the five statements from \<open>down(&full)\<close> to
  \<open>up(&empty)\<close>; \<open>Inr\<close> hands the item over when the last of them is done.\<close>

definition take_step :: "ingredient \<Rightarrow> take_pc \<Rightarrow> sem_sys \<Rightarrow> ((take_pc + item) \<times> sem_sys) outcome"
where
  "take_step k pc s =
     (case pc of
        DownFull \<Rightarrow>
          (case down (sem_full s k) of
             None \<Rightarrow> Blocked
           | Some v \<Rightarrow> Next (Inl TakeMutex, s\<lparr>sem_full := (sem_full s)(k := v)\<rparr>))
      | TakeMutex \<Rightarrow>
          (case down (sem_mutex s k) of
             None \<Rightarrow> Blocked
           | Some v \<Rightarrow> Next (Inl Pop, s\<lparr>sem_mutex := (sem_mutex s)(k := v)\<rparr>))
      | Pop \<Rightarrow>
          (case buffer_pop (bufs s k) of
             None \<Rightarrow> Undefined
           | Some (item, b) \<Rightarrow> Next (Inl (GiveMutex item), s\<lparr>bufs := (bufs s)(k := b)\<rparr>))
      | GiveMutex item \<Rightarrow>
          Next (Inl (UpEmpty item), s\<lparr>sem_mutex := (sem_mutex s)(k := up (sem_mutex s k))\<rparr>)
      | UpEmpty item \<Rightarrow>
          Next (Inr item, s\<lparr>sem_empty := (sem_empty s)(k := up (sem_empty s k))\<rparr>))"

definition make_pierogi :: "item \<Rightarrow> item \<Rightarrow> line" where
  "make_pierogi dough filling = Making (item_type filling) (item_id dough) (item_id filling)"

definition consumer_step :: "filling \<Rightarrow> sem_sys \<Rightarrow> sem_sys outcome" where
  "consumer_step f s =
     (case conss s f of
        TakeFilling pc \<Rightarrow>
          (case take_step (ingr_of f) pc s of
             Blocked \<Rightarrow> Blocked
           | Undefined \<Rightarrow> Undefined
           | Next (r, t) \<Rightarrow>
               Next (t\<lparr>conss := (conss t)(f := (case r of Inl pc' \<Rightarrow> TakeFilling pc'
                                                | Inr item \<Rightarrow> TakeDough item DownFull))\<rparr>))
      | TakeDough filling pc \<Rightarrow>
          (case take_step Dough pc s of
             Blocked \<Rightarrow> Blocked
           | Undefined \<Rightarrow> Undefined
           | Next (r, t) \<Rightarrow>
               Next (t\<lparr>conss := (conss t)(f := (case r of Inl pc' \<Rightarrow> TakeDough filling pc'
                                                | Inr item \<Rightarrow> MakePierogi item filling))\<rparr>))
      | MakePierogi dough filling \<Rightarrow>
          Next (s\<lparr>out := out s @ [make_pierogi dough filling],
                  conss := (conss s)(f := TakeFilling DownFull)\<rparr>))"

definition consumer_pierogi_meat :: "sem_sys \<Rightarrow> sem_sys outcome" where
  "consumer_pierogi_meat = consumer_step FMeat"

definition consumer_pierogi_cheese :: "sem_sys \<Rightarrow> sem_sys outcome" where
  "consumer_pierogi_cheese = consumer_step FCheese"

definition consumer_pierogi_cabbage :: "sem_sys \<Rightarrow> sem_sys outcome" where
  "consumer_pierogi_cabbage = consumer_step FCabbage"

text \<open>\<open>main\<close> after its ten seconds of sleep.\<close>

fun main_step :: "sem_sys \<Rightarrow> sem_sys option" where
  "main_step s =
     (case main_at s of
        MSleep \<Rightarrow> Some (s\<lparr>main_at := MDestroyed\<rparr>)
      | MDestroyed \<Rightarrow> Some (s\<lparr>main_at := MFreed\<rparr>)
      | MFreed \<Rightarrow> Some (s\<lparr>main_at := MClosed\<rparr>)
      | MClosed \<Rightarrow> Some (s\<lparr>main_at := MExited\<rparr>)
      | MExited \<Rightarrow> None)"

datatype resource = Semaphores | Buffers | Output

fun released :: "main_pc \<Rightarrow> resource list" where
  "released MSleep = []"
| "released MDestroyed = [Semaphores]"
| "released MFreed = [Semaphores, Buffers]"
| "released MClosed = [Semaphores, Buffers, Output]"
| "released MExited = [Semaphores, Buffers, Output]"

fun take_uses :: "take_pc \<Rightarrow> resource" where
  "take_uses Pop = Buffers"
| "take_uses _ = Semaphores"

fun thread_uses :: "thread \<Rightarrow> sem_sys \<Rightarrow> resource" where
  "thread_uses (Producer k) s =
     (case prods s k of Produce \<Rightarrow> Output | Push _ \<Rightarrow> Buffers | Report _ \<Rightarrow> Output | _ \<Rightarrow> Semaphores)"
| "thread_uses (Consumer f) s =
     (case conss s f of TakeFilling pc \<Rightarrow> take_uses pc | TakeDough _ pc \<Rightarrow> take_uses pc
      | MakePierogi _ _ \<Rightarrow> Output)"

fun thread_run :: "thread \<Rightarrow> sem_sys \<Rightarrow> sem_sys outcome" where
  "thread_run (Producer Dough) s = producer_dough s"
| "thread_run (Producer Meat) s = producer_meat s"
| "thread_run (Producer Cabbage) s = producer_cabbage s"
| "thread_run (Producer Cheese) s = producer_cheese s"
| "thread_run (Consumer FMeat) s = consumer_pierogi_meat s"
| "thread_run (Consumer FCheese) s = consumer_pierogi_cheese s"
| "thread_run (Consumer FCabbage) s = consumer_pierogi_cabbage s"

text \<open>A thread that uses what \<open>main\<close> has already destroyed, freed or closed is undefined;
  after \<open>exit\<close> there are no threads.\<close>

definition thread_step :: "thread \<Rightarrow> sem_sys \<Rightarrow> sem_sys outcome" where
  "thread_step t s =
     (if main_at s = MExited then Blocked
      else if List.member (released (main_at s)) (thread_uses t s) then Undefined
      else thread_run t s)"

section \<open>Runs\<close>

text \<open>What a step does to the buffers, as events; a run records them in order.\<close>

datatype event = Pushed ingredient item | Popped ingredient item

fun taken_event :: "ingredient \<Rightarrow> take_pc \<Rightarrow> sem_sys \<Rightarrow> event list" where
  "taken_event k Pop s = (case buffer_pop (bufs s k) of Some (item, _) \<Rightarrow> [Popped k item] | None \<Rightarrow> [])"
| "taken_event k _ s = []"

fun event_of :: "thread \<Rightarrow> sem_sys \<Rightarrow> event list" where
  "event_of (Producer k) s = (case prods s k of Push item \<Rightarrow> [Pushed k item] | _ \<Rightarrow> [])"
| "event_of (Consumer f) s =
     (case conss s f of TakeFilling pc \<Rightarrow> taken_event (ingr_of f) pc s
      | TakeDough _ pc \<Rightarrow> taken_event Dough pc s | MakePierogi _ _ \<Rightarrow> [])"

inductive sem_run :: "int \<Rightarrow> event list \<Rightarrow> sem_sys \<Rightarrow> bool" for N where
  sem_begin: "sem_run N [] (sem_start N)"
| sem_thread: "sem_run N es s \<Longrightarrow> thread_step t s = Next s' \<Longrightarrow> sem_run N (es @ event_of t s) s'"
| sem_main: "sem_run N es s \<Longrightarrow> main_step s = Some s' \<Longrightarrow> sem_run N es s'"

fun pushed :: "ingredient \<Rightarrow> event list \<Rightarrow> item list" where
  "pushed k [] = []"
| "pushed k (Pushed j x # es) = (if j = k then x # pushed k es else pushed k es)"
| "pushed k (Popped j x # es) = pushed k es"

fun popped :: "ingredient \<Rightarrow> event list \<Rightarrow> item list" where
  "popped k [] = []"
| "popped k (Pushed j x # es) = popped k es"
| "popped k (Popped j x # es) = (if j = k then x # popped k es else popped k es)"

lemma pushed_append [simp]: "pushed k (es @ fs) = pushed k es @ pushed k fs"
  by (induction k es rule: pushed.induct) auto

lemma popped_append [simp]: "popped k (es @ fs) = popped k es @ popped k fs"
  by (induction k es rule: popped.induct) auto

lemma thread_run_Producer: "thread_run (Producer k) s = producer_step k s"
  by (cases k) (simp_all add: producer_dough_def producer_meat_def producer_cabbage_def
      producer_cheese_def)

lemma thread_run_Consumer: "thread_run (Consumer f) s = consumer_step f s"
  by (cases f) (simp_all add: consumer_pierogi_meat_def consumer_pierogi_cheese_def
      consumer_pierogi_cabbage_def)

end
