(* ===== verification/Semafors_Inv.thy ===== *)
theory Semafors_Inv
  imports Semafors
begin

text \<open>
  The invariant of the semaphore program, one statement per ingredient: the buffer
  represents the items pushed and not yet popped, each semaphore's value is what the
  program counters say it must be, and the items pushed so far are the first ones the
  producer made. It is preserved channel by channel; the steps of other threads frame it.
\<close>

section \<open>Counting threads\<close>

fun taking :: "cons_pc \<Rightarrow> filling \<Rightarrow> ingredient \<Rightarrow> take_pc option" where
  "taking (TakeFilling pc) f k = (if k = ingr_of f then Some pc else None)"
| "taking (TakeDough _ pc) f k = (if k = Dough then Some pc else None)"
| "taking (MakePierogi _ _) f k = None"

definition tok :: "(take_pc \<Rightarrow> bool) \<Rightarrow> (filling \<Rightarrow> cons_pc) \<Rightarrow> ingredient \<Rightarrow> filling \<Rightarrow> int" where
  "tok P cs k f = (case taking (cs f) f k of Some pc \<Rightarrow> of_bool (P pc) | None \<Rightarrow> 0)"

definition cnt :: "(take_pc \<Rightarrow> bool) \<Rightarrow> (filling \<Rightarrow> cons_pc) \<Rightarrow> ingredient \<Rightarrow> int" where
  "cnt P cs k = tok P cs k FMeat + tok P cs k FCheese + tok P cs k FCabbage"

fun gave :: "take_pc \<Rightarrow> bool" where
  "gave (GiveMutex _) = True" | "gave (UpEmpty _) = True" | "gave _ = False"

fun claimed :: "take_pc \<Rightarrow> bool" where
  "claimed TakeMutex = True" | "claimed Pop = True" | "claimed _ = False"

fun in_cs :: "take_pc \<Rightarrow> bool" where
  "in_cs Pop = True" | "in_cs (GiveMutex _) = True" | "in_cs _ = False"

fun prod_reserved :: "prod_pc \<Rightarrow> bool" where
  "prod_reserved (DownMutex _) = True" | "prod_reserved (Push _) = True" | "prod_reserved _ = False"

fun prod_stored :: "prod_pc \<Rightarrow> bool" where
  "prod_stored (Report _) = True" | "prod_stored UpMutex = True" | "prod_stored UpFull = True"
| "prod_stored _ = False"

fun prod_in_cs :: "prod_pc \<Rightarrow> bool" where
  "prod_in_cs (Push _) = True" | "prod_in_cs (Report _) = True" | "prod_in_cs UpMutex = True"
| "prod_in_cs _ = False"

fun in_hand :: "prod_pc \<Rightarrow> item list" where
  "in_hand (DownEmpty x) = [x]" | "in_hand (DownMutex x) = [x]" | "in_hand (Push x) = [x]"
| "in_hand _ = []"

lemma tok_bounds: "0 \<le> tok P cs k f" "tok P cs k f \<le> 1"
  by (simp_all add: tok_def split: option.split)

lemma cnt_nonneg: "0 \<le> cnt P cs k"
  using tok_bounds(1) by (simp add: cnt_def)

lemma tok_upd: "tok P (cs(f := c)) k g = (if g = f then tok P (\<lambda>_. c) k f else tok P cs k g)"
  by (simp add: tok_def)

lemma cnt_upd: "cnt P (cs(f := c)) k = cnt P cs k - tok P cs k f + tok P (\<lambda>_. c) k f"
  by (cases f) (simp_all add: cnt_def tok_upd)

lemma cnt_ge_tok: "tok P cs k f \<le> cnt P cs k"
  using tok_bounds(1) [of P cs k] by (cases f) (simp_all add: cnt_def add_nonneg_nonneg)

lemma cnt_pos: "0 < cnt P cs k \<Longrightarrow> \<exists>f pc. taking (cs f) f k = Some pc \<and> P pc"
proof -
  assume "0 < cnt P cs k"
  then have "\<exists>f. tok P cs k f \<noteq> 0" unfolding cnt_def by (metis add.right_neutral less_irrefl)
  then obtain f where "tok P cs k f \<noteq> 0" ..
  then show ?thesis by (auto simp: tok_def split: option.splits)
qed

section \<open>One channel\<close>

text \<open>\<open>cg\<close>, \<open>ct\<close>, \<open>cm\<close> count the consumers that freed a cell and have not told, that own a
  stored item and have not taken it, that hold the mutex.\<close>

definition chan_inv :: "int \<Rightarrow> ingredient \<Rightarrow> buffer \<Rightarrow> nat \<Rightarrow> nat \<Rightarrow> nat \<Rightarrow> prod_pc \<Rightarrow> int
    \<Rightarrow> int \<Rightarrow> int \<Rightarrow> int \<Rightarrow> item list \<Rightarrow> item list \<Rightarrow> bool" where
  "chan_inv N k b em fu mu pc ctr cg ct cm psh pp \<longleftrightarrow>
     (\<exists>xs m. buf_rep b xs \<and> capacity b = N \<and> psh = pp @ xs
        \<and> psh @ in_hand pc = map (nth_item k) [0..<m] \<and> ctr = int32 (int m)
        \<and> int em = N - int (length xs) - of_bool (prod_reserved pc) - cg
        \<and> int fu = int (length xs) - of_bool (prod_stored pc) - ct
        \<and> int mu + of_bool (prod_in_cs pc) + cm = 1)"

lemma chan_invE:
  assumes "chan_inv N k b em fu mu pc ctr cg ct cm psh pp"
  obtains xs m where "buf_rep b xs" "capacity b = N" "psh = pp @ xs"
    "psh @ in_hand pc = map (nth_item k) [0..<m]" "ctr = int32 (int m)"
    "int em = N - int (length xs) - of_bool (prod_reserved pc) - cg"
    "int fu = int (length xs) - of_bool (prod_stored pc) - ct"
    "int mu + of_bool (prod_in_cs pc) + cm = 1"
  using assms unfolding chan_inv_def by blast

lemma chan_start:
  "0 < N \<Longrightarrow> N < 2 ^ 31 \<Longrightarrow> chan_inv N k (init_buffer True N) (nat N) 0 1 Produce 0 0 0 0 [] []"
  unfolding chan_inv_def
  using buf_rep_init [of N]
  by (intro exI [of _ "[]"] exI [of _ 0]) (simp add: init_buffer_def int32_def)

lemma chan_produce:
  assumes "chan_inv N k b em fu mu Produce ctr cg ct cm psh pp"
  shows "chan_inv N k b em fu mu (DownEmpty \<lparr>item_id = ctr, item_type = type_char k\<rparr>)
           (int32 (ctr + 1)) cg ct cm psh pp"
proof -
  from assms obtain xs m where *: "buf_rep b xs" "capacity b = N" "psh = pp @ xs"
    "psh = map (nth_item k) [0..<m]" "ctr = int32 (int m)"
    "int em = N - int (length xs) - cg" "int fu = int (length xs) - ct" "int mu + cm = 1"
    by (elim chan_invE) simp
  have "psh @ [\<lparr>item_id = ctr, item_type = type_char k\<rparr>] = map (nth_item k) [0..<Suc m]"
    using * by (simp add: nth_item_def)
  moreover have "int32 (ctr + 1) = int32 (int (Suc m))" using * by (simp add: add.commute)
  ultimately show ?thesis unfolding chan_inv_def
    using * by (intro exI [of _ xs] exI [of _ "Suc m"]) simp
qed

lemma chan_push:
  assumes "chan_inv N k b em fu mu (Push x) ctr cg ct cm psh pp" and "0 \<le> cg"
  obtains b' where "buffer_push b x = Some b'"
    "chan_inv N k b' em fu mu (Report x) ctr cg ct cm (psh @ [x]) pp"
proof -
  from assms(1) obtain xs m where *: "buf_rep b xs" "capacity b = N" "psh = pp @ xs"
    "psh @ [x] = map (nth_item k) [0..<m]" "ctr = int32 (int m)"
    "int em = N - int (length xs) - 1 - cg" "int fu = int (length xs) - ct" "int mu + 1 + cm = 1"
    by (elim chan_invE) simp
  have room: "length xs < nat (capacity b)" using *(2,6) assms(2) by linarith
  obtain b' where b': "buffer_push b x = Some b'" "buf_rep b' (xs @ [x])"
    "nat (capacity b') = nat (capacity b)"
    by (rule ring.pushE [OF *(1) room])
  from b'(1) have "capacity b' = N" using *(2) by (auto simp: buffer_push_def split: if_splits)
  then have "chan_inv N k b' em fu mu (Report x) ctr cg ct cm (psh @ [x]) pp"
    unfolding chan_inv_def using * b'(2) by (intro exI [of _ "xs @ [x]"] exI [of _ m]) simp
  with b'(1) show ?thesis by (rule that)
qed

lemma chan_pop:
  assumes "chan_inv N k b em fu mu pc ctr cg ct cm psh pp" and "0 < ct"
  obtains x b' where "buffer_pop b = Some (x, b')"
    "chan_inv N k b' em fu mu pc ctr (cg + 1) (ct - 1) cm psh (pp @ [x])"
proof -
  from assms(1) obtain xs m where *: "buf_rep b xs" "capacity b = N" "psh = pp @ xs"
    "psh @ in_hand pc = map (nth_item k) [0..<m]" "ctr = int32 (int m)"
    "int em = N - int (length xs) - of_bool (prod_reserved pc) - cg"
    "int fu = int (length xs) - of_bool (prod_stored pc) - ct"
    "int mu + of_bool (prod_in_cs pc) + cm = 1"
    by (elim chan_invE)
  have "0 < int (length xs)" using *(7) assms(2) by (cases "prod_stored pc") auto
  then have ne: "xs \<noteq> []" by simp
  obtain b' where b': "buffer_pop b = Some (hd xs, b')" "buf_rep b' (tl xs)"
    "nat (capacity b') = nat (capacity b)"
    by (rule ring.popE [OF *(1) ne])
  from b'(1) have "capacity b' = N" using *(2)
    by (auto simp: buffer_pop_def split: if_splits option.splits)
  moreover have "psh = (pp @ [hd xs]) @ tl xs" using *(3) ne by simp
  moreover have "int (length (tl xs)) = int (length xs) - 1" using ne by (cases xs) auto
  ultimately have "chan_inv N k b' em fu mu pc ctr (cg + 1) (ct - 1) cm psh (pp @ [hd xs])"
    unfolding chan_inv_def using *(4-8) b'(2) by (intro exI [of _ "tl xs"] exI [of _ m]) simp
  with b'(1) show ?thesis by (rule that)
qed

text \<open>Moves that only shift a token between a semaphore and a program counter.\<close>

lemma chan_tokens:
  assumes "chan_inv N k b em fu mu pc ctr cg ct cm psh pp"
    and "in_hand pc' = in_hand pc"
    and "int em' + of_bool (prod_reserved pc') + cg' = int em + of_bool (prod_reserved pc) + cg"
    and "int fu' + of_bool (prod_stored pc') + ct' = int fu + of_bool (prod_stored pc) + ct"
    and "int mu' + of_bool (prod_in_cs pc') + cm' = int mu + of_bool (prod_in_cs pc) + cm"
  shows "chan_inv N k b em' fu' mu' pc' ctr cg' ct' cm' psh pp"
  using assms unfolding chan_inv_def by (elim exE) (rule exI, rule exI, force)

section \<open>The invariant of the program\<close>

definition chan :: "int \<Rightarrow> event list \<Rightarrow> sem_sys \<Rightarrow> ingredient \<Rightarrow> bool" where
  "chan N es s k =
     chan_inv N k (bufs s k) (sem_empty s k) (sem_full s k) (sem_mutex s k) (prods s k) (ctrs s k)
       (cnt gave (conss s) k) (cnt claimed (conss s) k) (cnt in_cs (conss s) k)
       (pushed k es) (popped k es)"

definition sem_inv :: "int \<Rightarrow> event list \<Rightarrow> sem_sys \<Rightarrow> bool" where
  "sem_inv N es s \<longleftrightarrow> (\<forall>k. chan N es s k)"

lemma sem_inv_start: "0 < N \<Longrightarrow> N < 2 ^ 31 \<Longrightarrow> sem_inv N [] (sem_start N)"
  using chan_start [of N] by (simp add: sem_inv_def chan_def sem_start_def cnt_def tok_def)

text \<open>A step on channel \<open>j\<close> leaves the other channels alone.\<close>

lemma chan_frame:
  assumes "chan N es s k"
    and "bufs t k = bufs s k" "sem_empty t k = sem_empty s k" "sem_full t k = sem_full s k"
    "sem_mutex t k = sem_mutex s k" "prods t k = prods s k" "ctrs t k = ctrs s k"
    and "\<And>P. cnt P (conss t) k = cnt P (conss s) k"
    and "pushed k fs = pushed k es" "popped k fs = popped k es"
  shows "chan N fs t k"
  using assms by (simp add: chan_def)

lemma down_Some: "down n = Some v \<longleftrightarrow> 0 < n \<and> v = n - 1"
  by (auto simp: down_def)

lemma producer_defined:
  assumes "chan N es s k"
  shows "producer_step k s \<noteq> Undefined"
proof (cases "prods s k")
  case (Push x)
  with assms have "chan_inv N k (bufs s k) (sem_empty s k) (sem_full s k) (sem_mutex s k) (Push x)
      (ctrs s k) (cnt gave (conss s) k) (cnt claimed (conss s) k) (cnt in_cs (conss s) k)
      (pushed k es) (popped k es)" by (simp add: chan_def)
  then obtain b' where "buffer_push (bufs s k) x = Some b'" by (rule chan_push) (simp add: cnt_nonneg)
  with Push show ?thesis by (simp add: producer_step_def)
qed (simp_all add: producer_step_def split: option.split prod.split)

lemma producer_preserves:
  assumes inv: "sem_inv N es s" and st: "producer_step j s = Next t"
  shows "sem_inv N (es @ event_of (Producer j) s) t"
  unfolding sem_inv_def
proof
  fix k
  have c: "chan N es s k" using inv by (simp add: sem_inv_def)
  show "chan N (es @ event_of (Producer j) s) t k"
  proof (cases "j = k")
    case False
    with st c show ?thesis
      by (auto intro!: chan_frame [OF c] simp: producer_step_def produce_eq
          split: prod_pc.splits option.splits)
  next
    case True
    note ci = c [unfolded chan_def]
    show ?thesis
    proof (cases "prods s k")
      case Produce
      with ci True st show ?thesis
        by (auto simp: producer_step_def produce_eq chan_def intro: chan_produce)
    next
      case (Push x)
      from ci Push obtain b' where b': "buffer_push (bufs s k) x = Some b'"
        "chan_inv N k b' (sem_empty s k) (sem_full s k) (sem_mutex s k) (Report x) (ctrs s k)
          (cnt gave (conss s) k) (cnt claimed (conss s) k) (cnt in_cs (conss s) k)
          (pushed k es @ [x]) (popped k es)"
        by (auto intro: chan_push [OF _ cnt_nonneg])
      with Push True st show ?thesis by (auto simp: producer_step_def chan_def)
    qed (use True st in \<open>auto simp: producer_step_def chan_def down_Some up_def
           split: option.splits intro!: chan_tokens [OF ci]\<close>)
  qed
qed


text \<open>One statement of a consumer on the channel it takes from, and on the others.\<close>

definition tok_is :: "cons_pc \<Rightarrow> ingredient \<Rightarrow> filling \<Rightarrow> take_pc + item \<Rightarrow> bool" where
  "tok_is c k f r \<longleftrightarrow> (\<forall>P. P = gave \<or> P = claimed \<or> P = in_cs \<longrightarrow>
     tok P (\<lambda>_. c) k f = (case r of Inl pc \<Rightarrow> of_bool (P pc) | Inr _ \<Rightarrow> 0))"

lemma take_step_conss: "take_step k pc s = Next (r, t) \<Longrightarrow> conss t = conss s"
  by (auto simp: take_step_def split: take_pc.splits option.splits)

lemma tok_now: "taking (cs f) f k = Some pc \<Longrightarrow> tok P cs k f = of_bool (P pc)"
  by (simp add: tok_def)

lemma take_defined:
  assumes c: "chan N es s k" and pc: "taking (conss s f) f k = Some pc"
  shows "take_step k pc s \<noteq> Undefined"
proof (cases pc)
  case Pop
  have "0 < cnt claimed (conss s) k"
    using cnt_ge_tok [of claimed "conss s" k f] tok_now [where cs = "conss s", OF pc] Pop by simp
  with c [unfolded chan_def] obtain x b' where "buffer_pop (bufs s k) = Some (x, b')"
    by (rule chan_pop)
  with Pop show ?thesis by (simp add: take_step_def)
qed (simp_all add: take_step_def split: option.split)

lemma take_chan:
  assumes c: "chan N es s k" and pc: "taking (conss s f) f k = Some pc"
    and st: "take_step k pc s = Next (r, t)" and new: "tok_is c' k f r"
  shows "chan N (es @ taken_event k pc s) (t\<lparr>conss := (conss t)(f := c')\<rparr>) k"
proof -
  note ci = c [unfolded chan_def]
  note old = tok_now [where cs = "conss s", OF pc]
  have upd: "cnt P ((conss s)(f := c')) k = cnt P (conss s) k - of_bool (P pc)
      + (case r of Inl pc' \<Rightarrow> of_bool (P pc') | Inr _ \<Rightarrow> 0)"
    if "P = gave \<or> P = claimed \<or> P = in_cs" for P
    using new that old by (auto simp: cnt_upd tok_is_def)
  have upds: "cnt gave ((conss s)(f := c')) k = cnt gave (conss s) k - of_bool (gave pc)
        + (case r of Inl pc' \<Rightarrow> of_bool (gave pc') | Inr _ \<Rightarrow> 0)"
      "cnt claimed ((conss s)(f := c')) k = cnt claimed (conss s) k - of_bool (claimed pc)
        + (case r of Inl pc' \<Rightarrow> of_bool (claimed pc') | Inr _ \<Rightarrow> 0)"
      "cnt in_cs ((conss s)(f := c')) k = cnt in_cs (conss s) k - of_bool (in_cs pc)
        + (case r of Inl pc' \<Rightarrow> of_bool (in_cs pc') | Inr _ \<Rightarrow> 0)"
    by (rule upd, simp)+
  show ?thesis
  proof (cases pc)
    case Pop
    have "0 < cnt claimed (conss s) k"
      using cnt_ge_tok [of claimed "conss s" k f] old Pop by simp
    with ci obtain x b' where b': "buffer_pop (bufs s k) = Some (x, b')"
      "chan_inv N k b' (sem_empty s k) (sem_full s k) (sem_mutex s k) (prods s k) (ctrs s k)
        (cnt gave (conss s) k + 1) (cnt claimed (conss s) k - 1) (cnt in_cs (conss s) k)
        (pushed k es) (popped k es @ [x])" by (rule chan_pop)
    with Pop st show ?thesis by (auto simp: take_step_def chan_def upds)
  qed (use st in \<open>auto simp: take_step_def chan_def upds down_Some up_def
         split: option.splits intro!: chan_tokens [OF ci]\<close>)
qed

lemma take_other:
  assumes c: "chan N es s k" and j: "j \<noteq> k" and st: "take_step j pc s = Next (r, t)"
    and tok: "\<And>P. P = gave \<or> P = claimed \<or> P = in_cs \<Longrightarrow> tok P (\<lambda>_. c') k f = tok P (conss s) k f"
  shows "chan N (es @ taken_event j pc s) (t\<lparr>conss := (conss t)(f := c')\<rparr>) k"
proof -
  have upds: "cnt gave ((conss s)(f := c')) k = cnt gave (conss s) k"
      "cnt claimed ((conss s)(f := c')) k = cnt claimed (conss s) k"
      "cnt in_cs ((conss s)(f := c')) k = cnt in_cs (conss s) k"
    using tok [of gave] tok [of claimed] tok [of in_cs] by (simp_all add: cnt_upd)
  have ev: "pushed k (taken_event j pc s) = []" "popped k (taken_event j pc s) = []"
    using j by (cases pc; auto split: option.split)+
  show ?thesis using st c j ev
    by (auto simp: take_step_def chan_def upds split: take_pc.splits option.splits)
qed

lemma consumer_defined:
  assumes "sem_inv N es s"
  shows "consumer_step f s \<noteq> Undefined"
proof (cases "conss s f")
  case (TakeFilling pc)
  have "chan N es s (ingr_of f)" using assms by (simp add: sem_inv_def)
  then have "take_step (ingr_of f) pc s \<noteq> Undefined"
    by (rule take_defined [where f = f]) (simp add: TakeFilling)
  with TakeFilling show ?thesis by (auto simp: consumer_step_def split: outcome.split)
next
  case (TakeDough x pc)
  have "chan N es s Dough" using assms by (simp add: sem_inv_def)
  then have "take_step Dough pc s \<noteq> Undefined" by (rule take_defined [where f = f]) (simp add: TakeDough)
  with TakeDough show ?thesis by (auto simp: consumer_step_def split: outcome.split)
qed (simp add: consumer_step_def)

lemma ingr_of_not_Dough [simp]: "ingr_of f \<noteq> Dough" "Dough \<noteq> ingr_of f"
  by (cases f; simp)+

lemma consumer_preserves:
  assumes inv: "sem_inv N es s" and st: "consumer_step f s = Next t"
  shows "sem_inv N (es @ event_of (Consumer f) s) t"
  unfolding sem_inv_def
proof
  fix k
  have c: "chan N es s k" using inv by (simp add: sem_inv_def)
  show "chan N (es @ event_of (Consumer f) s) t k"
  proof (cases "conss s f")
    case (TakeFilling pc)
    with st obtain r u where u: "take_step (ingr_of f) pc s = Next (r, u)"
      "t = u\<lparr>conss := (conss u)(f := (case r of Inl pc' \<Rightarrow> TakeFilling pc'
                                                | Inr item \<Rightarrow> TakeDough item DownFull))\<rparr>"
      by (auto simp: consumer_step_def split: outcome.splits)
    show ?thesis
    proof (cases "k = ingr_of f")
      case True
      with take_chan [OF c _ u(1) [folded True]] TakeFilling u(2) show ?thesis
        by (auto simp: tok_is_def tok_def split: sum.split)
    next
      case False
      then have "tok P (\<lambda>_. conss t f) k f = tok P (conss s) k f"
        if "P = gave \<or> P = claimed \<or> P = in_cs" for P
        using that TakeFilling u(2) by (auto simp: tok_def split: sum.split)
      from take_other [OF c _ u(1), of "conss t f" f] this False TakeFilling u(2) show ?thesis
        by auto
    qed
  next
    case (TakeDough x pc)
    with st obtain r u where u: "take_step Dough pc s = Next (r, u)"
      "t = u\<lparr>conss := (conss u)(f := (case r of Inl pc' \<Rightarrow> TakeDough x pc'
                                                | Inr item \<Rightarrow> MakePierogi item x))\<rparr>"
      by (auto simp: consumer_step_def split: outcome.splits)
    show ?thesis
    proof (cases "k = Dough")
      case True
      with take_chan [OF c _ u(1) [folded True]] TakeDough u(2) show ?thesis
        by (auto simp: tok_is_def tok_def split: sum.split)
    next
      case False
      then have "tok P (\<lambda>_. conss t f) k f = tok P (conss s) k f"
        if "P = gave \<or> P = claimed \<or> P = in_cs" for P
        using that TakeDough u(2) by (auto simp: tok_def split: sum.split)
      from take_other [OF c _ u(1), of "conss t f" f] this False TakeDough u(2) show ?thesis
        by auto
    qed
  next
    case (MakePierogi d x)
    with st c show ?thesis
      by (auto simp: consumer_step_def chan_def cnt_upd tok_def)
  qed
qed

lemma sem_run_inv:
  assumes "sem_run N es s" and "0 < N" and "N < 2 ^ 31"
  shows "sem_inv N es s"
  using assms(1)
proof induction
  case sem_begin
  show ?case using assms(2,3) by (rule sem_inv_start)
next
  case (sem_thread es s t s')
  then have "thread_run t s = Next s'" by (auto simp: thread_step_def split: if_splits)
  with sem_thread show ?case
    by (cases t) (simp_all only: thread_run_Producer thread_run_Consumer
        producer_preserves consumer_preserves)
next
  case (sem_main es s s')
  then show ?case
    by (auto simp: sem_inv_def chan_def split: main_pc.splits)
qed

end
