(* ===== verification/Semafors_Props.thy ===== *)
theory Semafors_Props
  imports Semafors_Inv
begin

text \<open>
  What the semaphore program guarantees in every reachable state, for every capacity that
  is a positive \<open>int\<close>: FIFO delivery without loss or duplication, mutual exclusion on every
  buffer, no undefined step and no deadlock while \<open>main\<close> sleeps; and what it does not
  guarantee: \<open>main\<close> releases objects the threads still use.
\<close>

section \<open>Helpers\<close>

definition in_critical :: "thread \<Rightarrow> ingredient \<Rightarrow> sem_sys \<Rightarrow> bool" where
  "in_critical t k s =
     (case t of
        Producer j \<Rightarrow> j = k \<and> prod_in_cs (prods s k)
      | Consumer f \<Rightarrow> (case taking (conss s f) f k of Some pc \<Rightarrow> in_cs pc | None \<Rightarrow> False))"

lemma tok_pair: "f \<noteq> g \<Longrightarrow> tok P cs k f + tok P cs k g \<le> cnt P cs k"
  using tok_bounds(1) [of P cs k] by (cases f; cases g) (simp_all add: cnt_def)

lemma chan_of_run: "sem_run N es s \<Longrightarrow> 0 < N \<Longrightarrow> N < 2 ^ 31 \<Longrightarrow> chan N es s k"
  using sem_run_inv by (simp add: sem_inv_def)

lemma chan_items:
  assumes "chan N es s k"
  obtains xs m where "pushed k es = popped k es @ xs" "int (length xs) \<le> N" "buf_rep (bufs s k) xs"
    "pushed k es @ in_hand (prods s k) = map (nth_item k) [0..<m]"
  using assms unfolding chan_def by (elim chan_invE) (use buf_rep_bound in \<open>force intro: that\<close>)

lemma consumer_in_critical: "in_critical (Consumer f) k s \<Longrightarrow> tok in_cs (conss s) k f = 1"
  by (auto simp: in_critical_def tok_def split: option.splits)

text \<open>A schedule runs threads one after the other; it builds concrete runs.\<close>

fun schedule :: "thread list \<Rightarrow> event list \<Rightarrow> sem_sys \<Rightarrow> (event list \<times> sem_sys) option" where
  "schedule [] es s = Some (es, s)"
| "schedule (t # ts) es s =
     (case thread_step t s of Next s' \<Rightarrow> schedule ts (es @ event_of t s) s' | _ \<Rightarrow> None)"

lemma schedule_run: "sem_run N es s \<Longrightarrow> schedule ts es s = Some (fs, t) \<Longrightarrow> sem_run N fs t"
proof (induction ts arbitrary: es s)
  case (Cons a ts)
  then show ?case by (auto split: outcome.splits intro: sem_thread)
qed simp

definition make_one :: "thread list" where
  "make_one = replicate 7 (Producer Meat) @ replicate 3 (Consumer FMeat)"

lemmas run_simps = make_one_def sem_start_def thread_step_def producer_meat_def producer_step_def
  produce_meat_def consumer_pierogi_meat_def consumer_step_def take_step_def down_def up_def
  init_buffer_def buffer_push_def buffer_pop_def numeral_eq_Suc

lemma make_one_run:
  "\<exists>s. sem_run 1 [Pushed Meat (nth_item Meat 0), Popped Meat (nth_item Meat 0)] s
     \<and> main_at s = MSleep \<and> in_critical (Consumer FMeat) Meat s"
proof -
  have "\<exists>s. schedule make_one [] (sem_start 1)
      = Some ([Pushed Meat (nth_item Meat 0), Popped Meat (nth_item Meat 0)], s)
      \<and> main_at s = MSleep \<and> in_critical (Consumer FMeat) Meat s"
    by (simp add: run_simps nth_item_def in_critical_def int32_def crem_def cdiv_def)
  then show ?thesis using schedule_run sem_begin by blast
qed

section \<open>Properties\<close>

text \<open>C18: FIFO delivery without loss or duplication. In every run of the semaphore program the
  items taken from the buffer of an ingredient are exactly the first ones its producer made, in
  that order, and what was stored beyond them fits the capacity.\<close>
theorem sem_fifo:
  assumes "sem_run N es s" and "0 < N" and "N < 2 ^ 31"
  shows "popped k es = map (nth_item k) [0..<length (popped k es)]
    \<and> pushed k es = map (nth_item k) [0..<length (pushed k es)]
    \<and> length (popped k es) \<le> length (pushed k es)
    \<and> int (length (pushed k es)) - int (length (popped k es)) \<le> N"
proof -
  obtain xs m where *: "pushed k es = popped k es @ xs" "int (length xs) \<le> N"
    "pushed k es @ in_hand (prods s k) = map (nth_item k) [0..<m]"
    using chan_of_run [OF assms] by (rule chan_items)
  from prefix_upt [OF *(3)] have p: "pushed k es = map (nth_item k) [0..<length (pushed k es)]" .
  have "popped k es @ xs = map (nth_item k) [0..<length (pushed k es)]" using *(1) p by simp
  from prefix_upt [OF this] p * show ?thesis by simp
qed

theorem sem_fifo_witness:
  "\<exists>s. sem_run 1 [Pushed Meat (nth_item Meat 0), Popped Meat (nth_item Meat 0)] s
     \<and> popped Meat [Pushed Meat (nth_item Meat 0), Popped Meat (nth_item Meat 0)]
         = map (nth_item Meat) [0..<1]"
proof -
  obtain s where s: "sem_run 1 [Pushed Meat (nth_item Meat 0), Popped Meat (nth_item Meat 0)] s"
    using make_one_run by blast
  with sem_fifo [OF s, of Meat] show ?thesis by auto
qed

text \<open>C26: Mutual exclusion. In every reachable state at most one of the seven threads is between
  its \<open>down\<close> and its \<open>up\<close> of the mutex of a given buffer.\<close>
theorem sem_mutual_exclusion:
  assumes "sem_run N es s" and "0 < N" and "N < 2 ^ 31"
    and t: "in_critical t k s" and u: "in_critical u k s"
  shows "t = u"
proof -
  have m: "int (sem_mutex s k) + of_bool (prod_in_cs (prods s k)) + cnt in_cs (conss s) k = 1"
    using chan_of_run [OF assms(1-3), of k] unfolding chan_def by (elim chan_invE)
  have one: "of_bool (prod_in_cs (prods s k)) + tok in_cs (conss s) k f \<le> 1" for f
    using m cnt_ge_tok [of in_cs "conss s" k f] by linarith
  have two: "f = g" if "tok in_cs (conss s) k f = 1" "tok in_cs (conss s) k g = 1" for f g
  proof (rule ccontr)
    assume "f \<noteq> g"
    from tok_pair [OF this, of in_cs "conss s" k] that m show False
      by (cases "prod_in_cs (prods s k)") simp_all
  qed
  have mixed: False if "in_critical (Producer j) k s" "in_critical (Consumer f) k s" for j f
    using that(1) one [of f] consumer_in_critical [OF that(2)] by (simp add: in_critical_def)
  show ?thesis
  proof (cases t)
    case (Producer j)
    show ?thesis
    proof (cases u)
      case (Producer j')
      with t u \<open>t = Producer j\<close> show ?thesis by (simp add: in_critical_def)
    next
      case (Consumer f)
      with mixed t u \<open>t = Producer j\<close> show ?thesis by blast
    qed
  next
    case (Consumer f)
    show ?thesis
    proof (cases u)
      case (Producer j)
      with mixed t u \<open>t = Consumer f\<close> show ?thesis by blast
    next
      case (Consumer g)
      with t u \<open>t = Consumer f\<close> show ?thesis
        using two [of f g] consumer_in_critical by simp
    qed
  qed
qed

theorem sem_mutual_exclusion_witness:
  "\<exists>es s. sem_run 1 es s \<and> in_critical (Consumer FMeat) Meat s
     \<and> \<not> in_critical (Producer Meat) Meat s"
proof -
  obtain es s where s: "sem_run 1 es s" "in_critical (Consumer FMeat) Meat s"
    using make_one_run by blast
  with sem_mutual_exclusion [OF s(1) _ _ s(2), of "Producer Meat"] show ?thesis by auto
qed

text \<open>While \<open>main\<close> sleeps no statement writes or reads outside a buffer, reads a cell that was never
  written or divides by zero.\<close>

lemma never_undefined:
  assumes "sem_run N es s" and "0 < N" and "N < 2 ^ 31" and "main_at s = MSleep"
  shows "thread_step t s \<noteq> Undefined"
proof -
  have inv: "sem_inv N es s" using assms(1-3) by (rule sem_run_inv)
  have "thread_run t s \<noteq> Undefined"
  proof (cases t)
    case (Producer k)
    with inv producer_defined show ?thesis
      by (metis sem_inv_def thread_run_Producer)
  next
    case (Consumer f)
    with inv consumer_defined show ?thesis by (metis thread_run_Consumer)
  qed
  with assms(4) show ?thesis by (simp add: thread_step_def)
qed

text \<open>A blocked thread waits in one of its two kinds of \<open>sem_wait\<close>.\<close>

lemma producer_blocked:
  assumes "producer_step k s = Blocked"
  shows "(\<exists>x. prods s k = DownEmpty x) \<and> sem_empty s k = 0
    \<or> (\<exists>x. prods s k = DownMutex x) \<and> sem_mutex s k = 0"
  using assms by (auto simp: producer_step_def down_def split: prod_pc.splits option.splits
      if_splits prod.splits)

lemma take_blocked:
  "take_step k pc s = Blocked \<Longrightarrow>
     pc = DownFull \<and> sem_full s k = 0 \<or> pc = TakeMutex \<and> sem_mutex s k = 0"
  by (auto simp: take_step_def down_def split: take_pc.splits option.splits if_splits)

lemma consumer_blocked:
  assumes "consumer_step f s = Blocked"
  obtains k pc where "taking (conss s f) f k = Some pc"
    and "pc = DownFull \<and> sem_full s k = 0 \<or> pc = TakeMutex \<and> sem_mutex s k = 0"
    and "\<forall>j pc'. taking (conss s f) f j = Some pc' \<longrightarrow> j = k \<and> pc' = pc"
proof (cases "conss s f")
  case (TakeFilling pc)
  with assms have "take_step (ingr_of f) pc s = Blocked"
    by (auto simp: consumer_step_def split: outcome.splits)
  from take_blocked [OF this] TakeFilling show ?thesis
    by (intro that [of "ingr_of f" pc]) (auto split: if_splits)
next
  case (TakeDough x pc)
  with assms have "take_step Dough pc s = Blocked"
    by (auto simp: consumer_step_def split: outcome.splits)
  from take_blocked [OF this] TakeDough show ?thesis
    by (intro that [of Dough pc]) (auto split: if_splits)
next
  case (MakePierogi d x)
  with assms show ?thesis by (simp add: consumer_step_def)
qed

lemma mutex_free_when_blocked:
  assumes inv: "chan N es s k" and p: "producer_step k s = Blocked"
    and c: "\<And>f. consumer_step f s = Blocked"
  shows "sem_mutex s k \<noteq> 0"
proof
  assume z: "sem_mutex s k = 0"
  have np: "\<not> prod_in_cs (prods s k)" using producer_blocked [OF p] by auto
  have "int (sem_mutex s k) + of_bool (prod_in_cs (prods s k)) + cnt in_cs (conss s) k = 1"
    using inv unfolding chan_def by (elim chan_invE)
  with z np have "0 < cnt in_cs (conss s) k" by simp
  then obtain f pc where f: "taking (conss s f) f k = Some pc" "in_cs pc" by (auto dest: cnt_pos)
  from c [of f] show False by (rule consumer_blocked) (use f in auto)
qed

lemma not_all_waiting:
  assumes run: "sem_run N es s" and N: "0 < N" "N < 2 ^ 31" and m: "main_at s = MSleep"
  shows "\<exists>t s'. thread_step t s = Next s'"
proof (rule ccontr)
  assume "\<not> ?thesis"
  then have b: "thread_step t s = Blocked" for t
    using never_undefined [OF run N m, of t] by (cases "thread_step t s") auto
  have p: "producer_step k s = Blocked" for k
    using b [of "Producer k"] m by (simp add: thread_step_def thread_run_Producer)
  have c: "consumer_step f s = Blocked" for f
    using b [of "Consumer f"] m by (simp add: thread_step_def thread_run_Consumer)
  have inv: "chan N es s k" for k using run N by (rule chan_of_run)
  have free: "sem_mutex s k \<noteq> 0" for k using inv p c by (rule mutex_free_when_blocked)
  have idle: "\<not> P pc" if "taking (conss s f) f k = Some pc" "\<not> P DownFull" for f k pc P
    using c [of f] by (rule consumer_blocked) (use that free in auto)
  have zero: "cnt P (conss s) k = 0" if "\<not> P DownFull" for P k
    using cnt_pos [of P "conss s" k] idle that cnt_nonneg [of P "conss s" k] by force
  have full: "0 < sem_full s k" for k
  proof -
    from producer_blocked [OF p, of k] free have pe: "\<not> prod_reserved (prods s k)"
      "\<not> prod_stored (prods s k)" "sem_empty s k = 0" by auto
    from inv [of k, unfolded chan_def] pe zero N(1) show ?thesis
      by (elim chan_invE) (simp add: zero)
  qed
  from c [of FMeat] show False
    by (rule consumer_blocked) (use full free in \<open>metis less_irrefl\<close>)
qed

text \<open>C25: No deadlock and no undefined behaviour. While \<open>main\<close> sleeps, in every reachable state at
  least one of the seven threads can execute its next statement, and no statement of any
  thread writes or reads outside a buffer, reads a cell that was never written or divides by
  zero.\<close>
theorem sem_progress:
  assumes "sem_run N es s" and "0 < N" "N < 2 ^ 31" and "main_at s = MSleep"
  shows "(\<exists>t s'. thread_step t s = Next s') \<and> (\<forall>t. thread_step t s \<noteq> Undefined)"
  using not_all_waiting [OF assms] never_undefined [OF assms(1-4)] by blast

theorem sem_progress_witness:
  "\<exists>es s. sem_run 1 es s \<and> main_at s = MSleep \<and> (\<exists>t s'. thread_step t s = Next s')"
proof -
  obtain es s where "sem_run 1 es s" "main_at s = MSleep" using make_one_run by blast
  with sem_progress [of 1 es s] show ?thesis by auto
qed

text \<open>C39: The shutdown of \<open>main\<close> is not safe. For every positive capacity there is a run in
  which \<open>main\<close> has freed the buffers while a producer is about to write into one of them: its
  next statement is undefined.\<close>
theorem sem_shutdown_unsafe:
  assumes "0 < N" and "N < 2 ^ 31"
  shows "\<exists>es s x. sem_run N es s \<and> main_at s = MFreed \<and> prods s Meat = Push x
    \<and> thread_step (Producer Meat) s = Undefined"
proof -
  have "nat N \<noteq> 0" using assms by simp
  then obtain es s x where s: "schedule (replicate 3 (Producer Meat)) [] (sem_start N) = Some (es, s)"
    "prods s Meat = Push x" "main_at s = MSleep"
    by (simp add: run_simps)
  have "sem_run N es s" using sem_begin s(1) by (rule schedule_run)
  then have "sem_run N es (s\<lparr>main_at := MDestroyed\<rparr>)"
    by (rule sem_main) (simp add: s)
  then have "sem_run N es (s\<lparr>main_at := MFreed\<rparr>)"
    by (rule sem_main) simp
  moreover have "thread_step (Producer Meat) (s\<lparr>main_at := MFreed\<rparr>) = Undefined"
    using s by (simp add: thread_step_def List.member_iff)
  ultimately show ?thesis using s(2)
    by (intro exI [of _ es] exI [of _ "s\<lparr>main_at := MFreed\<rparr>"] exI [of _ x]) simp
qed

theorem sem_shutdown_unsafe_witness:
  "\<exists>es s x. sem_run 3 es s \<and> main_at s = MFreed \<and> prods s Meat = Push x
    \<and> thread_step (Producer Meat) s = Undefined"
  by (rule sem_shutdown_unsafe) simp_all

end
