(* ===== verification/Monitors.thy ===== *)
theory Monitors
  imports Semafors
begin

text \<open>
  \<^verbatim>\<open>monitors/main.c\<close> and \<^verbatim>\<open>monitors/monitor.c\<close>: the pierogi program with monitors. Each buffer
  has a mutex and the conditions \<open>not_full\<close> and \<open>not_empty\<close>. A thread's program counter names the
  statement it executes next. The accesses to a buffer all lie between \<open>pthread_mutex_lock\<close> and
  \<open>pthread_mutex_unlock\<close>, so the three assignments of an operation are one step.

  \<open>pthread_cond_wait\<close> releases the mutex and waits; a woken thread takes the mutex again and
  goes back to the test of its loop. \<open>pthread_cond_signal\<close> wakes one of the waiting threads,
  which one is an argument of the step. A waiting thread may also wake up without a signal.
\<close>

section \<open>The buffer (monitor.c)\<close>

record monitor =
  m_array :: "item option list"
  m_capacity :: int
  m_count :: int
  m_in :: int
  m_out :: int

definition monitor_init :: "bool \<Rightarrow> int \<Rightarrow> monitor" where
  "monitor_init mem n =
     \<lparr>m_array = (if mem then replicate (nat n) None else []), m_capacity = n, m_count = 0, m_in = 0, m_out = 0\<rparr>"

text \<open>What \<open>monitor_destroy\<close> gives back; no thread calls it.\<close>

datatype monitor_part = Cells | Lock | Not_empty | Not_full

definition monitor_destroy :: "monitor_part list" where
  "monitor_destroy = [Cells, Lock, Not_empty, Not_full]"

text \<open>The assignments of \<open>monitor_put\<close> and of \<open>monitor_get\<close>.\<close>

definition monitor_store :: "monitor \<Rightarrow> item \<Rightarrow> monitor option" where
  "monitor_store b item =
     (if 0 \<le> m_in b \<and> m_in b < int (length (m_array b)) \<and> m_capacity b \<noteq> 0
      then Some (b\<lparr>m_array := (m_array b)[nat (m_in b) := Some item],
                   m_in := crem (int32 (m_in b + 1)) (m_capacity b), m_count := int32 (m_count b + 1)\<rparr>)
      else None)"

definition monitor_fetch :: "monitor \<Rightarrow> (item \<times> monitor) option" where
  "monitor_fetch b =
     (if 0 \<le> m_out b \<and> m_out b < int (length (m_array b)) \<and> m_capacity b \<noteq> 0
      then (case m_array b ! nat (m_out b) of
              None \<Rightarrow> None
            | Some item \<Rightarrow> Some (item, b\<lparr>m_out := crem (int32 (m_out b + 1)) (m_capacity b),
                                        m_count := int32 (m_count b - 1)\<rparr>))
      else None)"

section \<open>Threads and state\<close>

datatype put_pc =
    PutMake
  | PutLock item
  | PutCheck item
  | PutWait item
  | PutAgain item
  | PutStore item
  | PutReport item
  | PutSignal
  | PutUnlock
  | PutSleep

datatype get_pc = GetLock | GetCheck | GetWait | GetAgain | GetTake | GetSignal item | GetUnlock item

datatype eat_pc =
    GetFilling get_pc
  | GetDough item get_pc
  | MakeOne item item

record mon_sys =
  mons :: "ingredient \<Rightarrow> monitor"
  mtx :: "ingredient \<Rightarrow> bool"
  m_ctrs :: counters
  puts_at :: "ingredient \<Rightarrow> put_pc"
  eats_at :: "filling \<Rightarrow> eat_pc"
  running :: bool
  m_lines :: "line list"

definition mon_start :: "int \<Rightarrow> mon_sys" where
  "mon_start N =
     \<lparr>mons = (\<lambda>_. monitor_init True N), mtx = (\<lambda>_. False), m_ctrs = (\<lambda>_. 0), puts_at = (\<lambda>_. PutMake),
      eats_at = (\<lambda>_. GetFilling GetLock), running = True, m_lines = []\<rparr>"

section \<open>Steps\<close>

text \<open>The consumers that wait for \<open>not_empty\<close> of a buffer, and waking one.\<close>

fun waits_in :: "filling \<Rightarrow> eat_pc \<Rightarrow> ingredient option" where
  "waits_in f (GetFilling GetWait) = Some (ingr_of f)"
| "waits_in f (GetDough _ GetWait) = Some Dough"
| "waits_in f _ = None"

fun woken :: "eat_pc \<Rightarrow> eat_pc" where
  "woken (GetFilling GetWait) = GetFilling GetAgain"
| "woken (GetDough x GetWait) = GetDough x GetAgain"
| "woken pc = pc"

definition waits_empty :: "ingredient \<Rightarrow> filling \<Rightarrow> mon_sys \<Rightarrow> bool" where
  "waits_empty k f s \<longleftrightarrow> waits_in f (eats_at s f) = Some k"

text \<open>\<open>pthread_cond_signal(not_empty)\<close> that wakes \<open>f\<close>; without a waiting thread it does nothing.\<close>

definition signal_not_empty :: "ingredient \<Rightarrow> filling \<Rightarrow> mon_sys \<Rightarrow> mon_sys option" where
  "signal_not_empty k f s =
     (if waits_empty k f s then Some (s\<lparr>eats_at := (eats_at s)(f := woken (eats_at s f))\<rparr>)
      else if waits_empty k FMeat s \<or> waits_empty k FCheese s \<or> waits_empty k FCabbage s then None
      else Some s)"

definition signal_not_full :: "ingredient \<Rightarrow> mon_sys \<Rightarrow> mon_sys" where
  "signal_not_full k s =
     (case puts_at s k of PutWait item \<Rightarrow> s\<lparr>puts_at := (puts_at s)(k := PutAgain item)\<rparr> | _ \<Rightarrow> s)"

text \<open>A producer: making an item, \<open>monitor_put\<close>, sleeping.\<close>

definition put_step :: "ingredient \<Rightarrow> filling \<Rightarrow> mon_sys \<Rightarrow> mon_sys outcome" where
  "put_step k choice s =
     (let at = (\<lambda>pc s. s\<lparr>puts_at := (puts_at s)(k := pc)\<rparr>)
      in case puts_at s k of
        PutMake \<Rightarrow>
          (case produce k (m_ctrs s) of
             (item, c, l) \<Rightarrow> Next (at (PutLock item) (s\<lparr>m_ctrs := c, m_lines := m_lines s @ [l]\<rparr>)))
      | PutLock item \<Rightarrow>
          if mtx s k then Blocked else Next (at (PutCheck item) (s\<lparr>mtx := (mtx s)(k := True)\<rparr>))
      | PutCheck item \<Rightarrow>
          if m_count (mons s k) = m_capacity (mons s k)
          then Next (at (PutWait item) (s\<lparr>mtx := (mtx s)(k := False)\<rparr>))
          else Next (at (PutStore item) s)
      | PutWait item \<Rightarrow> Blocked
      | PutAgain item \<Rightarrow>
          if mtx s k then Blocked else Next (at (PutCheck item) (s\<lparr>mtx := (mtx s)(k := True)\<rparr>))
      | PutStore item \<Rightarrow>
          (case monitor_store (mons s k) item of
             None \<Rightarrow> Undefined
           | Some b \<Rightarrow> Next (at (PutReport item) (s\<lparr>mons := (mons s)(k := b)\<rparr>)))
      | PutReport item \<Rightarrow>
          Next (at PutSignal (s\<lparr>m_lines := m_lines s @ [Item_in_buffor (item_type item) (item_id item)]\<rparr>))
      | PutSignal \<Rightarrow>
          (case signal_not_empty k choice s of None \<Rightarrow> Blocked | Some s \<Rightarrow> Next (at PutUnlock s))
      | PutUnlock \<Rightarrow> Next (at PutSleep (s\<lparr>mtx := (mtx s)(k := False)\<rparr>))
      | PutSleep \<Rightarrow> Next (at PutMake s))"

text \<open>\<open>monitor_get\<close> of ingredient \<open>k\<close>: \<open>Inr\<close> is its return.\<close>

definition get_step :: "ingredient \<Rightarrow> get_pc \<Rightarrow> mon_sys \<Rightarrow> ((get_pc + item) \<times> mon_sys) outcome" where
  "get_step k pc s =
     (case pc of
        GetLock \<Rightarrow> if mtx s k then Blocked else Next (Inl GetCheck, s\<lparr>mtx := (mtx s)(k := True)\<rparr>)
      | GetCheck \<Rightarrow>
          if m_count (mons s k) = 0 then Next (Inl GetWait, s\<lparr>mtx := (mtx s)(k := False)\<rparr>)
          else Next (Inl GetTake, s)
      | GetWait \<Rightarrow> Blocked
      | GetAgain \<Rightarrow> if mtx s k then Blocked else Next (Inl GetCheck, s\<lparr>mtx := (mtx s)(k := True)\<rparr>)
      | GetTake \<Rightarrow>
          (case monitor_fetch (mons s k) of
             None \<Rightarrow> Undefined
           | Some (item, b) \<Rightarrow> Next (Inl (GetSignal item), s\<lparr>mons := (mons s)(k := b)\<rparr>))
      | GetSignal item \<Rightarrow> Next (Inl (GetUnlock item), signal_not_full k s)
      | GetUnlock item \<Rightarrow> Next (Inr item, s\<lparr>mtx := (mtx s)(k := False)\<rparr>))"

definition eat_step :: "filling \<Rightarrow> mon_sys \<Rightarrow> mon_sys outcome" where
  "eat_step f s =
     (case eats_at s f of
        GetFilling pc \<Rightarrow>
          (case get_step (ingr_of f) pc s of
             Blocked \<Rightarrow> Blocked
           | Undefined \<Rightarrow> Undefined
           | Next (r, t) \<Rightarrow>
               Next (t\<lparr>eats_at := (eats_at t)(f := (case r of Inl pc' \<Rightarrow> GetFilling pc' | Inr item \<Rightarrow> GetDough item GetLock))\<rparr>))
      | GetDough filling pc \<Rightarrow>
          (case get_step Dough pc s of
             Blocked \<Rightarrow> Blocked
           | Undefined \<Rightarrow> Undefined
           | Next (r, t) \<Rightarrow>
               Next (t\<lparr>eats_at := (eats_at t)(f := (case r of Inl pc' \<Rightarrow> GetDough filling pc' | Inr item \<Rightarrow> MakeOne item filling))\<rparr>))
      | MakeOne dough filling \<Rightarrow>
          Next (s\<lparr>m_lines := m_lines s @ [make_pierogi dough filling], eats_at := (eats_at s)(f := GetFilling GetLock)\<rparr>))"

text \<open>The seven functions the threads run.\<close>

fun mon_thread :: "thread \<Rightarrow> filling \<Rightarrow> mon_sys \<Rightarrow> mon_sys outcome" where
  "mon_thread (Producer k) choice s = put_step k choice s"
| "mon_thread (Consumer f) choice s = eat_step f s"

text \<open>After \<open>exit\<close> in \<open>main\<close> there are no threads.\<close>

definition mon_step :: "thread \<Rightarrow> filling \<Rightarrow> mon_sys \<Rightarrow> mon_sys outcome" where
  "mon_step t choice s = (if running s then mon_thread t choice s else Blocked)"

definition mon_main :: "mon_sys \<Rightarrow> mon_sys option" where
  "mon_main s = (if running s then Some (s\<lparr>running := False\<rparr>) else None)"

text \<open>Waking up without a signal.\<close>

definition spurious :: "thread \<Rightarrow> mon_sys \<Rightarrow> mon_sys" where
  "spurious t s =
     (case t of Producer k \<Rightarrow> signal_not_full k s
      | Consumer f \<Rightarrow> s\<lparr>eats_at := (eats_at s)(f := woken (eats_at s f))\<rparr>)"

section \<open>Runs\<close>

fun fetched :: "ingredient \<Rightarrow> get_pc \<Rightarrow> mon_sys \<Rightarrow> event list" where
  "fetched k GetTake s = (case monitor_fetch (mons s k) of Some (item, _) \<Rightarrow> [Popped k item] | None \<Rightarrow> [])"
| "fetched k _ s = []"

fun mon_event :: "thread \<Rightarrow> mon_sys \<Rightarrow> event list" where
  "mon_event (Producer k) s = (case puts_at s k of PutStore item \<Rightarrow> [Pushed k item] | _ \<Rightarrow> [])"
| "mon_event (Consumer f) s =
     (case eats_at s f of GetFilling pc \<Rightarrow> fetched (ingr_of f) pc s | GetDough _ pc \<Rightarrow> fetched Dough pc s
      | MakeOne _ _ \<Rightarrow> [])"

inductive mon_run :: "int \<Rightarrow> event list \<Rightarrow> mon_sys \<Rightarrow> bool" for N where
  mon_begin: "mon_run N [] (mon_start N)"
| mon_thread: "mon_run N es s \<Longrightarrow> mon_step t c s = Next s' \<Longrightarrow> mon_run N (es @ mon_event t s) s'"
| mon_spurious: "mon_run N es s \<Longrightarrow> running s \<Longrightarrow> mon_run N es (spurious t s)"
| mon_exit: "mon_run N es s \<Longrightarrow> mon_main s = Some s' \<Longrightarrow> mon_run N es s'"

inductive_cases mon_runE: "mon_run N es s"

section \<open>The buffer represents a list\<close>

definition mon_rep :: "monitor \<Rightarrow> item list \<Rightarrow> bool" where
  "mon_rep b xs \<longleftrightarrow> ring_geometry (m_array b) (m_capacity b) (m_in b) (m_out b) xs \<and> m_count b = int (length xs)"

lemma mon_rep_init: "0 < n \<Longrightarrow> n < 2 ^ 31 \<Longrightarrow> mon_rep (monitor_init True n) []"
  by (simp add: mon_rep_def monitor_init_def ring_geometry_init)

lemma monitor_store_rep:
  assumes "mon_rep b xs" and "int (length xs) < m_capacity b"
  shows "\<exists>b'. monitor_store b x = Some b' \<and> mon_rep b' (xs @ [x]) \<and> m_capacity b' = m_capacity b"
proof -
  have g: "ring_geometry (m_array b) (m_capacity b) (m_in b) (m_out b) xs" and c: "m_count b = int (length xs)"
    using assms(1) by (simp_all add: mon_rep_def)
  then have r: "0 \<le> m_in b" "m_in b < m_capacity b" "m_capacity b < 2 ^ 31" "length (m_array b) = nat (m_capacity b)"
    by (auto simp: ring_geometry_def)
  have "int32 (m_count b + 1) = int (length (xs @ [x]))" using c assms(2) r(3) by (simp add: int32_id in_int32_def)
  with ring_geometry_push [OF g assms(2), of x] r show ?thesis
    by (auto simp: monitor_store_def mon_rep_def ring_next)
qed

lemma monitor_fetch_rep:
  assumes "mon_rep b (x # xs)"
  shows "\<exists>b'. monitor_fetch b = Some (x, b') \<and> mon_rep b' xs \<and> m_capacity b' = m_capacity b"
proof -
  have g: "ring_geometry (m_array b) (m_capacity b) (m_in b) (m_out b) (x # xs)" and c: "m_count b = int (length (x # xs))"
    using assms(1) by (simp_all add: mon_rep_def)
  then have r: "0 \<le> m_out b" "m_out b < m_capacity b" "m_capacity b < 2 ^ 31" "length (m_array b) = nat (m_capacity b)"
    "int (length (x # xs)) \<le> m_capacity b"
    by (auto simp: ring_geometry_def)
  have "int32 (m_count b - 1) = int (length xs)" using c r by (simp add: int32_id in_int32_def)
  with ring_geometry_pop [OF g] r show ?thesis by (auto simp: monitor_fetch_def mon_rep_def ring_next)
qed

text \<open>So the buffer of a monitor keeps the same contract as that of the semaphore program.\<close>

interpretation mon_fifo: bounded_fifo mon_rep "\<lambda>b. nat (m_capacity b)" monitor_store monitor_fetch
proof
  fix b :: monitor and x :: item and xs
  show "mon_rep b xs \<Longrightarrow> length xs \<le> nat (m_capacity b)" by (auto simp: mon_rep_def ring_geometry_def)
  show "mon_rep b xs \<Longrightarrow> length xs < nat (m_capacity b) \<Longrightarrow>
      \<exists>b'. monitor_store b x = Some b' \<and> mon_rep b' (xs @ [x]) \<and> nat (m_capacity b') = nat (m_capacity b)"
    using monitor_store_rep [of b xs x] by (auto simp: zless_nat_eq_int_zless)
  show "mon_rep b (x # xs) \<Longrightarrow> \<exists>b'. monitor_fetch b = Some (x, b') \<and> mon_rep b' xs \<and> nat (m_capacity b') = nat (m_capacity b)"
    using monitor_fetch_rep [of b x xs] by auto
qed

end
