(* ===== verification/Monitors_Inv.thy ===== *)
theory Monitors_Inv
  imports Monitors
begin

text \<open>
  The invariant of the monitor program, one statement per ingredient. Beside the contents of the
  buffer and the owner of the mutex it says that no wake-up is lost: while a producer waits, the
  buffer is full or a consumer is about to signal; while a consumer waits, there are at most as
  many items as consumers on their way to take one, and one more if the producer is about to
  signal.
\<close>

section \<open>Counting consumers\<close>

fun getting :: "eat_pc \<Rightarrow> filling \<Rightarrow> ingredient \<Rightarrow> get_pc option" where
  "getting (GetFilling pc) f k = (if k = ingr_of f then Some pc else None)"
| "getting (GetDough _ pc) f k = (if k = Dough then Some pc else None)"
| "getting (MakeOne _ _) f k = None"

definition one :: "(get_pc \<Rightarrow> bool) \<Rightarrow> eat_pc \<Rightarrow> ingredient \<Rightarrow> filling \<Rightarrow> int" where
  "one P c k f = (case getting c f k of Some pc \<Rightarrow> of_bool (P pc) | None \<Rightarrow> 0)"

definition many :: "(get_pc \<Rightarrow> bool) \<Rightarrow> (filling \<Rightarrow> eat_pc) \<Rightarrow> ingredient \<Rightarrow> int" where
  "many P cs k = one P (cs FMeat) k FMeat + one P (cs FCheese) k FCheese + one P (cs FCabbage) k FCabbage"

fun get_cs :: "get_pc \<Rightarrow> bool" where
  "get_cs GetCheck = True" | "get_cs GetTake = True" | "get_cs (GetSignal _) = True"
| "get_cs (GetUnlock _) = True" | "get_cs _ = False"

fun get_busy :: "get_pc \<Rightarrow> bool" where
  "get_busy GetAgain = True" | "get_busy GetCheck = True" | "get_busy GetTake = True" | "get_busy _ = False"

fun get_signals :: "get_pc \<Rightarrow> bool" where
  "get_signals (GetSignal _) = True" | "get_signals _ = False"

fun put_cs :: "put_pc \<Rightarrow> bool" where
  "put_cs (PutCheck _) = True" | "put_cs (PutStore _) = True" | "put_cs (PutReport _) = True"
| "put_cs PutSignal = True" | "put_cs PutUnlock = True" | "put_cs _ = False"

fun put_signals :: "put_pc \<Rightarrow> bool" where
  "put_signals (PutReport _) = True" | "put_signals PutSignal = True" | "put_signals _ = False"

fun put_stores :: "put_pc \<Rightarrow> bool" where
  "put_stores (PutStore _) = True" | "put_stores _ = False"

fun put_waits :: "put_pc \<Rightarrow> bool" where
  "put_waits (PutWait _) = True" | "put_waits _ = False"

fun carried :: "put_pc \<Rightarrow> item list" where
  "carried (PutLock x) = [x]" | "carried (PutCheck x) = [x]" | "carried (PutWait x) = [x]"
| "carried (PutAgain x) = [x]" | "carried (PutStore x) = [x]" | "carried _ = []"

lemma one_bounds: "0 \<le> one P c k f" "one P c k f \<le> 1"
  by (simp_all add: one_def split: option.split)

lemma many_nonneg: "0 \<le> many P cs k"
  using one_bounds(1) by (simp add: many_def)

lemma many_upd: "many P (cs(f := c)) k = many P cs k - one P (cs f) k f + one P c k f"
  by (cases f) (simp_all add: many_def)

lemma many_ge_one: "one P (cs f) k f \<le> many P cs k"
  using one_bounds(1) [of P] by (cases f) (simp_all add: many_def add_nonneg_nonneg)

lemma one_mono: "(\<And>pc. P pc \<Longrightarrow> Q pc) \<Longrightarrow> one P c k f \<le> one Q c k f"
  by (auto simp: one_def split: option.split)

lemma many_mono: "(\<And>pc. P pc \<Longrightarrow> Q pc) \<Longrightarrow> many P cs k \<le> many Q cs k"
  unfolding many_def by (intro add_mono one_mono) auto

lemma many_pos: "0 < many P cs k \<longleftrightarrow> (\<exists>f. one P (cs f) k f = 1)"
proof
  assume "0 < many P cs k"
  then have "\<exists>f. one P (cs f) k f \<noteq> 0" unfolding many_def by (metis add.right_neutral less_irrefl)
  then show "\<exists>f. one P (cs f) k f = 1" by (auto simp: one_def split: option.splits)
next
  assume "\<exists>f. one P (cs f) k f = 1"
  then obtain f where "one P (cs f) k f = 1" ..
  with many_ge_one [of P cs f k] show "0 < many P cs k" by simp
qed

section \<open>One channel\<close>

text \<open>\<open>cc\<close>, \<open>cb\<close>, \<open>cw\<close>, \<open>ct\<close> and \<open>cg\<close> count the consumers that hold the mutex, are on their way
  to take, wait, are about to take, are about to signal.\<close>

definition channel :: "int \<Rightarrow> ingredient \<Rightarrow> monitor \<Rightarrow> bool \<Rightarrow> put_pc \<Rightarrow> int \<Rightarrow> int \<Rightarrow> int \<Rightarrow> int \<Rightarrow> int \<Rightarrow> int
    \<Rightarrow> item list \<Rightarrow> item list \<Rightarrow> bool" where
  "channel N k b lk pc ctr cc cb cw ct cg psh pp \<longleftrightarrow>
     (\<exists>xs m. mon_rep b xs \<and> m_capacity b = N \<and> psh = pp @ xs
        \<and> psh @ carried pc = map (nth_item k) [0..<m] \<and> ctr = int32 (int m)
        \<and> of_bool (put_cs pc) + cc = of_bool lk
        \<and> (put_stores pc \<longrightarrow> int (length xs) < N)
        \<and> (0 < ct \<longrightarrow> xs \<noteq> [])
        \<and> (put_waits pc \<longrightarrow> int (length xs) = N \<or> 0 < cg)
        \<and> (0 < cw \<longrightarrow> int (length xs) \<le> cb + of_bool (put_signals pc)))"

definition chan_of :: "int \<Rightarrow> event list \<Rightarrow> mon_sys \<Rightarrow> ingredient \<Rightarrow> bool" where
  "chan_of N es s k = channel N k (mons s k) (mtx s k) (puts_at s k) (m_ctrs s k)
     (many get_cs (eats_at s) k) (many get_busy (eats_at s) k) (many (\<lambda>pc. pc = GetWait) (eats_at s) k)
     (many (\<lambda>pc. pc = GetTake) (eats_at s) k) (many get_signals (eats_at s) k) (pushed k es) (popped k es)"

definition mon_inv :: "int \<Rightarrow> event list \<Rightarrow> mon_sys \<Rightarrow> bool" where
  "mon_inv N es s \<longleftrightarrow> (\<forall>k. chan_of N es s k)"

lemma channelE:
  assumes "channel N k b lk pc ctr cc cb cw ct cg psh pp"
  obtains xs m where "mon_rep b xs" "m_capacity b = N" "psh = pp @ xs"
    "psh @ carried pc = map (nth_item k) [0..<m]" "ctr = int32 (int m)" "of_bool (put_cs pc) + cc = of_bool lk"
    "put_stores pc \<longrightarrow> int (length xs) < N" "0 < ct \<longrightarrow> xs \<noteq> []" "put_waits pc \<longrightarrow> int (length xs) = N \<or> 0 < cg"
    "0 < cw \<longrightarrow> int (length xs) \<le> cb + of_bool (put_signals pc)"
  using assms unfolding channel_def by blast

lemma channelI:
  "mon_rep b xs \<Longrightarrow> m_capacity b = N \<Longrightarrow> psh = pp @ xs \<Longrightarrow> psh @ carried pc = map (nth_item k) [0..<m] \<Longrightarrow> ctr = int32 (int m)
   \<Longrightarrow> of_bool (put_cs pc) + cc = of_bool lk \<Longrightarrow> (put_stores pc \<Longrightarrow> int (length xs) < N) \<Longrightarrow> (0 < ct \<Longrightarrow> xs \<noteq> [])
   \<Longrightarrow> (put_waits pc \<Longrightarrow> int (length xs) = N \<or> 0 < cg) \<Longrightarrow> (0 < cw \<Longrightarrow> int (length xs) \<le> cb + of_bool (put_signals pc))
   \<Longrightarrow> channel N k b lk pc ctr cc cb cw ct cg psh pp"
  unfolding channel_def by blast

lemma mon_inv_start: "0 < N \<Longrightarrow> N < 2 ^ 31 \<Longrightarrow> mon_inv N [] (mon_start N)"
  using mon_rep_init [of N]
  by (auto simp: mon_inv_def chan_of_def mon_start_def many_def one_def monitor_init_def int32_def
      intro!: channelI [where xs = "[]" and m = 0])

lemma rep_count: "mon_rep b xs \<Longrightarrow> m_count b = int (length xs) \<and> int (length xs) \<le> m_capacity b"
  by (auto simp: mon_rep_def ring_geometry_def)

text \<open>What the producer does to its channel.\<close>

lemma channel_make:
  assumes "channel N k b lk PutMake ctr cc cb cw ct cg psh pp"
  shows "channel N k b lk (PutLock \<lparr>item_id = ctr, item_type = type_char k\<rparr>) (int32 (ctr + 1)) cc cb cw ct cg psh pp"
proof -
  from assms obtain xs m where *: "mon_rep b xs" "m_capacity b = N" "psh = pp @ xs" "psh = map (nth_item k) [0..<m]" "ctr = int32 (int m)"
    "cc = of_bool lk" "0 < ct \<longrightarrow> xs \<noteq> []" "0 < cw \<longrightarrow> int (length xs) \<le> cb" by (elim channelE) simp
  have "psh @ [\<lparr>item_id = ctr, item_type = type_char k\<rparr>] = map (nth_item k) [0..<Suc m]" using * by (simp add: nth_item_def)
  moreover have "int32 (ctr + 1) = int32 (int (Suc m))" using * by (simp add: add.commute)
  ultimately show ?thesis using * by (intro channelI [where xs = xs and m = "Suc m"]) simp_all
qed

lemma channel_store:
  assumes "channel N k b lk (PutStore x) ctr cc cb cw ct cg psh pp"
  obtains b' where "monitor_store b x = Some b'" "channel N k b' lk (PutReport x) ctr cc cb cw ct cg (psh @ [x]) pp"
proof -
  from assms obtain xs m where *: "mon_rep b xs" "m_capacity b = N" "psh = pp @ xs" "psh @ [x] = map (nth_item k) [0..<m]"
    "ctr = int32 (int m)" "1 + cc = of_bool lk" "int (length xs) < N" "0 < cw \<longrightarrow> int (length xs) \<le> cb" by (elim channelE) simp
  from monitor_store_rep [OF *(1), of x] *(2,7) obtain b' where
    b': "monitor_store b x = Some b'" "mon_rep b' (xs @ [x])" "m_capacity b' = N" by auto
  have "channel N k b' lk (PutReport x) ctr cc cb cw ct cg (psh @ [x]) pp"
    using * b' by (intro channelI [where xs = "xs @ [x]" and m = m]) simp_all
  with b'(1) show ?thesis by (rule that)
qed

lemma channel_fetch:
  assumes "channel N k b lk pc ctr cc cb cw ct cg psh pp" and "0 < ct" and "ct \<le> cc" and "0 \<le> cg"
  obtains x b' where "monitor_fetch b = Some (x, b')"
    "channel N k b' lk pc ctr cc (cb - 1) cw (ct - 1) (cg + 1) psh (pp @ [x])"
proof -
  from assms(1) obtain xs m where *: "mon_rep b xs" "m_capacity b = N" "psh = pp @ xs"
    "psh @ carried pc = map (nth_item k) [0..<m]" "ctr = int32 (int m)" "of_bool (put_cs pc) + cc = of_bool lk"
    "put_stores pc \<longrightarrow> int (length xs) < N" "0 < ct \<longrightarrow> xs \<noteq> []"
    "0 < cw \<longrightarrow> int (length xs) \<le> cb + of_bool (put_signals pc)" by (rule channelE)
  from *(8) assms(2) obtain x ys where xs: "xs = x # ys" by (cases xs) auto
  with monitor_fetch_rep [of b x ys] *(1,2) obtain b' where
    b': "monitor_fetch b = Some (x, b')" "mon_rep b' ys" "m_capacity b' = N" by auto
  have "cc \<le> 1" using *(6) by (cases "put_cs pc"; cases lk) simp_all
  then have "\<not> 0 < ct - 1" using assms(3) by simp
  then have "channel N k b' lk pc ctr cc (cb - 1) cw (ct - 1) (cg + 1) psh (pp @ [x])"
    using * b' xs assms(4) by (intro channelI [where xs = ys and m = m]) auto
  with b'(1) show ?thesis by (rule that)
qed

text \<open>Steps that only move program counters.\<close>

lemma channel_move:
  assumes "channel N k b lk pc ctr cc cb cw ct cg psh pp" and "carried pc' = carried pc"
    and "of_bool (put_cs pc') + cc' - of_bool lk' = of_bool (put_cs pc) + cc - of_bool lk"
    and "put_stores pc' \<Longrightarrow> put_stores pc \<or> m_count b \<noteq> m_capacity b"
    and "0 < ct' \<Longrightarrow> 0 < ct \<or> m_count b \<noteq> 0"
    and "put_waits pc' \<Longrightarrow> put_waits pc \<and> cg \<le> cg' \<or> m_count b = m_capacity b"
    and "0 < cw' \<Longrightarrow> 0 < cw \<and> cb + of_bool (put_signals pc) \<le> cb' + of_bool (put_signals pc') \<or> m_count b = 0 \<and> 0 \<le> cb'"
  shows "channel N k b lk' pc' ctr cc' cb' cw' ct' cg' psh pp"
proof -
  from assms(1) obtain xs m where *: "mon_rep b xs" "m_capacity b = N" "psh = pp @ xs"
    "psh @ carried pc = map (nth_item k) [0..<m]" "ctr = int32 (int m)" "of_bool (put_cs pc) + cc = of_bool lk"
    "put_stores pc \<longrightarrow> int (length xs) < N" "0 < ct \<longrightarrow> xs \<noteq> []" "put_waits pc \<longrightarrow> int (length xs) = N \<or> 0 < cg"
    "0 < cw \<longrightarrow> int (length xs) \<le> cb + of_bool (put_signals pc)" by (rule channelE)
  have c: "m_count b = int (length xs)" "int (length xs) \<le> N" using rep_count [OF *(1)] *(2) by simp_all
  show ?thesis
  proof (rule channelI [OF *(1,2,3) _ *(5)])
    show "psh @ carried pc' = map (nth_item k) [0..<m]" using *(4) assms(2) by simp
    show "of_bool (put_cs pc') + cc' = of_bool lk'" using *(6) assms(3) by simp
    show "int (length xs) < N" if "put_stores pc'" using assms(4) [OF that] *(2,7) c by auto
    show "xs \<noteq> []" if "0 < ct'" using assms(5) [OF that] *(8) c by auto
    show "int (length xs) = N \<or> 0 < cg'" if "put_waits pc'" using assms(6) [OF that] *(2,9) c by auto
    show "int (length xs) \<le> cb' + of_bool (put_signals pc')" if "0 < cw'" using assms(7) [OF that] *(10) c by auto
  qed
qed

end
