(* ===== verification/Monitors_Steps.thy ===== *)
theory Monitors_Steps
  imports Monitors_Inv
begin

text \<open>
  Every step of the monitor program keeps the invariant, and none is undefined.
\<close>

section \<open>Waking up\<close>

lemma one_woken:
  assumes "waits_in f c = Some k"
  shows "one P (woken c) j f = (if j = k then of_bool (P GetAgain) else 0)"
    and "one P c j f = (if j = k then of_bool (P GetWait) else 0)"
  using assms by (cases "(f, c)" rule: waits_in.cases; auto simp: one_def)+

lemma woken_same: "waits_in f c = None \<Longrightarrow> woken c = c"
  by (cases "(f, c)" rule: waits_in.cases) auto

lemma many_woken:
  "waits_in f (cs f) = Some k \<Longrightarrow>
   many P (cs(f := woken (cs f))) j = many P cs j + (if j = k then of_bool (P GetAgain) - of_bool (P GetWait) else 0)"
  by (simp add: many_upd one_woken)

lemma waits_many: "waits_in f (cs f) = Some k \<Longrightarrow> 0 < many (\<lambda>pc. pc = GetWait) cs k"
  unfolding many_pos by (rule exI [of _ f]) (simp add: one_woken)

lemma many_waits: "0 < many (\<lambda>pc. pc = GetWait) cs k \<Longrightarrow> \<exists>f. waits_in f (cs f) = Some k"
proof -
  assume "0 < many (\<lambda>pc. pc = GetWait) cs k"
  then obtain f where "one (\<lambda>pc. pc = GetWait) (cs f) k f = 1" using many_pos by blast
  then have "waits_in f (cs f) = Some k"
    by (cases "(f, cs f)" rule: waits_in.cases) (auto simp: one_def split: if_splits)
  then show ?thesis ..
qed

text \<open>The channel of a buffer on which one consumer is woken.\<close>

lemma channel_woken:
  assumes c: "chan_of N es s j" and w: "waits_in f (eats_at s f) = Some k"
  shows "chan_of N es (s\<lparr>eats_at := (eats_at s)(f := woken (eats_at s f))\<rparr>) j"
proof (cases "j = k")
  case False
  with c show ?thesis by (simp add: chan_of_def many_woken [of _ "eats_at s", OF w])
next
  case True
  have "channel N k (mons s k) (mtx s k) (puts_at s k) (m_ctrs s k) (many get_cs (eats_at s) k) (many get_busy (eats_at s) k + 1)
      (many (\<lambda>pc. pc = GetWait) (eats_at s) k - 1) (many (\<lambda>pc. pc = GetTake) (eats_at s) k) (many get_signals (eats_at s) k)
      (pushed k es) (popped k es)"
    by (rule channel_move [OF c [unfolded chan_of_def True]]) simp_all
  with True show ?thesis by (simp add: chan_of_def many_woken [of _ "eats_at s", OF w])
qed

section \<open>Producers\<close>

lemma signal_not_empty_cases:
  "signal_not_empty k f s = Some t \<Longrightarrow>
   waits_in f (eats_at s f) = Some k \<and> t = s\<lparr>eats_at := (eats_at s)(f := woken (eats_at s f))\<rparr>
   \<or> (\<forall>g. waits_in g (eats_at s g) \<noteq> Some k) \<and> t = s"
proof -
  have "(\<forall>g. waits_in g (eats_at s g) \<noteq> Some k) \<longleftrightarrow> \<not> (waits_empty k FMeat s \<or> waits_empty k FCheese s \<or> waits_empty k FCabbage s)"
    unfolding waits_empty_def by (metis filling.exhaust)
  then show "signal_not_empty k f s = Some t \<Longrightarrow> ?thesis"
    by (auto simp: signal_not_empty_def waits_empty_def split: if_splits)
qed

lemma put_defined:
  assumes "chan_of N es s k"
  shows "put_step k c s \<noteq> Undefined"
proof (cases "puts_at s k")
  case (PutStore x)
  with assms obtain b' where "monitor_store (mons s k) x = Some b'"
    unfolding chan_of_def by (metis channel_store)
  with PutStore show ?thesis by (simp add: put_step_def)
qed (simp_all add: put_step_def produce_eq split: option.split)

lemma mon_chan_frame:
  assumes "chan_of N es s k" and "mons t k = mons s k" "mtx t k = mtx s k" "puts_at t k = puts_at s k" "m_ctrs t k = m_ctrs s k"
    and "eats_at t = eats_at s" "pushed k fs = pushed k es" "popped k fs = popped k es"
  shows "chan_of N fs t k"
  using assms by (simp add: chan_of_def)

lemma put_signal_preserves:
  assumes inv: "mon_inv N es s" and p: "puts_at s j = PutSignal" and u: "signal_not_empty j c s = Some u"
  shows "mon_inv N es (u\<lparr>puts_at := (puts_at u)(j := PutUnlock)\<rparr>)"
  unfolding mon_inv_def
proof
  fix k
  have c: "chan_of N es s k" using inv by (simp add: mon_inv_def)
  from signal_not_empty_cases [OF u] show "chan_of N es (u\<lparr>puts_at := (puts_at u)(j := PutUnlock)\<rparr>) k"
  proof (elim disjE conjE)
    assume w: "waits_in c (eats_at s c) = Some j" and u: "u = s\<lparr>eats_at := (eats_at s)(c := woken (eats_at s c))\<rparr>"
    show ?thesis
    proof (cases "j = k")
      case False
      then show ?thesis by (intro mon_chan_frame [OF channel_woken [OF c w]]) (simp_all add: u)
    next
      case True
      have "channel N j (mons s j) (mtx s j) PutUnlock (m_ctrs s j) (many get_cs (eats_at s) j) (many get_busy (eats_at s) j + 1)
          (many (\<lambda>pc. pc = GetWait) (eats_at s) j - 1) (many (\<lambda>pc. pc = GetTake) (eats_at s) j) (many get_signals (eats_at s) j)
          (pushed j es) (popped j es)"
        by (rule channel_move [OF c [unfolded chan_of_def True [symmetric] p]]) simp_all
      with True show ?thesis by (simp add: u chan_of_def many_woken [of _ "eats_at s", OF w])
    qed
  next
    assume w: "\<forall>g. waits_in g (eats_at s g) \<noteq> Some j" and u: "u = s"
    show ?thesis
    proof (cases "j = k")
      case False
      with c show ?thesis by (intro mon_chan_frame [OF c]) (simp_all add: u)
    next
      case True
      have "\<not> 0 < many (\<lambda>pc. pc = GetWait) (eats_at s) j" using many_waits w by blast
      then have "channel N j (mons s j) (mtx s j) PutUnlock (m_ctrs s j) (many get_cs (eats_at s) j) (many get_busy (eats_at s) j)
          (many (\<lambda>pc. pc = GetWait) (eats_at s) j) (many (\<lambda>pc. pc = GetTake) (eats_at s) j) (many get_signals (eats_at s) j)
          (pushed j es) (popped j es)"
        by (intro channel_move [OF c [unfolded chan_of_def True [symmetric] p]]) simp_all
      with True show ?thesis by (simp add: u chan_of_def)
    qed
  qed
qed

lemma lock_held:
  assumes "chan_of N es s k"
  shows "put_cs (puts_at s k) \<Longrightarrow> mtx s k" and "0 < many get_cs (eats_at s) k \<Longrightarrow> mtx s k"
proof -
  have "of_bool (put_cs (puts_at s k)) + many get_cs (eats_at s) k = (of_bool (mtx s k) :: int)"
    using assms unfolding chan_of_def by (elim channelE)
  with many_nonneg [of get_cs "eats_at s" k]
  show "put_cs (puts_at s k) \<Longrightarrow> mtx s k" and "0 < many get_cs (eats_at s) k \<Longrightarrow> mtx s k"
    by (cases "mtx s k"; cases "put_cs (puts_at s k)"; simp)+
qed

lemma put_preserves:
  assumes inv: "mon_inv N es s" and st: "put_step j c s = Next t"
  shows "mon_inv N (es @ mon_event (Producer j) s) t"
proof (cases "puts_at s j = PutSignal")
  case True
  with st obtain u where "signal_not_empty j c s = Some u" "t = u\<lparr>puts_at := (puts_at u)(j := PutUnlock)\<rparr>"
    by (auto simp: put_step_def split: option.splits)
  with put_signal_preserves [OF inv True] True show ?thesis by simp
next
  case ns: False
  show ?thesis
    unfolding mon_inv_def
  proof
    fix k
    have c: "chan_of N es s k" using inv by (simp add: mon_inv_def)
    note ci = c [unfolded chan_of_def] and held = lock_held(1) [OF c]
    show "chan_of N (es @ mon_event (Producer j) s) t k"
    proof (cases "j = k")
      case False
      with st ns show ?thesis
        by (auto intro!: mon_chan_frame [OF c] simp: put_step_def produce_eq split: put_pc.splits option.splits if_splits)
    next
      case True
      show ?thesis
      proof (cases "puts_at s k")
        case PutMake
        with ci True st show ?thesis by (auto simp: put_step_def produce_eq chan_of_def intro: channel_make)
      next
        case (PutStore x)
        from ci PutStore obtain b' where b': "monitor_store (mons s k) x = Some b'"
          "channel N k b' (mtx s k) (PutReport x) (m_ctrs s k) (many get_cs (eats_at s) k) (many get_busy (eats_at s) k)
             (many (\<lambda>pc. pc = GetWait) (eats_at s) k) (many (\<lambda>pc. pc = GetTake) (eats_at s) k) (many get_signals (eats_at s) k)
             (pushed k es @ [x]) (popped k es)"
          by (auto intro: channel_store)
        with PutStore True st show ?thesis by (auto simp: put_step_def chan_of_def)
      qed (use True st ns held in \<open>auto simp: put_step_def chan_of_def split: if_splits intro!: channel_move [OF ci]\<close>)
    qed
  qed
qed

section \<open>Consumers\<close>

lemma one_now: "getting c f k = Some pc \<Longrightarrow> one P c j f = (if j = k then of_bool (P pc) else 0)"
  by (cases c) (auto simp: one_def split: if_splits)

text \<open>The consumer that is at \<open>pc\<close> in buffer \<open>k\<close> goes on with result \<open>r\<close>.\<close>

definition moved :: "eat_pc \<Rightarrow> ingredient \<Rightarrow> filling \<Rightarrow> get_pc + item \<Rightarrow> bool" where
  "moved c k f r \<longleftrightarrow> (\<forall>P j. \<not> P GetLock \<longrightarrow>
     one P c j f = (if j = k then (case r of Inl pc \<Rightarrow> of_bool (P pc) | Inr _ \<Rightarrow> 0) else 0))"

lemma eat_step_cases:
  assumes "eat_step f s = Next t"
  obtains (Get) k pc r u c where "getting (eats_at s f) f k = Some pc" "get_step k pc s = Next (r, u)" "moved c k f r"
      "t = u\<lparr>eats_at := (eats_at u)(f := c)\<rparr>" "mon_event (Consumer f) s = fetched k pc s"
  | (Make) d x where "eats_at s f = MakeOne d x" "mon_event (Consumer f) s = []"
      "t = s\<lparr>m_lines := m_lines s @ [make_pierogi d x], eats_at := (eats_at s)(f := GetFilling GetLock)\<rparr>"
proof (cases "eats_at s f")
  case (GetFilling pc)
  from assms GetFilling obtain r u where "get_step (ingr_of f) pc s = Next (r, u)"
    "t = u\<lparr>eats_at := (eats_at u)(f := (case r of Inl pc' \<Rightarrow> GetFilling pc' | Inr item \<Rightarrow> GetDough item GetLock))\<rparr>"
    by (auto simp: eat_step_def split: outcome.splits)
  moreover have "moved (case r of Inl pc' \<Rightarrow> GetFilling pc' | Inr item \<Rightarrow> GetDough item GetLock) (ingr_of f) f r"
    by (auto simp: moved_def one_def split: sum.split)
  ultimately show ?thesis using GetFilling by (intro Get) auto
next
  case (GetDough x pc)
  from assms GetDough obtain r u where "get_step Dough pc s = Next (r, u)"
    "t = u\<lparr>eats_at := (eats_at u)(f := (case r of Inl pc' \<Rightarrow> GetDough x pc' | Inr item \<Rightarrow> MakeOne item x))\<rparr>"
    by (auto simp: eat_step_def split: outcome.splits)
  moreover have "moved (case r of Inl pc' \<Rightarrow> GetDough x pc' | Inr item \<Rightarrow> MakeOne item x) Dough f r"
    by (auto simp: moved_def one_def split: sum.split)
  ultimately show ?thesis using GetDough by (intro Get) auto
next
  case (MakeOne d x)
  with assms show ?thesis by (intro Make) (auto simp: eat_step_def)
qed

lemma many_moved:
  assumes "getting (cs f) f k = Some pc" and "moved c k f r" and "\<not> P GetLock"
  shows "many P (cs(f := c)) j = many P cs j
    + (if j = k then (case r of Inl pc' \<Rightarrow> of_bool (P pc') | Inr _ \<Rightarrow> 0) - of_bool (P pc) else 0)"
  using assms by (simp add: many_upd one_now moved_def)

lemma at_take:
  assumes "getting (cs f) f k = Some GetTake"
  shows "0 < many (\<lambda>pc. pc = GetTake) cs k" and "many (\<lambda>pc. pc = GetTake) cs k \<le> many get_cs cs k"
proof -
  show "0 < many (\<lambda>pc. pc = GetTake) cs k" unfolding many_pos by (rule exI [of _ f]) (simp add: one_now [OF assms])
  show "many (\<lambda>pc. pc = GetTake) cs k \<le> many get_cs cs k" by (rule many_mono) auto
qed

lemma get_defined:
  assumes "chan_of N es s k" and "getting (eats_at s f) f k = Some pc"
  shows "get_step k pc s \<noteq> Undefined"
proof (cases pc)
  case GetTake
  obtain x b' where "monitor_fetch (mons s k) = Some (x, b')"
    using channel_fetch [OF assms(1) [unfolded chan_of_def] at_take [where cs = "eats_at s", OF assms(2) [unfolded GetTake]] many_nonneg] by blast
  with GetTake show ?thesis by (simp add: get_step_def)
qed (simp_all add: get_step_def)

lemma get_channel:
  assumes c: "chan_of N es s k" and g: "getting (eats_at s f) f k = Some pc" and st: "get_step k pc s = Next (r, u)"
    and m: "moved c' k f r"
  shows "chan_of N (es @ fetched k pc s) (u\<lparr>eats_at := (eats_at u)(f := c')\<rparr>) k"
proof -
  note ci = c [unfolded chan_of_def]
  have now: "P pc \<Longrightarrow> 1 \<le> many P (eats_at s) k" for P
    using many_ge_one [of P "eats_at s" f k] by (simp add: one_now [OF g])
  have held: "get_cs pc \<Longrightarrow> mtx s k" using now [of get_cs] lock_held(2) [OF c] by simp
  note mm = many_moved [where cs = "eats_at s", OF g m]
  show ?thesis
  proof (cases pc)
    case GetTake
    obtain x b' where b': "monitor_fetch (mons s k) = Some (x, b')"
      "channel N k b' (mtx s k) (puts_at s k) (m_ctrs s k) (many get_cs (eats_at s) k) (many get_busy (eats_at s) k - 1)
         (many (\<lambda>pc. pc = GetWait) (eats_at s) k) (many (\<lambda>pc. pc = GetTake) (eats_at s) k - 1)
         (many get_signals (eats_at s) k + 1) (pushed k es) (popped k es @ [x])"
      using channel_fetch [OF ci at_take [where cs = "eats_at s", OF g [unfolded GetTake]] many_nonneg] by blast
    with GetTake st show ?thesis by (auto simp: get_step_def chan_of_def mm)
  next
    case GetCheck
    then have b: "1 \<le> many get_busy (eats_at s) k" using now [of get_busy] by simp
    have h: "mtx s k" using held GetCheck by simp
    show ?thesis
    proof (cases "m_count (mons s k) = 0")
      case True
      with st GetCheck have "r = Inl GetWait" "u = s\<lparr>mtx := (mtx s)(k := False)\<rparr>" by (simp_all add: get_step_def)
      with True GetCheck h b show ?thesis by (auto simp: chan_of_def mm intro!: channel_move [OF ci])
    next
      case False
      with st GetCheck have "r = Inl GetTake" "u = s" by (simp_all add: get_step_def)
      with False GetCheck show ?thesis by (simp add: chan_of_def mm) (rule channel_move [OF ci]; simp)
    qed
  next
    case (GetSignal x)
    then have r: "r = Inl (GetUnlock x)" "u = signal_not_full k s" using st by (auto simp: get_step_def)
    show ?thesis
    proof (cases "puts_at s k")
      case (PutWait y)
      with GetSignal r show ?thesis
        by (auto simp: chan_of_def mm signal_not_full_def intro!: channel_move [OF ci])
    qed (use GetSignal r in \<open>auto simp: chan_of_def mm signal_not_full_def intro!: channel_move [OF ci]\<close>)
  qed (use st held in \<open>auto simp: get_step_def chan_of_def mm split: if_splits intro!: channel_move [OF ci]\<close>)
qed

lemma get_other:
  assumes c: "chan_of N es s j" and g: "getting (eats_at s f) f k = Some pc" and st: "get_step k pc s = Next (r, u)"
    and m: "moved c' k f r" and "j \<noteq> k"
  shows "chan_of N (es @ fetched k pc s) (u\<lparr>eats_at := (eats_at u)(f := c')\<rparr>) j"
proof -
  have u: "mons u j = mons s j" "mtx u j = mtx s j" "puts_at u j = puts_at s j" "m_ctrs u j = m_ctrs s j" "eats_at u = eats_at s"
    using st assms(5) by (auto simp: get_step_def signal_not_full_def split: get_pc.splits if_splits option.splits put_pc.splits)
  have e: "pushed j (fetched k pc s) = []" "popped j (fetched k pc s) = []"
    using assms(5) by (cases pc; auto split: option.split)+
  show ?thesis using c assms(5) by (simp add: chan_of_def u e many_moved [where cs = "eats_at s", OF g m])
qed

lemma eat_preserves:
  assumes inv: "mon_inv N es s" and st: "eat_step f s = Next t"
  shows "mon_inv N (es @ mon_event (Consumer f) s) t"
  unfolding mon_inv_def
proof
  fix j
  have c: "chan_of N es s k" for k using inv by (simp add: mon_inv_def)
  from st show "chan_of N (es @ mon_event (Consumer f) s) t j"
  proof (cases rule: eat_step_cases)
    case (Get k pc r u c')
    show ?thesis
    proof (cases "j = k")
      case True
      with get_channel [OF c Get(1,2,3)] Get(4,5) show ?thesis by simp
    next
      case False
      with get_other [OF c Get(1,2,3)] Get(4,5) show ?thesis by simp
    qed
  next
    case (Make d x)
    have "many P ((eats_at s)(f := GetFilling GetLock)) j = many P (eats_at s) j" if "\<not> P GetLock" for P
      using that Make(1) by (simp add: many_upd one_def)
    with c [of j] Make show ?thesis by (simp add: chan_of_def)
  qed
qed

lemma eat_defined:
  assumes "mon_inv N es s"
  shows "eat_step f s \<noteq> Undefined"
proof (cases "eats_at s f")
  case (GetFilling pc)
  with get_defined [of N es s "ingr_of f" f pc] assms show ?thesis
    by (auto simp: eat_step_def mon_inv_def split: outcome.split)
next
  case (GetDough x pc)
  with get_defined [of N es s Dough f pc] assms show ?thesis
    by (auto simp: eat_step_def mon_inv_def split: outcome.split)
qed (simp add: eat_step_def)

section \<open>Runs\<close>

lemma spurious_preserves:
  assumes inv: "mon_inv N es s"
  shows "mon_inv N es (spurious t s)"
proof (cases t)
  case (Producer k)
  show ?thesis
  proof (cases "puts_at s k")
    case (PutWait x)
    have "chan_of N es (s\<lparr>puts_at := (puts_at s)(k := PutAgain x)\<rparr>) j" for j
    proof (cases "j = k")
      case True
      have c: "chan_of N es s k" using inv by (simp add: mon_inv_def)
      from True PutWait show ?thesis by (auto simp: chan_of_def intro!: channel_move [OF c [unfolded chan_of_def]])
    next
      case False
      have c: "chan_of N es s j" using inv by (simp add: mon_inv_def)
      from False show ?thesis by (intro mon_chan_frame [OF c]) simp_all
    qed
    then show ?thesis using Producer PutWait by (simp add: spurious_def signal_not_full_def mon_inv_def)
  qed (use Producer inv in \<open>simp_all add: spurious_def signal_not_full_def\<close>)
next
  case (Consumer f)
  show ?thesis
  proof (cases "waits_in f (eats_at s f)")
    case None
    then show ?thesis using inv Consumer by (simp add: spurious_def woken_same)
  next
    case (Some k)
    then show ?thesis using inv Consumer channel_woken [OF _ Some] by (simp add: spurious_def mon_inv_def)
  qed
qed

lemma mon_run_inv:
  "mon_run N es s \<Longrightarrow> 0 < N \<Longrightarrow> N < 2 ^ 31 \<Longrightarrow> mon_inv N es s"
proof (induction rule: mon_run.induct)
  case mon_begin
  then show ?case by (rule mon_inv_start)
next
  case (mon_thread es s t c s')
  then have "mon_thread t c s = Next s'" by (simp add: mon_step_def split: if_splits)
  with mon_thread show ?case by (cases t) (auto intro: put_preserves eat_preserves simp del: mon_event.simps)
next
  case (mon_spurious es s t)
  then show ?case by (intro spurious_preserves) simp
next
  case (mon_exit es s s')
  then show ?case by (auto simp: mon_main_def mon_inv_def chan_of_def split: if_splits)
qed

end
