(* ===== verification/Monitors_Props.thy ===== *)
theory Monitors_Props
  imports Monitors_Steps
begin

text \<open>
  What the monitor program guarantees in every reachable state, for every capacity that is a
  positive \<open>int\<close>, with spurious wake-ups and any choice of the thread a signal wakes.
\<close>

section \<open>Helpers\<close>

definition in_monitor :: "thread \<Rightarrow> ingredient \<Rightarrow> mon_sys \<Rightarrow> bool" where
  "in_monitor t k s =
     (case t of
        Producer j \<Rightarrow> j = k \<and> put_cs (puts_at s k)
      | Consumer f \<Rightarrow> (case getting (eats_at s f) f k of Some pc \<Rightarrow> get_cs pc | None \<Rightarrow> False))"

lemma mon_chan_of_run: "mon_run N es s \<Longrightarrow> 0 < N \<Longrightarrow> N < 2 ^ 31 \<Longrightarrow> chan_of N es s k"
  using mon_run_inv by (simp add: mon_inv_def)

lemma one_pair: "f \<noteq> g \<Longrightarrow> one P (cs f) k f + one P (cs g) k g \<le> many P cs k"
  using one_bounds(1) [of P] by (cases f; cases g) (simp_all add: many_def)

lemma consumer_in_monitor: "in_monitor (Consumer f) k s \<Longrightarrow> one get_cs (eats_at s f) k f = 1"
  by (auto simp: in_monitor_def one_def split: option.splits)

lemma owners:
  assumes "chan_of N es s k"
  shows "of_bool (put_cs (puts_at s k)) + many get_cs (eats_at s) k = (of_bool (mtx s k) :: int)"
  using assms unfolding chan_of_def by (elim channelE)

lemma two_owners:
  assumes c: "chan_of N es s k" and t: "in_monitor t k s" and u: "in_monitor u k s"
  shows "t = u"
proof -
  have le: "of_bool (put_cs (puts_at s k)) + many get_cs (eats_at s) k \<le> (1 :: int)"
    using owners [OF c] by (cases "mtx s k") simp_all
  have mixed: False if "in_monitor (Producer j) k s" "in_monitor (Consumer f) k s" for j f
    using that(1) le many_ge_one [of get_cs "eats_at s" f k] consumer_in_monitor [OF that(2)]
    by (simp add: in_monitor_def)
  have two: "f = g" if "in_monitor (Consumer f) k s" "in_monitor (Consumer g) k s" for f g
  proof (rule ccontr)
    assume "f \<noteq> g"
    from one_pair [OF this, of get_cs "eats_at s" k] consumer_in_monitor [OF that(1)] consumer_in_monitor [OF that(2)] le
    show False by (cases "put_cs (puts_at s k)") simp_all
  qed
  show ?thesis
    by (cases t; cases u) (use t u mixed two in \<open>auto simp: in_monitor_def\<close>)
qed

section \<open>Blocked threads\<close>

lemma put_blocked:
  assumes "\<And>c. put_step k c s = Blocked"
  shows "(\<exists>x. puts_at s k = PutWait x) \<or> mtx s k \<and> ((\<exists>x. puts_at s k = PutLock x) \<or> (\<exists>x. puts_at s k = PutAgain x))"
proof (cases "puts_at s k")
  case PutSignal
  have "\<exists>c u. signal_not_empty k c s = Some u"
    by (cases "waits_empty k FMeat s"; cases "waits_empty k FCheese s"; cases "waits_empty k FCabbage s")
      (auto simp: signal_not_empty_def split: if_splits)
  then obtain c u where "signal_not_empty k c s = Some u" by blast
  with PutSignal assms [of c] show ?thesis by (simp add: put_step_def)
qed (use assms [of FMeat] in \<open>auto simp: put_step_def produce_eq split: if_splits option.splits\<close>)

lemma get_blocked:
  "get_step k pc s = Blocked \<Longrightarrow> pc = GetWait \<or> mtx s k \<and> (pc = GetLock \<or> pc = GetAgain)"
  by (auto simp: get_step_def split: get_pc.splits if_splits option.splits)

lemma eat_blocked:
  assumes "eat_step f s = Blocked"
  obtains k pc where "\<And>j. getting (eats_at s f) f j = (if j = k then Some pc else None)"
    and "pc = GetWait \<or> mtx s k \<and> (pc = GetLock \<or> pc = GetAgain)"
proof (cases "eats_at s f")
  case (GetFilling pc)
  with assms have "get_step (ingr_of f) pc s = Blocked" by (auto simp: eat_step_def split: outcome.splits)
  from get_blocked [OF this] GetFilling show ?thesis by (intro that [of "ingr_of f" pc]) auto
next
  case (GetDough x pc)
  with assms have "get_step Dough pc s = Blocked" by (auto simp: eat_step_def split: outcome.splits)
  from get_blocked [OF this] GetDough show ?thesis by (intro that [of Dough pc]) auto
next
  case (MakeOne d x)
  with assms show ?thesis by (simp add: eat_step_def)
qed

lemma not_all_blocked:
  assumes inv: "mon_inv N es s" and N: "0 < N" and p: "\<And>k c. put_step k c s = Blocked" and e: "\<And>f. eat_step f s = Blocked"
  shows False
proof -
  have c: "chan_of N es s k" for k using inv by (simp add: mon_inv_def)
  have none: "many P (eats_at s) k = 0" if "\<not> P GetWait" "\<not> P GetLock" "\<not> P GetAgain" for P k
  proof -
    have "one P (eats_at s f) k f = 0" for f
      using e [of f] by (rule eat_blocked) (use that in \<open>auto simp: one_def\<close>)
    then show ?thesis by (simp add: many_def)
  qed
  have free: "\<not> mtx s k" for k
    using owners [OF c, of k] none [of get_cs k] put_blocked [OF p, of k] by (cases "mtx s k") auto
  then obtain x where wait: "\<And>k. puts_at s k = PutWait (x k)" using put_blocked [OF p] by metis
  have none': "many P (eats_at s) k = 0" if "\<not> P GetWait" for P k
  proof -
    have "one P (eats_at s f) k f = 0" for f
      using e [of f] by (rule eat_blocked) (use that free in \<open>auto simp: one_def\<close>)
    then show ?thesis by (simp add: many_def)
  qed
  from e [of FMeat] obtain k where "getting (eats_at s FMeat) FMeat k = Some GetWait"
    by (rule eat_blocked) (use free in auto)
  then have "one (\<lambda>pc. pc = GetWait) (eats_at s FMeat) k FMeat = 1" by (simp add: one_def)
  then have w: "0 < many (\<lambda>pc. pc = GetWait) (eats_at s) k" unfolding many_pos by blast
  from c [of k, unfolded chan_of_def] show False
    by (rule channelE) (use w none' [of get_busy k] none' [of get_signals k] wait [of k] N in simp)
qed

section \<open>A run\<close>

fun mon_schedule :: "thread list \<Rightarrow> event list \<Rightarrow> mon_sys \<Rightarrow> (event list \<times> mon_sys) option" where
  "mon_schedule [] es s = Some (es, s)"
| "mon_schedule (t # ts) es s =
     (case mon_step t FMeat s of Next s' \<Rightarrow> mon_schedule ts (es @ mon_event t s) s' | _ \<Rightarrow> None)"

lemma mon_schedule_run: "mon_run N es s \<Longrightarrow> mon_schedule ts es s = Some (fs, t) \<Longrightarrow> mon_run N fs t"
proof (induction ts arbitrary: es s)
  case (Cons a ts)
  then show ?case by (auto split: outcome.splits intro: mon_thread simp del: mon_event.simps)
qed simp

text \<open>A consumer waits, a producer puts an item and wakes it, the consumer takes it.\<close>

definition wait_put_get :: "thread list" where
  "wait_put_get = replicate 2 (Consumer FMeat) @ replicate 7 (Producer Meat) @ replicate 3 (Consumer FMeat)"

lemmas mon_simps = wait_put_get_def mon_start_def mon_step_def put_step_def eat_step_def get_step_def produce_meat_def
  signal_not_empty_def waits_empty_def monitor_init_def monitor_store_def monitor_fetch_def numeral_eq_Suc

lemma wait_put_get_run:
  "\<exists>s. mon_run 1 [Pushed Meat (nth_item Meat 0), Popped Meat (nth_item Meat 0)] s \<and> running s \<and> in_monitor (Consumer FMeat) Meat s"
proof -
  have "\<exists>s. mon_schedule wait_put_get [] (mon_start 1)
      = Some ([Pushed Meat (nth_item Meat 0), Popped Meat (nth_item Meat 0)], s)
      \<and> running s \<and> in_monitor (Consumer FMeat) Meat s"
    by (simp add: mon_simps nth_item_def in_monitor_def int32_def crem_def cdiv_def)
  then show ?thesis using mon_schedule_run mon_begin by blast
qed

section \<open>Properties\<close>

text \<open>C27: FIFO delivery without loss or duplication. In every run of the monitor program the items
  taken from the buffer of an ingredient are exactly the first ones its producer made, in that
  order, and what was stored beyond them fits the capacity.\<close>
theorem mon_fifo_delivery:
  assumes "mon_run N es s" and "0 < N" and "N < 2 ^ 31"
  shows "popped k es = map (nth_item k) [0..<length (popped k es)]
    \<and> pushed k es = map (nth_item k) [0..<length (pushed k es)]
    \<and> length (popped k es) \<le> length (pushed k es)
    \<and> int (length (pushed k es)) - int (length (popped k es)) \<le> N"
proof -
  obtain xs m where *: "mon_rep (mons s k) xs" "m_capacity (mons s k) = N" "pushed k es = popped k es @ xs"
    "pushed k es @ carried (puts_at s k) = map (nth_item k) [0..<m]"
    using mon_chan_of_run [OF assms] unfolding chan_of_def by (rule channelE)
  from prefix_upt [OF *(4)] have p: "pushed k es = map (nth_item k) [0..<length (pushed k es)]" .
  have "popped k es @ xs = map (nth_item k) [0..<length (pushed k es)]" using *(3) p by simp
  from prefix_upt [OF this] p *(3) rep_count [OF *(1)] *(2) show ?thesis by simp
qed

theorem mon_fifo_delivery_witness:
  "\<exists>s. mon_run 1 [Pushed Meat (nth_item Meat 0), Popped Meat (nth_item Meat 0)] s
     \<and> popped Meat [Pushed Meat (nth_item Meat 0), Popped Meat (nth_item Meat 0)] = map (nth_item Meat) [0..<1]"
proof -
  obtain s where s: "mon_run 1 [Pushed Meat (nth_item Meat 0), Popped Meat (nth_item Meat 0)] s"
    using wait_put_get_run by blast
  with mon_fifo_delivery [OF s, of Meat] show ?thesis by auto
qed

text \<open>C28: A monitor is a monitor: at most one thread is between lock and unlock of a buffer, and no
  statement of any thread, at any time, writes or reads outside a buffer, reads a cell that was
  never written or divides by zero.\<close>
theorem mon_safe:
  assumes "mon_run N es s" and "0 < N" and "N < 2 ^ 31"
  shows "(\<forall>t u k. in_monitor t k s \<longrightarrow> in_monitor u k s \<longrightarrow> t = u) \<and> (\<forall>t c. mon_step t c s \<noteq> Undefined)"
proof -
  have inv: "mon_inv N es s" using assms by (rule mon_run_inv)
  have "mon_thread t c s \<noteq> Undefined" for t c
    using inv put_defined eat_defined [OF inv] by (cases t) (simp_all add: mon_inv_def, metis put_defined)
  then have "mon_step t c s \<noteq> Undefined" for t c by (simp add: mon_step_def)
  moreover have "in_monitor t k s \<Longrightarrow> in_monitor u k s \<Longrightarrow> t = u" for t u k
    using two_owners [of N es s k] inv by (simp add: mon_inv_def)
  ultimately show ?thesis by blast
qed

theorem mon_safe_witness:
  "\<exists>es s. mon_run 1 es s \<and> in_monitor (Consumer FMeat) Meat s \<and> \<not> in_monitor (Producer Meat) Meat s"
proof -
  obtain es s where s: "mon_run 1 es s" "in_monitor (Consumer FMeat) Meat s" using wait_put_get_run by blast
  with mon_safe [OF s(1)] show ?thesis by fastforce
qed

text \<open>C13: No wake-up is lost. While \<open>main\<close> sleeps, in every reachable state at least one of the
  seven threads can execute its next statement, without the help of spurious wake-ups.\<close>
theorem mon_progress:
  assumes "mon_run N es s" and "0 < N" and "N < 2 ^ 31" and "running s"
  shows "\<exists>t c s'. mon_step t c s = Next s'"
proof (rule ccontr)
  assume n: "\<not> ?thesis"
  have inv: "mon_inv N es s" using assms(1-3) by (rule mon_run_inv)
  have "put_step k c s = Blocked" for k c
    using n put_defined [of N es s k c] inv assms(4)
    by (cases "put_step k c s") (auto simp: mon_step_def mon_inv_def dest: spec [of _ "Producer k"])
  moreover have "eat_step f s = Blocked" for f
    using n eat_defined [OF inv, of f] assms(4)
    by (cases "eat_step f s") (auto simp: mon_step_def dest: spec [of _ "Consumer f"])
  ultimately show False by (rule not_all_blocked [OF inv assms(2)])
qed

theorem mon_progress_witness:
  "\<exists>es s t c s'. mon_run 1 es s \<and> es \<noteq> [] \<and> mon_step t c s = Next s'"
proof -
  obtain s where s: "mon_run 1 [Pushed Meat (nth_item Meat 0), Popped Meat (nth_item Meat 0)] s" "running s"
    using wait_put_get_run by blast
  with mon_progress [OF s(1) _ _ s(2)] show ?thesis by fastforce
qed

end
