(* ===== verification/Disk_Format.thy ===== *)
theory Disk_Format
  imports Prelude
begin

text \<open>
  The virtual disk of \<^verbatim>\<open>exercise6/minix_usr/virtual_disk/fs.c\<close> as a sequence of bytes: the
  structures of its first 1416 bytes (\<open>int\<close> of four bytes, lowest first, and no padding, as on
  the 32-bit machine the program is written for), and reading and writing at a position.
\<close>

type_synonym byte = "8 word"
type_synonym bytes = "byte list"

section \<open>Codecs of fixed width\<close>

text \<open>\<open>fread\<close> and \<open>fwrite\<close> of a structure: values that satisfy \<open>wf\<close> become \<open>width\<close> bytes and
  come back. An array is the concatenation of its elements.\<close>

definition encode_array :: "('a \<Rightarrow> bytes) \<Rightarrow> 'a list \<Rightarrow> bytes" where
  "encode_array enc xs = concat (map enc xs)"

definition decode_array :: "(bytes \<Rightarrow> 'a) \<Rightarrow> nat \<Rightarrow> nat \<Rightarrow> bytes \<Rightarrow> 'a list" where
  "decode_array dec width n bs = map (\<lambda>i. dec (take width (drop (i * width) bs))) [0 ..< n]"

locale fixed_codec =
  fixes enc :: "'a \<Rightarrow> bytes"
    and dec :: "bytes \<Rightarrow> 'a"
    and wf :: "'a \<Rightarrow> bool"
    and width :: nat
  assumes enc_length: "wf x \<Longrightarrow> length (enc x) = width"
    and dec_enc: "wf x \<Longrightarrow> dec (enc x) = x"
begin

lemma dec_prefix: "wf x \<Longrightarrow> dec (take width (enc x @ rest)) = x"
  by (simp add: enc_length dec_enc)

lemma array_length: "\<forall>x \<in> set xs. wf x \<Longrightarrow> length (encode_array enc xs) = length xs * width"
  by (induction xs) (auto simp: encode_array_def enc_length)

lemma array_element:
  assumes "\<forall>x \<in> set xs. wf x" and "i < length xs"
  shows "take width (drop (i * width) (encode_array enc xs @ rest)) = enc (xs ! i)"
  using assms
proof (induction xs arbitrary: i)
  case Nil
  then show ?case by simp
next
  case (Cons x xs)
  then show ?case by (cases i) (auto simp: encode_array_def enc_length)
qed

lemma array_inv:
  assumes "\<forall>x \<in> set xs. wf x"
  shows "decode_array dec width (length xs) (encode_array enc xs @ rest) = xs"
  unfolding decode_array_def
  by (rule nth_equalityI) (simp_all add: array_element [OF assms] dec_enc assms del: take_append drop_append)

end

section \<open>Integers\<close>

definition encode_int :: "int \<Rightarrow> bytes" where
  "encode_int x = [word_of_int x, word_of_int (x div 256), word_of_int (x div 65536), word_of_int (x div 16777216)]"

definition decode_int :: "bytes \<Rightarrow> int" where
  "decode_int bs = int32 (uint (bs ! 0) + 256 * uint (bs ! 1) + 65536 * uint (bs ! 2) + 16777216 * uint (bs ! 3))"

lemma uint_byte: "uint (word_of_int x :: byte) = x mod 256"
  by (simp add: uint_word_of_int)

lemma base256: "x mod 256 + 256 * (x div 256 mod 256) + 65536 * (x div 65536 mod 256)
    + 16777216 * (x div 16777216 mod 256) = x mod 4294967296" for x :: int
  using zmod_zmult2_eq [of 256 x 256] zmod_zmult2_eq [of 256 x 65536] zmod_zmult2_eq [of 256 x 16777216]
  by simp

lemma decode_encode_int: "in_int32 x \<Longrightarrow> decode_int (encode_int x) = x"
  using int32_id [of x]
  by (simp add: decode_int_def encode_int_def uint_byte base256 int32_def mod_simps)

interpretation int_codec: fixed_codec encode_int decode_int in_int32 4
  by unfold_locales (simp_all add: decode_encode_int, simp add: encode_int_def)

section \<open>Directory entries and the super block\<close>

definition MAX_FILES :: nat where "MAX_FILES = 32"
definition BLOCK_SIZE :: int where "BLOCK_SIZE = 1024"
definition DISK_SIZE :: int where "DISK_SIZE = 102400"

record dir_entry =
  name :: bytes
  start_block :: int
  size_bytes :: int
  used :: int

record super_block =
  total_size :: int
  block_count :: int
  directory :: "dir_entry list"

definition encode_entry :: "dir_entry \<Rightarrow> bytes" where
  "encode_entry e = name e @ encode_int (start_block e) @ encode_int (size_bytes e) @ encode_int (used e)"

definition decode_entry :: "bytes \<Rightarrow> dir_entry" where
  "decode_entry bs = \<lparr>name = take 32 bs, start_block = decode_int (take 4 (drop 32 bs)),
     size_bytes = decode_int (take 4 (drop 36 bs)), used = decode_int (take 4 (drop 40 bs))\<rparr>"

definition entry_wf :: "dir_entry \<Rightarrow> bool" where
  "entry_wf e \<longleftrightarrow> length (name e) = 32 \<and> in_int32 (start_block e) \<and> in_int32 (size_bytes e) \<and> in_int32 (used e)"

lemma int_length [simp]: "length (encode_int x) = 4"
  by (simp add: encode_int_def)

interpretation entry_codec: fixed_codec encode_entry decode_entry entry_wf 44
proof
  fix e assume "entry_wf e"
  then show "length (encode_entry e) = 44" "decode_entry (encode_entry e) = e"
    by (simp_all add: encode_entry_def decode_entry_def entry_wf_def decode_encode_int)
qed

definition SB_SIZE :: nat where "SB_SIZE = 1416"

definition encode_sb :: "super_block \<Rightarrow> bytes" where
  "encode_sb sb = encode_int (total_size sb) @ encode_int (block_count sb) @ encode_array encode_entry (directory sb)"

definition decode_sb :: "bytes \<Rightarrow> super_block" where
  "decode_sb bs = \<lparr>total_size = decode_int (take 4 bs), block_count = decode_int (take 4 (drop 4 bs)),
     directory = decode_array decode_entry 44 MAX_FILES (drop 8 bs)\<rparr>"

definition sb_wf :: "super_block \<Rightarrow> bool" where
  "sb_wf sb \<longleftrightarrow> in_int32 (total_size sb) \<and> in_int32 (block_count sb) \<and> length (directory sb) = MAX_FILES
     \<and> (\<forall>e \<in> set (directory sb). entry_wf e)"

lemma decode_encode_sb:
  assumes "sb_wf sb"
  shows "decode_sb (encode_sb sb @ rest) = sb"
proof -
  have "decode_array decode_entry 44 MAX_FILES (encode_array encode_entry (directory sb) @ rest) = directory sb"
    using entry_codec.array_inv [of "directory sb" rest] assms by (simp add: sb_wf_def)
  with assms show ?thesis by (simp add: decode_sb_def encode_sb_def sb_wf_def decode_encode_int)
qed

interpretation sb_codec: fixed_codec encode_sb decode_sb sb_wf SB_SIZE
proof
  fix sb assume w: "sb_wf sb"
  then show "length (encode_sb sb) = SB_SIZE"
    using entry_codec.array_length [of "directory sb"]
    by (simp add: encode_sb_def sb_wf_def SB_SIZE_def MAX_FILES_def)
  show "decode_sb (encode_sb sb) = sb" using decode_encode_sb [OF w, of "[]"] by simp
qed

section \<open>Files\<close>

text \<open>Writing at a position overwrites, and fills a gap behind the end with zeros.\<close>

definition write_at :: "nat \<Rightarrow> bytes \<Rightarrow> bytes \<Rightarrow> bytes" where
  "write_at pos bs f = take pos (f @ replicate (pos - length f) 0) @ bs @ drop (pos + length bs) f"

definition read_at :: "nat \<Rightarrow> nat \<Rightarrow> bytes \<Rightarrow> bytes" where
  "read_at pos n f = take n (drop pos f)"

lemma write_at_length: "pos + length bs \<le> length f \<Longrightarrow> length (write_at pos bs f) = length f"
  by (simp add: write_at_def)

lemma read_write_same: "pos + length bs \<le> length f \<Longrightarrow> n \<le> length bs \<Longrightarrow> read_at pos n (write_at pos bs f) = take n bs"
  by (simp add: read_at_def write_at_def)

lemma read_write_before:
  "pos + length bs \<le> length f \<Longrightarrow> p + n \<le> pos \<Longrightarrow> read_at p n (write_at pos bs f) = read_at p n f"
  by (simp add: read_at_def write_at_def drop_take)

lemma read_write_behind:
  "pos + length bs \<le> length f \<Longrightarrow> pos + length bs \<le> p \<Longrightarrow> read_at p n (write_at pos bs f) = read_at p n f"
  by (simp add: read_at_def write_at_def)

end
