(* ===== verification/Virtual_Disk.thy ===== *)
theory Virtual_Disk
  imports Disk_Format
begin

text \<open>
  The commands of \<^verbatim>\<open>exercise6/minix_usr/virtual_disk/fs.c\<close>, and \<^verbatim>\<open>generate.c\<close>. The world is the
  directory the program runs in: its files, one of which is the virtual disk, and what was
  printed. A command ends with an exit status; \<open>None\<close> is undefined behaviour (an access outside
  an array, or output of memory that was never written). Memory is never short, and \<open>fopen\<close>
  fails for a missing file or where \<open>may_open\<close> refuses it.
\<close>

section \<open>World\<close>

datatype reply =
    Unable_to_open | Cannot_read_sb | Creation_error | Created_disk int int | Disk_removed | Cannot_remove
  | Already_exists bytes | No_source_file | Catalogue_full | No_space int | Saved_file bytes int int
  | Not_found bytes | Failed_to_save | Copied_file bytes | Deleted_file bytes | File_not_found
  | Catalogue_heading | Map_heading int | Catalogue_entry bytes int int | Map_free int int | Map_occupied int int bytes int | Blocks_sum int
  | Usage | Undefined_command | Generator_usage | Creating_file bytes int | Cannot_open_file | Success

record world =
  files :: "bytes \<Rightarrow> bytes option"
  printed :: "reply list"

definition DISK_NAME :: bytes where
  "DISK_NAME = map of_char ''dysk_wirtualny.dsk''"

definition data_start_offset :: nat where
  "data_start_offset = SB_SIZE"

definition say :: "reply \<Rightarrow> world \<Rightarrow> world" where
  "say r w = w\<lparr>printed := printed w @ [r]\<rparr>"

definition set_file :: "bytes \<Rightarrow> bytes option \<Rightarrow> world \<Rightarrow> world" where
  "set_file f c w = w\<lparr>files := (files w)(f := c)\<rparr>"

text \<open>The exit status and the world at the end.\<close>

type_synonym ending = "(int \<times> world) option"

definition finish :: "reply \<Rightarrow> world \<Rightarrow> ending" where
  "finish r w = Some (0, say r w)"

section \<open>Support functions\<close>

text \<open>The characters of an array up to the terminating zero.\<close>

definition c_string :: "bytes \<Rightarrow> bytes" where
  "c_string bs = takeWhile (\<lambda>b. b \<noteq> 0) bs"

definition strncpy :: "bytes \<Rightarrow> bytes \<Rightarrow> nat \<Rightarrow> bytes" where
  "strncpy old src n = take n (src @ replicate n 0) @ drop n old"

text \<open>\<open>open_disk\<close> and \<open>load_sb\<close>: the disk and its super block, or an exit with status 1.\<close>

definition load_sb :: "(bytes \<Rightarrow> bool) \<Rightarrow> world \<Rightarrow> (super_block \<Rightarrow> bytes \<Rightarrow> ending) \<Rightarrow> ending" where
  "load_sb may_open w k =
     (case (if may_open DISK_NAME then files w DISK_NAME else None) of
        None \<Rightarrow> Some (1, say Unable_to_open w)
      | Some disk \<Rightarrow>
          if length disk < SB_SIZE then Some (1, say Cannot_read_sb w)
          else k (decode_sb (take SB_SIZE disk)) disk)"

definition save_sb :: "super_block \<Rightarrow> bytes \<Rightarrow> bytes" where
  "save_sb sb disk = write_at 0 (encode_sb sb) disk"

definition needed_blocks :: "int \<Rightarrow> int" where
  "needed_blocks b = cdiv (int32 (b + BLOCK_SIZE - 1)) BLOCK_SIZE"

section \<open>Creating and removing the disk\<close>

text \<open>The super block starts as a global variable, so its directory is zero.\<close>

definition blank_entry :: dir_entry where
  "blank_entry = \<lparr>name = replicate 32 0, start_block = 0, size_bytes = 0, used = 0\<rparr>"

definition new_sb :: super_block where
  "new_sb = \<lparr>total_size = DISK_SIZE, block_count = (DISK_SIZE - int SB_SIZE) div BLOCK_SIZE,
     directory = replicate MAX_FILES blank_entry\<rparr>"

definition create_disk :: "(bytes \<Rightarrow> bool) \<Rightarrow> world \<Rightarrow> ending" where
  "create_disk may_open w =
     (if \<not> may_open DISK_NAME then Some (1, say Creation_error w)
      else finish (Created_disk DISK_SIZE (block_count new_sb))
             (set_file DISK_NAME
               (Some (encode_sb new_sb @ replicate (nat (block_count new_sb * BLOCK_SIZE)) 0)) w))"

definition remove_disk :: "(bytes \<Rightarrow> bool) \<Rightarrow> world \<Rightarrow> ending" where
  "remove_disk may_open w =
     (if may_open DISK_NAME \<and> files w DISK_NAME \<noteq> None then finish Disk_removed (set_file DISK_NAME None w)
      else finish Cannot_remove w)"

section \<open>Copying to the disk\<close>

text \<open>The first used entry with a name, and the first unused one.\<close>

definition find_name :: "bytes \<Rightarrow> dir_entry list \<Rightarrow> nat option" where
  "find_name n dir = find (\<lambda>i. used (dir ! i) \<noteq> 0 \<and> c_string (name (dir ! i)) = n) [0 ..< MAX_FILES]"

definition find_unused :: "dir_entry list \<Rightarrow> nat option" where
  "find_unused dir = find (\<lambda>i. used (dir ! i) = 0) [0 ..< MAX_FILES]"

text \<open>The map of used blocks.\<close>

fun mark_blocks :: "int \<Rightarrow> nat \<Rightarrow> bool list \<Rightarrow> bool list option" where
  "mark_blocks b 0 m = Some m"
| "mark_blocks b (Suc n) m =
     (if 0 \<le> b \<and> b < int (length m) then mark_blocks (b + 1) n (m[nat b := True]) else None)"

fun mark_entries :: "dir_entry list \<Rightarrow> bool list \<Rightarrow> bool list option" where
  "mark_entries [] m = Some m"
| "mark_entries (e # es) m =
     (if used e \<noteq> 0
      then (case mark_blocks (start_block e) (nat (needed_blocks (size_bytes e))) m of
              None \<Rightarrow> None | Some m \<Rightarrow> mark_entries es m)
      else mark_entries es m)"

text \<open>The search for \<open>need\<close> free blocks in a row; \<open>i\<close> is the block looked at.\<close>

fun find_streak :: "int \<Rightarrow> int \<Rightarrow> int \<Rightarrow> bool list \<Rightarrow> int" where
  "find_streak need i streak [] = - 1"
| "find_streak need i streak (b # bs) =
     (if \<not> b then (let streak = streak + 1
                   in if streak = need then i - need + 1 else find_streak need (i + 1) streak bs)
      else find_streak need (i + 1) 0 bs)"

definition new_entry :: "bytes \<Rightarrow> int \<Rightarrow> int \<Rightarrow> dir_entry \<Rightarrow> dir_entry" where
  "new_entry n b sz e = e\<lparr>name := strncpy (name e) n 31, start_block := b, size_bytes := sz, used := 1\<rparr>"

text \<open>The contents as the buffer holds it, filled with zeros to whole blocks.\<close>

definition block_buffer :: "int \<Rightarrow> int \<Rightarrow> bytes \<Rightarrow> bytes" where
  "block_buffer blocks sz c =
     take (nat (blocks * BLOCK_SIZE)) (take (nat sz) c @ replicate (nat (blocks * BLOCK_SIZE)) 0)"

definition copy_to_virtual :: "(bytes \<Rightarrow> bool) \<Rightarrow> bytes \<Rightarrow> bytes \<Rightarrow> world \<Rightarrow> ending" where
  "copy_to_virtual may_open src_filename dest_name w = load_sb may_open w (\<lambda>sb disk.
     if find_name dest_name (directory sb) \<noteq> None then finish (Already_exists dest_name) w
     else case (if may_open src_filename then files w src_filename else None) of
       None \<Rightarrow> finish No_source_file w
     | Some contents \<Rightarrow>
         (let file_size = int32 (int (length contents));
              blocks_needed = needed_blocks file_size
          in case find_unused (directory sb) of
            None \<Rightarrow> finish Catalogue_full w
          | Some dir_idx \<Rightarrow>
             (case mark_entries (directory sb) (replicate (nat (block_count sb)) False) of
                None \<Rightarrow> None
              | Some m \<Rightarrow>
                 (let b = find_streak blocks_needed 0 0 m
                  in if b = - 1 then finish (No_space blocks_needed) w
                     else let disk = write_at (data_start_offset + nat (b * BLOCK_SIZE))
                                 (block_buffer blocks_needed file_size contents) disk;
                              sb = sb\<lparr>directory := (directory sb)[dir_idx :=
                                 new_entry dest_name b file_size (directory sb ! dir_idx)]\<rparr>
                       in finish (Saved_file dest_name file_size b)
                            (set_file DISK_NAME (Some (save_sb sb disk)) w)))))"

section \<open>Copying from the disk\<close>

text \<open>The destination is emptied before the disk is read, which matters when it is the disk.\<close>

definition copy_from_virtual :: "(bytes \<Rightarrow> bool) \<Rightarrow> bytes \<Rightarrow> bytes \<Rightarrow> world \<Rightarrow> ending" where
  "copy_from_virtual may_open src_name dest_filename w = load_sb may_open w (\<lambda>sb _.
     case find_name src_name (directory sb) of
       None \<Rightarrow> finish (Not_found src_name) w
     | Some idx \<Rightarrow>
        (if \<not> may_open dest_filename then finish Failed_to_save w
         else let w = set_file dest_filename (Some []) w;
                  e = directory sb ! idx;
                  pos = int data_start_offset + start_block e * BLOCK_SIZE
           in case files w DISK_NAME of
             None \<Rightarrow> None
           | Some disk \<Rightarrow>
              if 0 \<le> size_bytes e \<and> 0 \<le> pos \<and> pos + size_bytes e \<le> int (length disk)
              then finish (Copied_file src_name)
                     (set_file dest_filename (Some (read_at (nat pos) (nat (size_bytes e)) disk)) w)
              else None))"

section \<open>Deleting and listing\<close>

definition delete_file :: "(bytes \<Rightarrow> bool) \<Rightarrow> bytes \<Rightarrow> world \<Rightarrow> ending" where
  "delete_file may_open n w = load_sb may_open w (\<lambda>sb disk.
     case find_name n (directory sb) of
       None \<Rightarrow> finish File_not_found w
     | Some i \<Rightarrow>
         (let sb = sb\<lparr>directory := (directory sb)[i := (directory sb ! i)\<lparr>used := 0\<rparr>]\<rparr>
          in finish (Deleted_file n) (set_file DISK_NAME (Some (save_sb sb disk)) w)))"

definition used_entries :: "dir_entry list \<Rightarrow> dir_entry list" where
  "used_entries dir = filter (\<lambda>e. used e \<noteq> 0) dir"

definition list_dir :: "(bytes \<Rightarrow> bool) \<Rightarrow> world \<Rightarrow> ending" where
  "list_dir may_open w = load_sb may_open w (\<lambda>sb _.
     Some (0, fold (\<lambda>e. say (Catalogue_entry (c_string (name e)) (size_bytes e) (start_block e)))
       (used_entries (directory sb)) (say Catalogue_heading w)))"

definition compare_entries :: "dir_entry \<Rightarrow> dir_entry \<Rightarrow> int" where
  "compare_entries a b = int32 (start_block a - start_block b)"

text \<open>\<open>qsort\<close>: some sorted order; entries that compare equal keep theirs.\<close>

fun place :: "('a \<Rightarrow> 'a \<Rightarrow> int) \<Rightarrow> 'a \<Rightarrow> 'a list \<Rightarrow> 'a list" where
  "place cmp x [] = [x]"
| "place cmp x (y # ys) = (if cmp x y \<le> 0 then x # y # ys else y # place cmp x ys)"

fun qsort :: "('a \<Rightarrow> 'a \<Rightarrow> int) \<Rightarrow> 'a list \<Rightarrow> 'a list" where
  "qsort cmp [] = []"
| "qsort cmp (x # xs) = place cmp x (qsort cmp xs)"

text \<open>The lines of the map of space: the gap in front of each file, the file, and the gap behind
  the last.\<close>

fun map_lines :: "int \<Rightarrow> int \<Rightarrow> dir_entry list \<Rightarrow> reply list" where
  "map_lines count current_block [] =
     (if current_block < count then [Map_free current_block (count - current_block)] else [])"
| "map_lines count current_block (e # es) =
     (let blocks = needed_blocks (size_bytes e)
      in (if current_block < start_block e then [Map_free current_block (start_block e - current_block)] else [])
         @ Map_occupied (start_block e) blocks (c_string (name e)) (blocks * BLOCK_SIZE - size_bytes e)
         # map_lines count (start_block e + blocks) es)"

definition show_map :: "(bytes \<Rightarrow> bool) \<Rightarrow> world \<Rightarrow> ending" where
  "show_map may_open w = load_sb may_open w (\<lambda>sb _.
     Some (0, w\<lparr>printed := printed w @ [Map_heading BLOCK_SIZE]
       @ map_lines (block_count sb) 0 (qsort compare_entries (used_entries (directory sb)))
       @ [Blocks_sum (block_count sb)]\<rparr>))"

section \<open>main\<close>

definition arg :: "string \<Rightarrow> bytes" where
  "arg s = map of_char s"

text \<open>\<open>argv\<close> without the name of the program.\<close>

definition fs_main :: "(bytes \<Rightarrow> bool) \<Rightarrow> bytes list \<Rightarrow> world \<Rightarrow> ending" where
  "fs_main may_open argv w =
     (case argv of
        [] \<Rightarrow> Some (1, say Usage w)
      | c # args \<Rightarrow>
          if c = arg ''-c'' then create_disk may_open w
          else if c = arg ''-rmdisk'' then remove_disk may_open w
          else if c = arg ''-ls'' then list_dir may_open w
          else if c = arg ''-map'' then show_map may_open w
          else if c = arg ''-rm'' \<and> length args = 1 then delete_file may_open (args ! 0) w
          else if c = arg ''-cp'' \<and> length args = 2 then copy_to_virtual may_open (args ! 0) (args ! 1) w
          else if c = arg ''-out'' \<and> length args = 2 then copy_from_virtual may_open (args ! 0) (args ! 1) w
          else finish Undefined_command w)"

section \<open>generate.c\<close>

text \<open>\<open>atoi\<close>: blanks, a sign, digits.\<close>

definition is_digit :: "byte \<Rightarrow> bool" where
  "is_digit b \<longleftrightarrow> 48 \<le> b \<and> b \<le> 57"

definition digits :: "bytes \<Rightarrow> int" where
  "digits bs = fold (\<lambda>b n. 10 * n + (uint b - 48)) (takeWhile is_digit bs) 0"

definition atoi :: "bytes \<Rightarrow> int" where
  "atoi bs =
     (case dropWhile (\<lambda>b. b = 32 \<or> 9 \<le> b \<and> b \<le> 13) bs of
        [] \<Rightarrow> 0
      | b # cs \<Rightarrow> if b = 45 then int32 (- digits cs) else if b = 43 then int32 (digits cs) else int32 (digits (b # cs)))"

definition generate_main :: "(bytes \<Rightarrow> bool) \<Rightarrow> bytes list \<Rightarrow> world \<Rightarrow> ending" where
  "generate_main may_open argv w =
     (if length argv \<noteq> 2 then Some (1, say Generator_usage w)
      else let filename = argv ! 0; sz = atoi (argv ! 1); w = say (Creating_file filename sz) w
        in if \<not> may_open filename then Some (1, say Cannot_open_file w)
           else finish Success (set_file filename (Some (replicate (nat sz) 0)) w))"

end
