(* ===== verification/Disk_Space.thy ===== *)
theory Disk_Space
  imports Virtual_Disk
begin

text \<open>
  Space on the virtual disk: how many blocks a file takes, the map of used blocks, and the
  search for room, against a definition that says what it looks for.
\<close>

section \<open>Blocks\<close>

lemma needed_blocks_ceiling: "0 \<le> n \<Longrightarrow> n \<le> 2147482624 \<Longrightarrow> needed_blocks n = (n + 1023) div 1024"
  by (simp add: needed_blocks_def BLOCK_SIZE_def int32_id cdiv_nonneg in_int32_def)

lemma needed_blocks_bounds:
  assumes "0 < n" and "n \<le> 2147482624"
  shows "0 < needed_blocks n" and "n \<le> needed_blocks n * 1024" and "needed_blocks n * 1024 < n + 1024"
  using assms by (simp_all add: needed_blocks_ceiling)

definition blocks_of :: "dir_entry \<Rightarrow> int set" where
  "blocks_of e = {start_block e ..< start_block e + needed_blocks (size_bytes e)}"

section \<open>The map of used blocks\<close>

lemma mark_blocks_spec:
  "0 \<le> b \<Longrightarrow> b + int n \<le> int (length m) \<Longrightarrow>
   \<exists>m'. mark_blocks b n m = Some m' \<and> length m' = length m
     \<and> (\<forall>i < length m. m' ! i \<longleftrightarrow> m ! i \<or> int i \<in> {b ..< b + int n})"
proof (induction n arbitrary: b m)
  case 0
  then show ?case by auto
next
  case (Suc n)
  have "\<exists>m'. mark_blocks (b + 1) n (m[nat b := True]) = Some m' \<and> length m' = length (m[nat b := True])
      \<and> (\<forall>i < length (m[nat b := True]). m' ! i \<longleftrightarrow> m[nat b := True] ! i \<or> int i \<in> {b + 1 ..< b + 1 + int n})"
    by (rule Suc.IH) (use Suc.prems in auto)
  then obtain m' where m': "mark_blocks (b + 1) n (m[nat b := True]) = Some m'" "length m' = length m"
    "\<forall>i < length m. m' ! i \<longleftrightarrow> m[nat b := True] ! i \<or> int i \<in> {b + 1 ..< b + 1 + int n}" by auto
  have "m' ! i \<longleftrightarrow> m ! i \<or> int i \<in> {b ..< b + int (Suc n)}" if "i < length m" for i
    using m'(3) that Suc.prems by (cases "i = nat b") (auto simp: nth_list_update)
  with m' Suc.prems show ?case by auto
qed

definition entry_fits :: "int \<Rightarrow> dir_entry \<Rightarrow> bool" where
  "entry_fits count e \<longleftrightarrow> 0 < size_bytes e \<and> size_bytes e \<le> 2147482624 \<and> 0 \<le> start_block e
     \<and> start_block e + needed_blocks (size_bytes e) \<le> count"

definition occupied :: "dir_entry list \<Rightarrow> int set" where
  "occupied dir = (\<Union>e \<in> set (used_entries dir). blocks_of e)"

lemma occupied_simps [simp]:
  "occupied [] = {}" "occupied (e # es) = (if used e \<noteq> 0 then blocks_of e \<union> occupied es else occupied es)"
  by (auto simp: occupied_def used_entries_def)

lemma mark_entries_spec:
  "\<forall>e \<in> set dir. used e \<noteq> 0 \<longrightarrow> entry_fits (int (length m)) e \<Longrightarrow>
   \<exists>m'. mark_entries dir m = Some m' \<and> length m' = length m
     \<and> (\<forall>i < length m. m' ! i \<longleftrightarrow> m ! i \<or> int i \<in> occupied dir)"
proof (induction dir arbitrary: m)
  case Nil
  then show ?case by simp
next
  case (Cons e es)
  show ?case
  proof (cases "used e = 0")
    case True
    with Cons show ?thesis by simp
  next
    case False
    with Cons.prems have f: "entry_fits (int (length m)) e" by simp
    then have "0 < needed_blocks (size_bytes e)" by (simp add: entry_fits_def needed_blocks_bounds)
    with f mark_blocks_spec [of "start_block e" "nat (needed_blocks (size_bytes e))" m] obtain m1 where
      m1: "mark_blocks (start_block e) (nat (needed_blocks (size_bytes e))) m = Some m1" "length m1 = length m"
        "\<forall>i < length m. m1 ! i \<longleftrightarrow> m ! i \<or> int i \<in> blocks_of e"
      by (auto simp: entry_fits_def blocks_of_def)
    from Cons.IH [of m1] Cons.prems m1(2) obtain m' where
      "mark_entries es m1 = Some m'" "length m' = length m" "\<forall>i < length m. m' ! i \<longleftrightarrow> m1 ! i \<or> int i \<in> occupied es"
      by auto
    with m1 False show ?thesis by auto
  qed
qed

section \<open>The search for room\<close>

definition free_run :: "bool list \<Rightarrow> nat \<Rightarrow> nat \<Rightarrow> bool" where
  "free_run m n b \<longleftrightarrow> b + n \<le> length m \<and> (\<forall>j \<in> {b ..< b + n}. \<not> m ! j)"

text \<open>The lowest block where \<open>n\<close> blocks are free.\<close>

definition first_room :: "bool list \<Rightarrow> nat \<Rightarrow> nat option" where
  "first_room m n = find (free_run m n) [0 ..< length m]"

lemma first_room_Some:
  "first_room m n = Some b \<longleftrightarrow> b < length m \<and> free_run m n b \<and> (\<forall>c < b. \<not> free_run m n c)"
  unfolding first_room_def find_Some_iff by auto

lemma first_room_None: "0 < n \<Longrightarrow> first_room m n = None \<longleftrightarrow> (\<forall>b. \<not> free_run m n b)"
  unfolding first_room_def find_None_iff by (auto simp: free_run_def)

lemma find_streak_from:
  assumes "i \<le> length m" and "s \<le> i" and "s < n" and "\<forall>j \<in> {i - s ..< i}. \<not> m ! j"
    and "i = s \<or> m ! (i - s - 1)" and "\<forall>b. free_run m n b \<longrightarrow> i < b + n"
  shows "find_streak (int n) (int i) (int s) (drop i m) = (case first_room m n of Some b \<Rightarrow> int b | None \<Rightarrow> - 1)"
  using assms
proof (induction "length m - i" arbitrary: i s)
  case 0
  then have "\<not> free_run m n b" for b by (fastforce simp: free_run_def)
  then have "first_room m n = None" using 0 by (simp add: first_room_None)
  with 0 show ?case by simp
next
  case (Suc k)
  then have i: "i < length m" "drop i m = m ! i # drop (Suc i) m" by (auto simp: drop_map_nth)
  have k: "k = length m - Suc i" using Suc(2) by simp
  show ?case
  proof (cases "m ! i")
    case True
    have "find_streak (int n) (int (Suc i)) (int 0) (drop (Suc i) m) = (case first_room m n of Some b \<Rightarrow> int b | None \<Rightarrow> - 1)"
    proof (rule Suc.hyps(1) [OF k])
      show "\<forall>b. free_run m n b \<longrightarrow> Suc i < b + n"
      proof (intro allI impI)
        fix b assume f: "free_run m n b"
        with Suc.prems(6) have "i < b + n" by blast
        moreover have "i \<notin> {b ..< b + n}" using f True by (auto simp: free_run_def)
        ultimately have "i < b" by auto
        then show "Suc i < b + n" using Suc.prems(3) by simp
      qed
    qed (use i True Suc.prems in auto)
    with True i show ?thesis by (simp add: add.commute)
  next
    case False
    have free: "\<forall>j \<in> {Suc i - Suc s ..< Suc i}. \<not> m ! j"
      using Suc.prems(4) False by (auto simp: less_Suc_eq)
    show ?thesis
    proof (cases "Suc s = n")
      case True
      have "free_run m n (Suc i - n)" using free True Suc.prems(2) i by (auto simp: free_run_def)
      moreover have "\<not> free_run m n c" if "c < Suc i - n" for c using Suc.prems(6) that by fastforce
      ultimately have "first_room m n = Some (Suc i - n)" using i Suc.prems(3) by (auto simp: first_room_Some)
      with True False i Suc.prems(2) show ?thesis by (simp add: Let_def of_nat_diff)
    next
      case ne: False
      have "find_streak (int n) (int (Suc i)) (int (Suc s)) (drop (Suc i) m) = (case first_room m n of Some b \<Rightarrow> int b | None \<Rightarrow> - 1)"
      proof (rule Suc.hyps(1) [OF k])
        show "\<forall>b. free_run m n b \<longrightarrow> Suc i < b + n"
        proof (intro allI impI)
          fix b assume f: "free_run m n b"
          with Suc.prems(6) have "i < b + n" by blast
          moreover have "b + n \<noteq> Suc i"
          proof
            assume e: "b + n = Suc i"
            then have "i \<noteq> s" "m ! (i - s - 1)" using Suc.prems ne by auto
            moreover have "i - s - 1 \<in> {b ..< b + n}" using e Suc.prems(2,3) ne \<open>i \<noteq> s\<close> by auto
            ultimately show False using f by (auto simp: free_run_def)
          qed
          ultimately show "Suc i < b + n" by simp
        qed
        show "\<forall>j \<in> {Suc i - Suc s ..< Suc i}. \<not> m ! j" by (rule free)
      qed (use i Suc.prems ne in auto)
      with False ne i show ?thesis by (simp add: Let_def add.commute)
    qed
  qed
qed

lemma find_streak_first_room:
  "0 < n \<Longrightarrow> find_streak (int n) 0 0 m = (case first_room m n of Some b \<Rightarrow> int b | None \<Rightarrow> - 1)"
  using find_streak_from [of 0 m 0 n] by (auto simp: free_run_def)

text \<open>A file without contents never finds room.\<close>

lemma find_streak_zero: "0 \<le> s \<Longrightarrow> find_streak 0 i s m = - 1"
  by (induction m arbitrary: i s) (auto simp: Let_def)

end
