(* ===== verification/Disk_Inv.thy ===== *)
theory Disk_Inv
  imports Disk_Space
begin

text \<open>
  What a sound disk is, the files it stores by name, and the lemmas that every command keeps
  it sound and does to the stored files what it promises.
\<close>

section \<open>Sound disks\<close>

definition dir_ok :: "int \<Rightarrow> dir_entry list \<Rightarrow> bool" where
  "dir_ok count dir \<longleftrightarrow> length dir = MAX_FILES
     \<and> (\<forall>e \<in> set dir. entry_wf e \<and> name e ! 31 = 0 \<and> (used e \<noteq> 0 \<longrightarrow> entry_fits count e))
     \<and> (\<forall>i < MAX_FILES. \<forall>j < MAX_FILES. i \<noteq> j \<longrightarrow> used (dir ! i) \<noteq> 0 \<longrightarrow> used (dir ! j) \<noteq> 0
          \<longrightarrow> blocks_of (dir ! i) \<inter> blocks_of (dir ! j) = {})"

definition sb_of :: "bytes \<Rightarrow> super_block" where
  "sb_of disk = decode_sb (take SB_SIZE disk)"

definition disk_ok :: "bytes \<Rightarrow> bool" where
  "disk_ok disk \<longleftrightarrow> sb_wf (sb_of disk) \<and> block_count (sb_of disk) = 98 \<and> dir_ok 98 (directory (sb_of disk))
     \<and> length disk = SB_SIZE + 98 * 1024"

definition position :: "dir_entry \<Rightarrow> int" where
  "position e = int data_start_offset + start_block e * BLOCK_SIZE"

definition contents_of :: "dir_entry \<Rightarrow> bytes \<Rightarrow> bytes" where
  "contents_of e disk = read_at (nat (position e)) (nat (size_bytes e)) disk"

text \<open>The abstraction: the contents under each name.\<close>

definition stored :: "bytes \<Rightarrow> bytes \<Rightarrow> bytes option" where
  "stored disk n = map_option (\<lambda>i. contents_of (directory (sb_of disk) ! i) disk) (find_name n (directory (sb_of disk)))"

text \<open>No name twice.\<close>

definition names_ok :: "dir_entry list \<Rightarrow> bool" where
  "names_ok dir \<longleftrightarrow> (\<forall>i < MAX_FILES. \<forall>j < MAX_FILES. i \<noteq> j \<longrightarrow> used (dir ! i) \<noteq> 0 \<longrightarrow> used (dir ! j) \<noteq> 0
     \<longrightarrow> c_string (name (dir ! i)) \<noteq> c_string (name (dir ! j)))"

lemmas disk_sizes = SB_SIZE_def MAX_FILES_def BLOCK_SIZE_def data_start_offset_def

lemma new_count [simp]: "block_count new_sb = 98" "total_size new_sb = 102400"
  by (simp_all add: new_sb_def DISK_SIZE_def SB_SIZE_def BLOCK_SIZE_def)

lemma dir_okD:
  assumes "dir_ok c dir" and "i < MAX_FILES"
  shows "entry_wf (dir ! i)" "name (dir ! i) ! 31 = 0" "used (dir ! i) \<noteq> 0 \<Longrightarrow> entry_fits c (dir ! i)"
  using assms by (auto simp: dir_ok_def)

lemma dir_ok_disjoint:
  "dir_ok c dir \<Longrightarrow> i < MAX_FILES \<Longrightarrow> j < MAX_FILES \<Longrightarrow> i \<noteq> j \<Longrightarrow> used (dir ! i) \<noteq> 0 \<Longrightarrow> used (dir ! j) \<noteq> 0
   \<Longrightarrow> blocks_of (dir ! i) \<inter> blocks_of (dir ! j) = {}"
  by (simp add: dir_ok_def)

lemma disk_okD:
  assumes "disk_ok disk"
  shows "sb_wf (sb_of disk)" "block_count (sb_of disk) = 98" "dir_ok 98 (directory (sb_of disk))"
    "length disk = 101768" "length (directory (sb_of disk)) = MAX_FILES"
  using assms by (auto simp: disk_ok_def dir_ok_def disk_sizes)

section \<open>Saving the super block\<close>

lemma save_sb_spec:
  assumes "sb_wf sb" and "SB_SIZE \<le> length disk"
  shows "sb_of (save_sb sb disk) = sb" and "length (save_sb sb disk) = length disk"
    and "SB_SIZE \<le> p \<Longrightarrow> read_at p n (save_sb sb disk) = read_at p n disk"
proof -
  have l: "length (encode_sb sb) = SB_SIZE" using assms(1) by (rule sb_codec.enc_length)
  then have "take SB_SIZE (save_sb sb disk) = encode_sb sb" by (simp add: save_sb_def write_at_def)
  then show "sb_of (save_sb sb disk) = sb" by (simp add: sb_of_def sb_codec.dec_enc [OF assms(1)])
  show "length (save_sb sb disk) = length disk" using assms(2) l by (simp add: save_sb_def write_at_length)
  show "SB_SIZE \<le> p \<Longrightarrow> read_at p n (save_sb sb disk) = read_at p n disk"
    using assms(2) l by (simp add: save_sb_def read_write_behind)
qed

lemma contents_of_save:
  "sb_wf sb \<Longrightarrow> SB_SIZE \<le> length disk \<Longrightarrow> 0 \<le> start_block e \<Longrightarrow> contents_of e (save_sb sb disk) = contents_of e disk"
  by (simp add: contents_of_def save_sb_spec position_def data_start_offset_def BLOCK_SIZE_def)

lemma contents_of_cong:
  "start_block e = start_block f \<Longrightarrow> size_bytes e = size_bytes f \<Longrightarrow> contents_of e disk = contents_of f disk"
  by (simp add: contents_of_def position_def)

lemma sb_wf_update:
  "sb_wf sb \<Longrightarrow> entry_wf e \<Longrightarrow> sb_wf (sb\<lparr>directory := (directory sb)[k := e]\<rparr>)"
  by (auto simp: sb_wf_def dest: set_update_subset_insert [THEN subsetD])

lemma dir_ok_update:
  assumes ok: "dir_ok c dir" and k: "k < MAX_FILES"
    and e: "entry_wf e" "name e ! 31 = 0" "used e \<noteq> 0 \<longrightarrow> entry_fits c e"
    and d: "\<forall>i < MAX_FILES. i \<noteq> k \<longrightarrow> used e \<noteq> 0 \<longrightarrow> used (dir ! i) \<noteq> 0 \<longrightarrow> blocks_of (dir ! i) \<inter> blocks_of e = {}"
  shows "dir_ok c (dir[k := e])"
proof -
  have l: "length dir = MAX_FILES" using ok by (simp add: dir_ok_def)
  have "\<forall>x \<in> set (dir[k := e]). entry_wf x \<and> name x ! 31 = 0 \<and> (used x \<noteq> 0 \<longrightarrow> entry_fits c x)"
    using ok e by (auto simp: dir_ok_def dest!: set_update_subset_insert [THEN subsetD])
  moreover have "blocks_of (dir[k := e] ! i) \<inter> blocks_of (dir[k := e] ! j) = {}"
    if "i < MAX_FILES" "j < MAX_FILES" "i \<noteq> j" "used (dir[k := e] ! i) \<noteq> 0" "used (dir[k := e] ! j) \<noteq> 0" for i j
    using that d dir_ok_disjoint [OF ok that(1-3)] l k by (auto simp: nth_list_update Int_commute split: if_splits)
  ultimately show ?thesis using l by (simp add: dir_ok_def)
qed

section \<open>Finding names\<close>

lemma find_upt_Some: "find P [0 ..< n] = Some i \<longleftrightarrow> i < n \<and> P i \<and> (\<forall>j < i. \<not> P j)"
proof
  assume "i < n \<and> P i \<and> (\<forall>j < i. \<not> P j)"
  then show "find P [0 ..< n] = Some i" unfolding find_Some_iff by (intro exI [of _ i]) auto
qed (auto simp: find_Some_iff)

lemma find_name_Some:
  "find_name n dir = Some i \<longleftrightarrow> i < MAX_FILES \<and> used (dir ! i) \<noteq> 0 \<and> c_string (name (dir ! i)) = n
     \<and> (\<forall>j < i. \<not> (used (dir ! j) \<noteq> 0 \<and> c_string (name (dir ! j)) = n))"
  by (auto simp: find_name_def find_upt_Some)

lemma find_name_None:
  "find_name n dir = None \<longleftrightarrow> (\<forall>i < MAX_FILES. \<not> (used (dir ! i) \<noteq> 0 \<and> c_string (name (dir ! i)) = n))"
  unfolding find_name_def find_None_iff by auto

lemma find_unused_Some:
  "find_unused dir = Some i \<longleftrightarrow> i < MAX_FILES \<and> used (dir ! i) = 0 \<and> (\<forall>j < i. used (dir ! j) \<noteq> 0)"
  by (auto simp: find_unused_def find_upt_Some)

lemma find_unused_None: "find_unused dir = None \<longleftrightarrow> (\<forall>i < MAX_FILES. used (dir ! i) \<noteq> 0)"
  unfolding find_unused_def find_None_iff by auto

lemma find_cong_set: "(\<And>x. x \<in> set xs \<Longrightarrow> P x = Q x) \<Longrightarrow> find P xs = find Q xs"
  by (induction xs) auto

lemma find_name_update_other:
  assumes "k < length dir" and "used e = 0 \<or> c_string (name e) \<noteq> n"
    and "used (dir ! k) = 0 \<or> c_string (name (dir ! k)) \<noteq> n"
  shows "find_name n (dir[k := e]) = find_name n dir"
  unfolding find_name_def by (rule find_cong_set) (use assms in \<open>auto simp: nth_list_update\<close>)

lemma c_string_short:
  assumes "length n = 32" and "n ! 31 = 0"
  shows "length (c_string n) \<le> 31"
proof -
  have "takeWhile (\<lambda>b. b \<noteq> 0) n \<noteq> n"
    using nth_mem [of 31 n] assms by (auto simp: takeWhile_eq_all_conv)
  then have "length (takeWhile (\<lambda>b. b \<noteq> 0) n) \<noteq> length n" by (metis takeWhile_eq_take take_all order_refl)
  then show ?thesis using length_takeWhile_le [of "\<lambda>b. b \<noteq> 0" n] assms(1) by (simp add: c_string_def)
qed

text \<open>A name of at most 31 characters comes back.\<close>

lemma c_string_strncpy:
  assumes "length old = 32" and "old ! 31 = 0" and "0 \<notin> set n"
  shows "c_string (strncpy old n 31) = take 31 n" and "length (strncpy old n 31) = 32" and "strncpy old n 31 ! 31 = 0"
proof -
  show l: "length (strncpy old n 31) = 32" using assms(1) by (simp add: strncpy_def)
  have d: "drop 31 old = [0]" using assms(1,2) by (simp add: drop_map_nth)
  have "length (take 31 (n @ replicate 31 0)) = 31" by simp
  then show "strncpy old n 31 ! 31 = 0" unfolding strncpy_def d by (metis nth_append_length)
  have nz: "\<forall>b \<in> set (take 31 n). b \<noteq> 0" using assms(3) by (metis in_set_takeD)
  have "strncpy old n 31 = take 31 n @ replicate (31 - length n) 0 @ [0]"
    by (simp add: strncpy_def d min_def)
  then show "c_string (strncpy old n 31) = take 31 n"
    using nz by (cases "31 - length n") (simp_all add: c_string_def takeWhile_append2)
qed

section \<open>A new file\<close>

lemma map_of_disk:
  assumes "disk_ok disk"
  obtains m where "mark_entries (directory (sb_of disk)) (replicate 98 False) = Some m" "length m = 98"
    "\<forall>i < 98. m ! i \<longleftrightarrow> int i \<in> occupied (directory (sb_of disk))"
proof -
  have "\<forall>e \<in> set (directory (sb_of disk)). used e \<noteq> 0 \<longrightarrow> entry_fits (int (length (replicate 98 False))) e"
    using assms by (simp add: disk_ok_def dir_ok_def)
  from mark_entries_spec [OF this] that show ?thesis by auto
qed

text \<open>The blocks of another file are before or behind the new ones.\<close>

lemma contents_of_write:
  assumes "entry_fits 98 e" and "entry_fits 98 f" and "blocks_of e \<inter> blocks_of f = {}"
    and "length bs = nat (needed_blocks (size_bytes e) * 1024)" and "length disk = 101768"
  shows "contents_of f (write_at (nat (position e)) bs disk) = contents_of f disk"
proof -
  note e = assms(1)[unfolded entry_fits_def] and f = assms(2)[unfolded entry_fits_def]
  have ne: "0 < needed_blocks (size_bytes e)" "0 < needed_blocks (size_bytes f)"
    "size_bytes f \<le> needed_blocks (size_bytes f) * 1024"
    using e f needed_blocks_bounds by auto
  have "start_block e + needed_blocks (size_bytes e) \<le> start_block f \<or> start_block f + needed_blocks (size_bytes f) \<le> start_block e"
  proof (rule ccontr)
    assume "\<not> ?thesis"
    then have "max (start_block e) (start_block f) \<in> blocks_of e \<inter> blocks_of f" using ne by (auto simp: blocks_of_def)
    with assms(3) show False by blast
  qed
  then have "position e + int (length bs) \<le> position f \<or> position f + size_bytes f \<le> position e"
    using assms(4) ne e by (auto simp: position_def BLOCK_SIZE_def)
  moreover have "position e + int (length bs) \<le> 101768" "0 \<le> position e" "0 \<le> position f"
    using assms(4) ne e f by (auto simp: position_def BLOCK_SIZE_def data_start_offset_def SB_SIZE_def)
  ultimately show ?thesis using assms(5) f ne unfolding contents_of_def
    by (elim disjE) (rule read_write_behind read_write_before; simp add: nat_le_iff; linarith)+
qed

lemma block_buffer_spec:
  assumes "c \<noteq> []" and "int (length c) \<le> 2147482624"
  shows "length (block_buffer (needed_blocks (int (length c))) (int (length c)) c) = nat (needed_blocks (int (length c)) * 1024)"
    and "take (length c) (block_buffer (needed_blocks (int (length c))) (int (length c)) c) = c"
  using needed_blocks_bounds [of "int (length c)"] assms by (auto simp: block_buffer_def BLOCK_SIZE_def min_def)

end
