(* ===== verification/Disk_Files.thy ===== *)
theory Disk_Files
  imports Disk_Inv
begin

text \<open>
  What the commands do to a sound disk: the lemmas behind the properties of the virtual disk.
\<close>

section \<open>Loading\<close>

lemma load_sb_ok:
  "disk_ok disk \<Longrightarrow> files w DISK_NAME = Some disk \<Longrightarrow> may_open DISK_NAME \<Longrightarrow>
   load_sb may_open w k = k (sb_of disk) disk"
  by (simp add: load_sb_def sb_of_def disk_okD disk_sizes)

lemma say_sel [simp]: "files (say r w) = files w" "printed (say r w) = printed w @ [r]"
  by (simp_all add: say_def)

lemma set_file_sel [simp]: "files (set_file f c w) = (files w)(f := c)" "printed (set_file f c w) = printed w"
  by (simp_all add: set_file_def)

lemma set_file_twice [simp]: "set_file f c (set_file f d w) = set_file f c w"
  by (simp add: set_file_def)

section \<open>Room\<close>

text \<open>\<open>n\<close> blocks from \<open>b\<close> on are free.\<close>

definition room :: "bytes \<Rightarrow> int \<Rightarrow> int \<Rightarrow> bool" where
  "room disk n b \<longleftrightarrow> 0 \<le> b \<and> b + n \<le> 98 \<and> {b ..< b + n} \<inter> occupied (directory (sb_of disk)) = {}"

lemma room_free_run:
  assumes "length m = 98" and m: "\<And>i. i < 98 \<Longrightarrow> m ! i \<longleftrightarrow> int i \<in> occupied (directory (sb_of disk))"
  shows "room disk (int n) (int b) \<longleftrightarrow> free_run m n b"
proof -
  have "{int b ..< int b + int n} = int ` {b ..< b + n}" by (simp add: image_int_atLeastLessThan)
  then show ?thesis using assms by (auto simp: room_def free_run_def)
qed

lemma streak_room:
  assumes "length m = 98" and "\<forall>i < 98. m ! i \<longleftrightarrow> int i \<in> occupied (directory (sb_of disk))" and "0 < n"
  shows "find_streak n 0 0 m = - 1 \<and> (\<forall>b. \<not> room disk n b)
    \<or> room disk n (find_streak n 0 0 m) \<and> (\<forall>b < find_streak n 0 0 m. \<not> room disk n b)"
proof -
  have r: "room disk n b \<longleftrightarrow> 0 \<le> b \<and> free_run m (nat n) (nat b)" for b
    using room_free_run [OF assms(1) assms(2)[rule_format], of "nat n" "nat b"] assms(3) by (cases "0 \<le> b") (auto simp: room_def)
  have f: "find_streak n 0 0 m = (case first_room m (nat n) of Some b \<Rightarrow> int b | None \<Rightarrow> - 1)"
    using find_streak_first_room [of "nat n" m] assms(3) by simp
  show ?thesis
  proof (cases "first_room m (nat n)")
    case None
    with assms(3) have "\<forall>b. \<not> free_run m (nat n) b" by (simp add: first_room_None)
    with None f r show ?thesis by simp
  next
    case (Some b)
    then have "free_run m (nat n) b" "\<forall>c < b. \<not> free_run m (nat n) c" by (simp_all add: first_room_Some)
    then have "room disk n (int b)" "\<not> room disk n c" if "c < int b" for c using r that by (auto simp: nat_less_iff)
    moreover have "room disk n (int b)" using r \<open>free_run m (nat n) b\<close> by simp
    ultimately show ?thesis using Some f by simp
  qed
qed

section \<open>Adding a file\<close>

definition with_file :: "bytes \<Rightarrow> bytes \<Rightarrow> nat \<Rightarrow> int \<Rightarrow> bytes \<Rightarrow> bytes" where
  "with_file dest c k b disk =
     (let sb = sb_of disk; sz = int (length c)
      in save_sb (sb\<lparr>directory := (directory sb)[k := new_entry dest b sz (directory sb ! k)]\<rparr>)
           (write_at (data_start_offset + nat (b * BLOCK_SIZE)) (block_buffer (needed_blocks sz) sz c) disk))"

lemma with_file_ok:
  assumes ok: "disk_ok disk" and k: "k < MAX_FILES" "used (directory (sb_of disk) ! k) = 0"
    and c: "c \<noteq> []" "int (length c) \<le> 2147482624" and r: "room disk (needed_blocks (int (length c))) b" and d: "0 \<notin> set dest"
  shows "disk_ok (with_file dest c k b disk)"
    and "directory (sb_of (with_file dest c k b disk))
      = (directory (sb_of disk))[k := new_entry dest b (int (length c)) (directory (sb_of disk) ! k)]"
    and "contents_of (new_entry dest b (int (length c)) (directory (sb_of disk) ! k)) (with_file dest c k b disk) = c"
    and "i < MAX_FILES \<Longrightarrow> used (directory (sb_of disk) ! i) \<noteq> 0 \<Longrightarrow>
      contents_of (directory (sb_of disk) ! i) (with_file dest c k b disk) = contents_of (directory (sb_of disk) ! i) disk"
proof -
  let ?sb = "sb_of disk" let ?dir = "directory ?sb" let ?sz = "int (length c)"
  let ?e = "new_entry dest b ?sz (?dir ! k)"
  let ?sb' = "?sb\<lparr>directory := ?dir[k := ?e]\<rparr>"
  let ?buf = "block_buffer (needed_blocks ?sz) ?sz c"
  let ?w = "write_at (data_start_offset + nat (b * BLOCK_SIZE)) ?buf disk"
  note D = disk_okD [OF ok]
  have nb: "0 < needed_blocks ?sz" "?sz \<le> needed_blocks ?sz * 1024" using needed_blocks_bounds [of ?sz] c by auto
  have b: "0 \<le> b" "b + needed_blocks ?sz \<le> 98" using r by (auto simp: room_def)
  have old: "entry_wf (?dir ! k)" "name (?dir ! k) ! 31 = 0" using dir_okD [OF D(3) k(1)] by simp_all
  have len: "length (name (?dir ! k)) = 32" using old(1) by (simp add: entry_wf_def)
  have e: "start_block ?e = b" "size_bytes ?e = ?sz" "used ?e = 1" "name ?e = strncpy (name (?dir ! k)) dest 31"
    by (simp_all add: new_entry_def)
  have fits: "entry_fits 98 ?e" using c b by (simp add: entry_fits_def e)
  have wf: "entry_wf ?e" using c b nb c_string_strncpy(2) [OF len old(2) d] by (simp add: entry_wf_def e in_int32_def)
  have dj: "blocks_of (?dir ! i) \<inter> blocks_of ?e = {}" if "i < MAX_FILES" "used (?dir ! i) \<noteq> 0" for i
  proof -
    have "?dir ! i \<in> set ?dir" using that(1) D(5) by (metis nth_mem)
    with that(2) have "blocks_of (?dir ! i) \<subseteq> occupied ?dir" by (auto simp: occupied_def used_entries_def)
    moreover have "blocks_of ?e = {b ..< b + needed_blocks ?sz}" by (simp add: blocks_of_def e)
    ultimately show ?thesis using r unfolding room_def by blast
  qed
  have dir': "dir_ok 98 (?dir[k := ?e])"
    by (rule dir_ok_update [OF D(3) k(1) wf]) (use c_string_strncpy(3) [OF len old(2) d] fits dj e in simp_all)
  have sbw: "sb_wf ?sb'" by (rule sb_wf_update [OF D(1) wf])
  have pos: "data_start_offset + nat (b * BLOCK_SIZE) = nat (position ?e)"
    using b(1) by (simp add: position_def e disk_sizes nat_add_distrib nat_mult_distrib)
  have bl: "length ?buf = nat (needed_blocks ?sz * 1024)" "take (length c) ?buf = c" using block_buffer_spec [OF c] by simp_all
  have in_range: "nat (position ?e) + length ?buf \<le> length disk"
    using b nb D(4) bl by (simp add: position_def e disk_sizes nat_add_distrib nat_mult_distrib nat_le_iff)
  then have wl: "length ?w = 101768" using D(4) by (simp add: pos write_at_length)
  then have sz: "SB_SIZE \<le> length ?w" by (simp add: disk_sizes)
  have eq: "with_file dest c k b disk = save_sb ?sb' ?w" by (simp add: with_file_def Let_def)
  show dir: "directory (sb_of (with_file dest c k b disk)) = ?dir[k := ?e]"
    unfolding eq save_sb_spec(1) [OF sbw sz] by simp
  show "disk_ok (with_file dest c k b disk)"
    unfolding eq disk_ok_def save_sb_spec(1,2) [OF sbw sz] using sbw dir' D(2) wl by (simp add: disk_sizes)
  show "contents_of ?e (with_file dest c k b disk) = c"
  proof -
    have "contents_of ?e ?w = take (length c) ?buf"
      using read_write_same [OF in_range, of "length c"] nb bl(1) by (simp add: contents_of_def pos e nat_le_iff)
    then show ?thesis using contents_of_save [OF sbw sz, of ?e] b(1) bl(2) by (simp add: eq e)
  qed
  show "contents_of (?dir ! i) (with_file dest c k b disk) = contents_of (?dir ! i) disk"
    if i: "i < MAX_FILES" "used (?dir ! i) \<noteq> 0"
  proof -
    have fi: "entry_fits 98 (?dir ! i)" using dir_okD(3) [OF D(3) i] .
    then have "contents_of (?dir ! i) ?w = contents_of (?dir ! i) disk"
      unfolding pos using contents_of_write [OF fits fi _ _ D(4)] dj [OF i] bl(1) e(2) by (simp add: Int_commute)
    then show ?thesis using contents_of_save [OF sbw sz, of "?dir ! i"] fi by (simp add: eq entry_fits_def)
  qed
qed

text \<open>The files stored afterwards, if there was none of the name that is now taken.\<close>

lemma stored_with_file:
  assumes "disk_ok disk" and k: "k < MAX_FILES" "used (directory (sb_of disk) ! k) = 0"
    and c: "c \<noteq> []" "int (length c) \<le> 2147482624" and "room disk (needed_blocks (int (length c))) b" and d: "0 \<notin> set dest"
    and free: "find_name (take 31 dest) (directory (sb_of disk)) = None"
  shows "stored (with_file dest c k b disk) = (stored disk)(take 31 dest \<mapsto> c)"
proof
  fix n
  let ?dir = "directory (sb_of disk)"
  let ?e = "new_entry dest b (int (length c)) (?dir ! k)" let ?d = "with_file dest c k b disk"
  note W = with_file_ok [OF assms(1-7)]
  note D = disk_okD [OF assms(1)]
  have nm: "c_string (name ?e) = take 31 dest" "used ?e = 1"
    using c_string_strncpy(1) [of "name (?dir ! k)" dest] d dir_okD [OF D(3) k(1)] by (simp_all add: new_entry_def entry_wf_def)
  show "stored ?d n = ((stored disk)(take 31 dest \<mapsto> c)) n"
  proof (cases "n = take 31 dest")
    case True
    have "find_name n (?dir[k := ?e]) = Some k"
      unfolding find_name_Some using True nm k(1) free D(5) by (auto simp: find_name_None nth_list_update)
    then show ?thesis using True W(2,3) k(1) D(5) by (simp add: stored_def)
  next
    case False
    have f: "find_name n (?dir[k := ?e]) = find_name n ?dir"
      by (rule find_name_update_other) (use False nm k D(5) in auto)
    have "contents_of (?dir[k := ?e] ! j) ?d = contents_of (?dir ! j) disk" if "find_name n ?dir = Some j" for j
    proof -
      have "j < MAX_FILES" "used (?dir ! j) \<noteq> 0" "j \<noteq> k" using that k(2) by (auto simp: find_name_Some)
      with W(4) show ?thesis by simp
    qed
    then have "map_option (\<lambda>j. contents_of (?dir[k := ?e] ! j) ?d) (find_name n ?dir) = map_option (\<lambda>j. contents_of (?dir ! j) disk) (find_name n ?dir)"
      by (intro option.map_cong [OF refl]) auto
    with False show ?thesis by (simp add: stored_def W(2) f)
  qed
qed

lemma names_with_file:
  assumes "names_ok (directory (sb_of disk))" and "disk_ok disk" and k: "k < MAX_FILES" "used (directory (sb_of disk) ! k) = 0"
    and "0 \<notin> set dest" and "find_name (take 31 dest) (directory (sb_of disk)) = None"
  shows "names_ok ((directory (sb_of disk))[k := new_entry dest b sz (directory (sb_of disk) ! k)])"
proof -
  let ?dir = "directory (sb_of disk)"
  note D = disk_okD [OF assms(2)]
  have "c_string (name (new_entry dest b sz (?dir ! k))) = take 31 dest"
    using c_string_strncpy(1) [of "name (?dir ! k)" dest] assms(5) dir_okD [OF D(3) k(1)] by (simp add: new_entry_def entry_wf_def)
  then show ?thesis using assms(1,6) D(5) k(1)
    by (auto simp: names_ok_def find_name_None nth_list_update)
qed

section \<open>Deleting a file\<close>

definition without_file :: "nat \<Rightarrow> bytes \<Rightarrow> bytes" where
  "without_file i disk =
     (let sb = sb_of disk in save_sb (sb\<lparr>directory := (directory sb)[i := (directory sb ! i)\<lparr>used := 0\<rparr>]\<rparr>) disk)"

lemma without_file_ok:
  assumes ok: "disk_ok disk" and i: "i < MAX_FILES"
  shows "disk_ok (without_file i disk)"
    and "directory (sb_of (without_file i disk)) = (directory (sb_of disk))[i := (directory (sb_of disk) ! i)\<lparr>used := 0\<rparr>]"
    and "0 \<le> start_block e \<Longrightarrow> contents_of e (without_file i disk) = contents_of e disk"
proof -
  let ?sb = "sb_of disk" let ?dir = "directory ?sb" let ?e = "(?dir ! i)\<lparr>used := 0\<rparr>"
  let ?sb' = "?sb\<lparr>directory := ?dir[i := ?e]\<rparr>"
  note D = disk_okD [OF ok]
  have wf: "entry_wf ?e" "name ?e ! 31 = 0" using dir_okD [OF D(3) i] by (simp_all add: entry_wf_def in_int32_def)
  have sbw: "sb_wf ?sb'" by (rule sb_wf_update [OF D(1) wf(1)])
  have sz: "SB_SIZE \<le> length disk" using D(4) by (simp add: disk_sizes)
  have dir': "dir_ok 98 (?dir[i := ?e])" by (rule dir_ok_update [OF D(3) i wf]) simp_all
  have eq: "without_file i disk = save_sb ?sb' disk" by (simp add: without_file_def Let_def)
  show "directory (sb_of (without_file i disk)) = ?dir[i := ?e]" unfolding eq save_sb_spec(1) [OF sbw sz] by simp
  show "disk_ok (without_file i disk)"
    unfolding eq disk_ok_def save_sb_spec(1,2) [OF sbw sz] using sbw dir' D(2,4) by (simp add: disk_sizes)
  show "0 \<le> start_block e \<Longrightarrow> contents_of e (without_file i disk) = contents_of e disk"
    unfolding eq by (rule contents_of_save [OF sbw sz])
qed

lemma stored_without_file:
  assumes ok: "disk_ok disk" and nm: "names_ok (directory (sb_of disk))" and f: "find_name n (directory (sb_of disk)) = Some i"
  shows "stored (without_file i disk) = (stored disk)(n := None)" and "names_ok (directory (sb_of (without_file i disk)))"
proof -
  let ?dir = "directory (sb_of disk)" let ?e = "(?dir ! i)\<lparr>used := 0\<rparr>"
  note D = disk_okD [OF ok]
  have i: "i < MAX_FILES" "used (?dir ! i) \<noteq> 0" "c_string (name (?dir ! i)) = n" using f by (auto simp: find_name_Some)
  note W = without_file_ok [OF ok i(1)]
  have "stored (without_file i disk) p = ((stored disk)(n := None)) p" for p
  proof (cases "p = n")
    case True
    have "find_name n (?dir[i := ?e]) = None"
      unfolding find_name_None using nm i D(5) by (auto simp: names_ok_def nth_list_update)
    with True show ?thesis by (simp add: stored_def W(2))
  next
    case False
    have g: "find_name p (?dir[i := ?e]) = find_name p ?dir"
      by (rule find_name_update_other) (use i False D(5) in auto)
    have "contents_of (?dir[i := ?e] ! j) (without_file i disk) = contents_of (?dir ! j) disk"
      if "find_name p ?dir = Some j" for j
    proof -
      have j: "j < MAX_FILES" "used (?dir ! j) \<noteq> 0" "j \<noteq> i" using that False i(3) by (auto simp: find_name_Some)
      have "0 \<le> start_block (?dir ! j)" using dir_okD(3) [OF D(3) j(1,2)] by (simp add: entry_fits_def)
      with W(3) j(3) show ?thesis by simp
    qed
    then have "map_option (\<lambda>j. contents_of (?dir[i := ?e] ! j) (without_file i disk)) (find_name p ?dir)
        = map_option (\<lambda>j. contents_of (?dir ! j) disk) (find_name p ?dir)"
      by (intro option.map_cong [OF refl]) auto
    with False show ?thesis by (simp add: stored_def W(2) g)
  qed
  then show "stored (without_file i disk) = (stored disk)(n := None)" by (rule ext)
  show "names_ok (directory (sb_of (without_file i disk)))"
    unfolding W(2) using nm D(5) i(1) by (auto simp: names_ok_def nth_list_update)
qed

end
