(* ===== verification/Disk_Map.thy ===== *)
theory Disk_Map
  imports Disk_Files "HOL-Library.Multiset"
begin

text \<open>
  The map of space that \<open>show_map\<close> prints: sorting the entries by their first block, and the
  lines for files and gaps.
\<close>

section \<open>Sorting\<close>

lemma mset_place: "mset (place cmp x ys) = add_mset x (mset ys)"
  by (induction ys) auto

lemma mset_qsort: "mset (qsort cmp xs) = mset xs"
  by (induction xs) (auto simp: mset_place)

lemma set_qsort: "set (qsort cmp xs) = set xs"
  by (rule mset_eq_setD [OF mset_qsort])

lemma sorted_place:
  assumes "\<And>a b. a \<in> insert x (set ys) \<Longrightarrow> b \<in> insert x (set ys) \<Longrightarrow> cmp a b \<le> 0 \<longleftrightarrow> key a \<le> (key b :: int)"
    and "sorted (map key ys)"
  shows "sorted (map key (place cmp x ys))"
  using assms
proof (induction ys)
  case (Cons y ys)
  have "set (place cmp x ys) = insert x (set ys)" using mset_place [of cmp x ys] by (metis set_mset_add_mset_insert set_mset_mset)
  with Cons show ?case by force
qed simp

lemma sorted_qsort:
  assumes "\<And>a b. a \<in> set xs \<Longrightarrow> b \<in> set xs \<Longrightarrow> cmp a b \<le> 0 \<longleftrightarrow> key a \<le> (key b :: int)"
  shows "sorted (map key (qsort cmp xs))"
  using assms by (induction xs) (auto intro!: sorted_place simp: set_qsort)

section \<open>The lines\<close>

text \<open>Files one behind the other, from block \<open>c\<close> on.\<close>

fun in_order :: "int \<Rightarrow> int \<Rightarrow> dir_entry list \<Rightarrow> bool" where
  "in_order limit c [] = (c \<le> limit)"
| "in_order limit c (e # es) = (c \<le> start_block e \<and> 0 < needed_blocks (size_bytes e)
     \<and> in_order limit (start_block e + needed_blocks (size_bytes e)) es)"

fun line_free :: "reply \<Rightarrow> int set" where
  "line_free (Map_free b n) = {b ..< b + n}"
| "line_free _ = {}"

fun line_size :: "reply \<Rightarrow> int" where
  "line_size (Map_free b n) = n"
| "line_size (Map_occupied b n f g) = n"
| "line_size _ = 0"

fun is_occupied :: "reply \<Rightarrow> bool" where
  "is_occupied (Map_occupied b n f g) = True"
| "is_occupied _ = False"

definition file_line :: "dir_entry \<Rightarrow> reply" where
  "file_line e = Map_occupied (start_block e) (needed_blocks (size_bytes e)) (c_string (name e))
     (needed_blocks (size_bytes e) * BLOCK_SIZE - size_bytes e)"

lemma in_order_le: "in_order limit c es \<Longrightarrow> c \<le> limit"
  by (induction es arbitrary: c) fastforce+

lemma in_order_blocks: "in_order limit c es \<Longrightarrow> e \<in> set es \<Longrightarrow> blocks_of e \<subseteq> {c ..< limit}"
proof (induction es arbitrary: c)
  case (Cons x xs)
  then have "in_order limit (start_block x + needed_blocks (size_bytes x)) xs" by simp
  note le = in_order_le [OF this]
  from Cons show ?case using le by (fastforce simp: blocks_of_def)
qed simp

lemma map_lines_spec:
  "in_order limit c es \<Longrightarrow>
   (\<Union>l \<in> set (map_lines limit c es). line_free l) = {c ..< limit} - (\<Union>e \<in> set es. blocks_of e)
   \<and> sum_list (map line_size (map_lines limit c es)) = limit - c
   \<and> filter is_occupied (map_lines limit c es) = map file_line es"
proof (induction es arbitrary: c)
  case Nil
  then show ?case by auto
next
  case (Cons e es)
  let ?n = "needed_blocks (size_bytes e)" let ?d = "start_block e + ?n"
  from Cons.prems have o: "c \<le> start_block e" "0 < ?n" "in_order limit ?d es" by simp_all
  have "?d \<le> limit" by (rule in_order_le [OF o(3)])
  moreover have "(\<Union>x \<in> set es. blocks_of x) \<subseteq> {?d ..< limit}" using in_order_blocks [OF o(3)] by blast
  moreover have "blocks_of e = {start_block e ..< ?d}" by (simp add: blocks_of_def)
  ultimately have "{c ..< start_block e} \<union> ({?d ..< limit} - (\<Union>x \<in> set es. blocks_of x))
      = {c ..< limit} - (\<Union>x \<in> set (e # es). blocks_of x)"
    using o(1,2) by auto
  moreover have "map_lines limit c (e # es) = (if c < start_block e then [Map_free c (start_block e - c)] else [])
      @ file_line e # map_lines limit ?d es" by (simp add: Let_def file_line_def)
  ultimately show ?case using Cons.IH [OF o(3)] o(1) by (auto simp: file_line_def)
qed

lemma in_order_sorted:
  assumes "sorted (map start_block es)" and "\<forall>e \<in> set es. entry_fits limit e \<and> c \<le> start_block e"
    and "pairwise (\<lambda>a b. blocks_of a \<inter> blocks_of b = {}) (set es)" and "distinct es" and "c \<le> limit"
  shows "in_order limit c es"
  using assms
proof (induction es arbitrary: c)
  case (Cons e es)
  let ?n = "needed_blocks (size_bytes e)"
  have e: "entry_fits limit e" "c \<le> start_block e" using Cons.prems(2) by simp_all
  then have n: "0 < ?n" "start_block e + ?n \<le> limit" by (simp_all add: entry_fits_def needed_blocks_bounds)
  have "start_block e + ?n \<le> start_block x" if x: "x \<in> set es" for x
  proof (rule ccontr)
    assume "\<not> ?thesis"
    moreover have "start_block e \<le> start_block x" using Cons.prems(1) x by auto
    moreover have "0 < needed_blocks (size_bytes x)" using Cons.prems(2) x by (simp add: entry_fits_def needed_blocks_bounds)
    ultimately have "start_block x \<in> blocks_of e \<inter> blocks_of x" by (simp add: blocks_of_def)
    moreover have "blocks_of e \<inter> blocks_of x = {}" using Cons.prems(3,4) x by (auto simp: pairwise_def)
    ultimately show False by blast
  qed
  then have "in_order limit (start_block e + ?n) es"
    by (intro Cons.IH) (use Cons.prems n in \<open>auto simp: pairwise_def\<close>)
  with e n show ?case by simp
qed simp

section \<open>A sound disk\<close>

lemma distinct_filterI:
  "(\<And>i j. i < length xs \<Longrightarrow> j < length xs \<Longrightarrow> i \<noteq> j \<Longrightarrow> P (xs ! i) \<Longrightarrow> P (xs ! j) \<Longrightarrow> xs ! i \<noteq> xs ! j)
   \<Longrightarrow> distinct (filter P xs)"
proof (induction xs)
  case (Cons x xs)
  have "distinct (filter P xs)"
  proof (rule Cons.IH)
    fix i j assume "i < length xs" "j < length xs" "i \<noteq> j" "P (xs ! i)" "P (xs ! j)"
    then show "xs ! i \<noteq> xs ! j" using Cons.prems [of "Suc i" "Suc j"] by simp
  qed
  moreover have "x \<notin> set xs" if "P x"
    using that Cons.prems [of 0 "Suc j" for j] by (auto simp: in_set_conv_nth)
  ultimately show ?case by auto
qed simp

lemma used_entries_disjoint:
  assumes "dir_ok 98 dir"
  shows "pairwise (\<lambda>a b. blocks_of a \<inter> blocks_of b = {}) (set (used_entries dir))" and "distinct (used_entries dir)"
proof -
  have l: "length dir = MAX_FILES" using assms by (simp add: dir_ok_def)
  show "pairwise (\<lambda>a b. blocks_of a \<inter> blocks_of b = {}) (set (used_entries dir))"
  proof (rule pairwiseI)
    fix a b assume "a \<in> set (used_entries dir)" "b \<in> set (used_entries dir)" "a \<noteq> b"
    then obtain i j where "i < MAX_FILES" "j < MAX_FILES" "i \<noteq> j" "a = dir ! i" "b = dir ! j" "used a \<noteq> 0" "used b \<noteq> 0"
      by (auto simp: used_entries_def in_set_conv_nth l)
    then show "blocks_of a \<inter> blocks_of b = {}" using dir_ok_disjoint [OF assms] by blast
  qed
  have "dir ! i \<noteq> dir ! j" if "i < MAX_FILES" "j < MAX_FILES" "i \<noteq> j" "used (dir ! i) \<noteq> 0" "used (dir ! j) \<noteq> 0" for i j
  proof
    assume e: "dir ! i = dir ! j"
    have "start_block (dir ! i) \<in> blocks_of (dir ! i)"
      using dir_okD(3) [OF assms that(1,4)] by (simp add: blocks_of_def entry_fits_def needed_blocks_bounds)
    then show False using dir_ok_disjoint [OF assms that] e by simp
  qed
  then show "distinct (used_entries dir)"
    unfolding used_entries_def by (intro distinct_filterI) (use l in auto)
qed

end
