(* ===== verification/Disk_Commands.thy ===== *)
theory Disk_Commands
  imports Disk_Map
begin

text \<open>
  Each command on a sound disk as one equation, and the disk as \<open>create_disk\<close> makes it.
\<close>

section \<open>Copying and deleting\<close>

lemma copy_to_virtual_run:
  assumes ok: "disk_ok disk" and w: "files w DISK_NAME = Some disk" and m: "may_open DISK_NAME" "may_open src"
    and c: "files w src = Some c" "int (length c) \<le> 2147482624" and f: "find_name dest (directory (sb_of disk)) = None"
  shows "(find_unused (directory (sb_of disk)) = None \<or> c = [] \<or> (\<forall>b. \<not> room disk (needed_blocks (int (length c))) b))
        \<and> (\<exists>r. copy_to_virtual may_open src dest w = finish r w)
    \<or> (\<exists>k b. find_unused (directory (sb_of disk)) = Some k \<and> c \<noteq> [] \<and> room disk (needed_blocks (int (length c))) b
        \<and> (\<forall>a < b. \<not> room disk (needed_blocks (int (length c))) a)
        \<and> copy_to_virtual may_open src dest w
          = finish (Saved_file dest (int (length c)) b) (set_file DISK_NAME (Some (with_file dest c k b disk)) w))"
proof -
  let ?n = "needed_blocks (int (length c))" let ?dir = "directory (sb_of disk)"
  note D = disk_okD [OF ok]
  obtain mp where mp: "mark_entries ?dir (replicate 98 False) = Some mp" "length mp = 98"
    "\<forall>i < 98. mp ! i \<longleftrightarrow> int i \<in> occupied ?dir" by (rule map_of_disk [OF ok])
  have i: "int32 (int (length c)) = int (length c)" using c(2) by (simp add: int32_id in_int32_def)
  have run: "copy_to_virtual may_open src dest w = (case find_unused ?dir of None \<Rightarrow> finish Catalogue_full w
     | Some k \<Rightarrow> if find_streak ?n 0 0 mp = - 1 then finish (No_space ?n) w
         else finish (Saved_file dest (int (length c)) (find_streak ?n 0 0 mp))
           (set_file DISK_NAME (Some (with_file dest c k (find_streak ?n 0 0 mp) disk)) w))"
    using load_sb_ok [where may_open = may_open, OF ok w m(1)] m c f i mp(1) D(2)
    by (cases "find_unused ?dir") (simp_all add: copy_to_virtual_def with_file_def Let_def)
  show ?thesis
  proof (cases "find_unused ?dir")
    case None
    with run show ?thesis by auto
  next
    case (Some k)
    show ?thesis
    proof (cases "c = []")
      case True
      then have "?n = 0" by (simp add: needed_blocks_ceiling)
      then have "find_streak ?n 0 0 mp = - 1" using find_streak_zero by simp
      with run Some True show ?thesis by auto
    next
      case False
      then have "0 < ?n" using needed_blocks_bounds(1) c(2) by simp
      from streak_room [OF mp(2,3) this] show ?thesis
      proof (elim disjE conjE)
        assume "find_streak ?n 0 0 mp = - 1" "\<forall>b. \<not> room disk ?n b"
        with run Some show ?thesis by auto
      next
        assume r: "room disk ?n (find_streak ?n 0 0 mp)" "\<forall>b < find_streak ?n 0 0 mp. \<not> room disk ?n b"
        then have "find_streak ?n 0 0 mp \<noteq> - 1" by (auto simp: room_def)
        with run Some False r show ?thesis by auto
      qed
    qed
  qed
qed

lemma delete_file_run:
  assumes "disk_ok disk" and "files w DISK_NAME = Some disk" and "may_open DISK_NAME"
  shows "delete_file may_open n w = (case find_name n (directory (sb_of disk)) of None \<Rightarrow> finish File_not_found w
     | Some i \<Rightarrow> finish (Deleted_file n) (set_file DISK_NAME (Some (without_file i disk)) w))"
  using load_sb_ok [where may_open = may_open, OF assms] by (simp add: delete_file_def without_file_def Let_def split: option.split)

lemma copy_from_virtual_run:
  assumes ok: "disk_ok disk" and w: "files w DISK_NAME = Some disk" and m: "may_open DISK_NAME" and d: "dest \<noteq> DISK_NAME"
  shows "copy_from_virtual may_open n dest w = (case stored disk n of None \<Rightarrow> finish (Not_found n) w
     | Some c \<Rightarrow> if may_open dest then finish (Copied_file n) (set_file dest (Some c) w) else finish Failed_to_save w)"
proof (cases "find_name n (directory (sb_of disk))")
  case None
  then show ?thesis using load_sb_ok [where may_open = may_open, OF ok w m] by (simp add: copy_from_virtual_def stored_def)
next
  case (Some i)
  let ?e = "directory (sb_of disk) ! i"
  note D = disk_okD [OF ok]
  have i: "i < MAX_FILES" "used ?e \<noteq> 0" using Some by (auto simp: find_name_Some)
  have f: "entry_fits 98 ?e" using dir_okD(3) [OF D(3) i] .
  then have "size_bytes ?e \<le> needed_blocks (size_bytes ?e) * 1024" using needed_blocks_bounds(2) by (simp add: entry_fits_def)
  with f have "position ?e + size_bytes ?e \<le> int (length disk)" "0 \<le> position ?e" "0 \<le> size_bytes ?e"
    by (auto simp: entry_fits_def position_def D(4) disk_sizes)
  then show ?thesis using load_sb_ok [where may_open = may_open, OF ok w m] Some d w
    by (simp add: copy_from_virtual_def stored_def contents_of_def position_def Let_def)
qed

section \<open>A new disk\<close>

definition new_disk :: bytes where
  "new_disk = encode_sb new_sb @ replicate (98 * 1024) 0"

lemma new_sb_wf: "sb_wf new_sb"
  by (simp add: sb_wf_def entry_wf_def new_sb_def blank_entry_def in_int32_def DISK_SIZE_def SB_SIZE_def BLOCK_SIZE_def)

lemma sb_of_new_disk: "sb_of new_disk = new_sb"
  by (simp add: sb_of_def new_disk_def sb_codec.dec_prefix new_sb_wf del: take_append)

lemma new_directory: "directory (sb_of new_disk) = replicate 32 blank_entry"
  by (simp add: sb_of_new_disk) (simp add: new_sb_def MAX_FILES_def)

lemma blank_entry_sel [simp]: "used blank_entry = 0" "name blank_entry = replicate 32 0" "entry_wf blank_entry"
  by (simp_all add: blank_entry_def entry_wf_def in_int32_def)

lemma new_disk_ok: "disk_ok new_disk"
proof -
  have "dir_ok 98 (replicate 32 blank_entry)" by (simp add: dir_ok_def MAX_FILES_def)
  moreover have "length new_disk = SB_SIZE + 98 * 1024" by (simp add: new_disk_def sb_codec.enc_length [OF new_sb_wf])
  ultimately show ?thesis using new_sb_wf by (simp add: disk_ok_def sb_of_new_disk) (metis new_directory sb_of_new_disk)
qed

lemma new_disk_empty:
  "find_name n (directory (sb_of new_disk)) = None" "stored new_disk = Map.empty" "occupied (directory (sb_of new_disk)) = {}"
  "find_unused (directory (sb_of new_disk)) = Some 0" "names_ok (directory (sb_of new_disk))"
  by (auto simp: new_directory find_name_None find_unused_Some stored_def fun_eq_iff MAX_FILES_def occupied_def used_entries_def names_ok_def)

lemma create_disk_run: "may_open DISK_NAME \<Longrightarrow> create_disk may_open w = finish (Created_disk 102400 98) (set_file DISK_NAME (Some new_disk) w)"
  by (simp add: create_disk_def new_disk_def BLOCK_SIZE_def DISK_SIZE_def)

section \<open>Soundness is kept\<close>

definition sound :: "world \<Rightarrow> bool" where
  "sound w \<longleftrightarrow> (\<forall>disk. files w DISK_NAME = Some disk \<longrightarrow> disk_ok disk)"

definition keeps_disk :: "ending \<Rightarrow> bool" where
  "keeps_disk e \<longleftrightarrow> (\<exists>r w'. e = Some (r, w') \<and> (\<forall>disk. files w' DISK_NAME = Some disk \<longrightarrow> disk_ok disk))"

lemma keeps_finish [intro]: "sound w \<Longrightarrow> keeps_disk (finish r w)"
  by (simp add: keeps_disk_def finish_def sound_def)

lemma keeps_new: "disk_ok d \<Longrightarrow> keeps_disk (finish r (set_file DISK_NAME (Some d) w))"
  by (simp add: keeps_disk_def finish_def)

lemma keeps_load:
  assumes "sound w"
    and "\<And>disk. disk_ok disk \<Longrightarrow> files w DISK_NAME = Some disk \<Longrightarrow> may_open DISK_NAME \<Longrightarrow> keeps_disk (load_sb may_open w k)"
  shows "keeps_disk (load_sb may_open w k)"
proof (cases "may_open DISK_NAME \<and> files w DISK_NAME \<noteq> None")
  case True
  with assms show ?thesis by (auto simp: sound_def)
next
  case False
  then have "load_sb may_open w k = Some (1, say Unable_to_open w)" by (auto simp: load_sb_def)
  with assms(1) show ?thesis by (simp add: keeps_disk_def sound_def)
qed

lemma create_keeps: "sound w \<Longrightarrow> keeps_disk (create_disk may_open w)"
  using create_disk_run [of may_open w] new_disk_ok
  by (cases "may_open DISK_NAME") (simp_all add: keeps_new, simp add: create_disk_def keeps_disk_def sound_def)

lemma remove_keeps: "sound w \<Longrightarrow> keeps_disk (remove_disk may_open w)"
  by (simp add: remove_disk_def keeps_finish) (simp add: keeps_disk_def finish_def)

lemma files_fold_say: "files (fold (\<lambda>e. say (g e)) es v) = files v"
  by (induction es arbitrary: v) simp_all

lemma list_keeps: "sound w \<Longrightarrow> keeps_disk (list_dir may_open w)"
  unfolding list_dir_def
  by (rule keeps_load, assumption) (simp add: load_sb_ok files_fold_say keeps_disk_def)

lemma map_keeps: "sound w \<Longrightarrow> keeps_disk (show_map may_open w)"
  unfolding show_map_def by (rule keeps_load, assumption) (simp add: load_sb_ok keeps_disk_def)

lemma delete_keeps:
  assumes "sound w"
  shows "keeps_disk (delete_file may_open n w)"
  unfolding delete_file_def
proof (rule keeps_load [OF assms], fold delete_file_def)
  fix disk assume d: "disk_ok disk" "files w DISK_NAME = Some disk" "may_open DISK_NAME"
  show "keeps_disk (delete_file may_open n w)"
    unfolding delete_file_run [where may_open = may_open and n = n, OF d]
    using without_file_ok(1) [OF d(1)] assms by (auto simp: find_name_Some keeps_new split: option.splits)
qed

lemma copy_to_keeps:
  assumes "sound w" and l: "\<forall>f c. files w f = Some c \<longrightarrow> int (length c) \<le> 2147482624" and z: "0 \<notin> set dest"
  shows "keeps_disk (copy_to_virtual may_open src dest w)"
  unfolding copy_to_virtual_def
proof (rule keeps_load [OF assms(1)], fold copy_to_virtual_def)
  fix disk assume d: "disk_ok disk" "files w DISK_NAME = Some disk" "may_open DISK_NAME"
  show "keeps_disk (copy_to_virtual may_open src dest w)"
  proof (cases "find_name dest (directory (sb_of disk)) = None \<and> may_open src \<and> files w src \<noteq> None")
    case False
    with assms(1) show ?thesis
      using load_sb_ok [where may_open = may_open, OF d] by (auto simp: copy_to_virtual_def)
  next
    case True
    then obtain c where c: "files w src = Some c" "int (length c) \<le> 2147482624" using l by blast
    have f: "may_open src" "find_name dest (directory (sb_of disk)) = None" using True by simp_all
    from copy_to_virtual_run [where may_open = may_open and dest = dest, OF d f(1) c f(2)] show ?thesis
    proof (elim disjE exE conjE)
      fix k b
      assume k: "find_unused (directory (sb_of disk)) = Some k" "c \<noteq> []" "room disk (needed_blocks (int (length c))) b"
        "copy_to_virtual may_open src dest w
          = finish (Saved_file dest (int (length c)) b) (set_file DISK_NAME (Some (with_file dest c k b disk)) w)"
      then show ?thesis using with_file_ok(1) [OF d(1) _ _ k(2) c(2) k(3) z, of k] by (simp add: find_unused_Some keeps_new)
    qed (use assms(1) in auto)
  qed
qed

lemma copy_from_keeps:
  assumes "sound w" and "dest \<noteq> DISK_NAME"
  shows "keeps_disk (copy_from_virtual may_open n dest w)"
  unfolding copy_from_virtual_def
proof (rule keeps_load [OF assms(1)], fold copy_from_virtual_def)
  fix disk assume d: "disk_ok disk" "files w DISK_NAME = Some disk" "may_open DISK_NAME"
  show "keeps_disk (copy_from_virtual may_open n dest w)"
    unfolding copy_from_virtual_run [where may_open = may_open and n = n, OF d assms(2)]
    using assms d by (auto simp: keeps_disk_def finish_def split: option.splits)
qed

lemma fs_main_keeps:
  assumes "\<forall>disk. files w DISK_NAME = Some disk \<longrightarrow> disk_ok disk"
    and "\<forall>f c. files w f = Some c \<longrightarrow> int (length c) \<le> 2147482624" and "\<forall>a \<in> set argv. 0 \<notin> set a"
    and "\<not> (length argv = 3 \<and> argv ! 0 = arg ''-out'' \<and> argv ! 2 = DISK_NAME)"
  shows "keeps_disk (fs_main may_open argv w)"
proof (cases argv)
  case Nil
  with assms(1) show ?thesis by (simp add: fs_main_def keeps_disk_def)
next
  case (Cons c args)
  have s: "sound w" using assms(1) by (simp add: sound_def)
  have cp: "keeps_disk (copy_to_virtual may_open (args ! 0) (args ! 1) w)" if "length args = 2"
    using copy_to_keeps [OF s assms(2)] assms(3) that Cons by simp
  have out: "keeps_disk (copy_from_virtual may_open (args ! 0) (args ! 1) w)" if "c = arg ''-out''" "length args = 2"
    using copy_from_keeps [OF s] assms(4) that Cons by simp
  show ?thesis
    unfolding fs_main_def Cons list.case
    using create_keeps [OF s] remove_keeps [OF s] list_keeps [OF s] map_keeps [OF s] delete_keeps [OF s] cp out keeps_finish [OF s]
    by (simp split: if_split)
qed

end
