(* ===== verification/Disk_Props.thy ===== *)
theory Disk_Props
  imports Disk_Commands
begin

text \<open>
  The properties of the virtual disk.
\<close>

section \<open>A world with a new disk\<close>

definition small_world :: world where
  "small_world = \<lparr>files = (\<lambda>_. None)(DISK_NAME \<mapsto> new_disk, [65] \<mapsto> [1, 2, 3]), printed = []\<rparr>"

lemma small_not_disk: "[65] \<noteq> DISK_NAME" "[66] \<noteq> DISK_NAME"
  by (simp_all add: DISK_NAME_def)

lemma small_files [simp]: "files small_world DISK_NAME = Some new_disk" "files small_world [65] = Some [1, 2, 3]"
  using small_not_disk by (auto simp: small_world_def)

lemma small_room: "room new_disk (needed_blocks 3) 0"
  by (simp add: room_def new_disk_empty needed_blocks_ceiling)

section \<open>Properties\<close>

text \<open>The super block that is saved is the one that is loaded again, every field and every
  directory entry of it, and saving it touches nothing behind it.\<close>
lemma save_load_sb:
  assumes "sb_wf sb" and "SB_SIZE \<le> length disk" and "may_open DISK_NAME"
  shows "load_sb may_open (set_file DISK_NAME (Some (save_sb sb disk)) w) k = k sb (save_sb sb disk)
    \<and> length (save_sb sb disk) = length disk \<and> drop SB_SIZE (save_sb sb disk) = drop SB_SIZE disk"
proof -
  have "drop SB_SIZE (save_sb sb disk) = drop SB_SIZE disk"
    using sb_codec.enc_length [OF assms(1)] by (simp add: save_sb_def write_at_def)
  then show ?thesis using save_sb_spec [OF assms(1,2)] assms(2,3) by (simp add: load_sb_def sb_of_def)
qed

lemma save_load_sb_small:
  "load_sb (\<lambda>_. True) (set_file DISK_NAME (Some (save_sb new_sb new_disk)) small_world) (\<lambda>sb _. Some (block_count sb, small_world))
    = Some (98, small_world)"
  using save_load_sb [OF new_sb_wf, of new_disk "\<lambda>_. True" small_world "\<lambda>sb _. Some (block_count sb, small_world)"] disk_okD(4) [OF new_disk_ok]
  by (simp add: SB_SIZE_def)

text \<open>C35: The loop over the map of blocks, with its running length of the current gap, finds the
  lowest block from which as many blocks as needed are free, and \<open>- 1\<close> if there is none.\<close>
theorem find_streak_is_first_fit:
  assumes "0 < n"
  shows "find_streak (int n) 0 0 m = (case first_room m n of Some b \<Rightarrow> int b | None \<Rightarrow> - 1)"
  using assms by (rule find_streak_first_room)

theorem find_streak_is_first_fit_witness:
  "find_streak 2 0 0 [True, False, True, False, False] = 3"
  using find_streak_is_first_fit [of 2 "[True, False, True, False, False]"]
  by (simp add: first_room_def free_run_def upt_rec)

text \<open>C9: Copying a file to a sound disk, under a name of at most 31 characters: it succeeds
  exactly if the name is new, a directory entry is unused, the file is not empty and enough
  blocks in a row are free. Then it takes the lowest such blocks, the disk stays sound, and the
  stored files are those from before and the new one. Otherwise no file changes.\<close>
theorem copy_to_virtual_spec:
  assumes "disk_ok disk" and "files w DISK_NAME = Some disk" and "may_open DISK_NAME" "may_open src"
    and "files w src = Some c" "int (length c) \<le> 2147482624" and "length dest \<le> 31" "0 \<notin> set dest"
  shows "\<exists>w'. copy_to_virtual may_open src dest w = Some (0, w') \<and>
    (if stored disk dest = None \<and> find_unused (directory (sb_of disk)) \<noteq> None \<and> c \<noteq> []
        \<and> (\<exists>b. room disk (needed_blocks (int (length c))) b)
     then \<exists>b disk'. w' = say (Saved_file dest (int (length c)) b) (set_file DISK_NAME (Some disk') w)
       \<and> room disk (needed_blocks (int (length c))) b \<and> (\<forall>a < b. \<not> room disk (needed_blocks (int (length c))) a)
       \<and> disk_ok disk' \<and> stored disk' = (stored disk)(dest \<mapsto> c)
       \<and> (names_ok (directory (sb_of disk)) \<longrightarrow> names_ok (directory (sb_of disk')))
     else files w' = files w)"
proof (cases "find_name dest (directory (sb_of disk))")
  case (Some i)
  then have "copy_to_virtual may_open src dest w = finish (Already_exists dest) w"
    using load_sb_ok [where may_open = may_open, OF assms(1-3)] by (simp add: copy_to_virtual_def)
  with Some show ?thesis by (simp add: stored_def finish_def)
next
  case None
  let ?n = "needed_blocks (int (length c))"
  have s: "stored disk dest = None" using None by (simp add: stored_def)
  from copy_to_virtual_run [OF assms(1-6) None] show ?thesis
  proof (elim disjE exE conjE)
    fix k b
    assume k: "find_unused (directory (sb_of disk)) = Some k" "c \<noteq> []" "room disk ?n b" "\<forall>a < b. \<not> room disk ?n a"
      "copy_to_virtual may_open src dest w = finish (Saved_file dest (int (length c)) b) (set_file DISK_NAME (Some (with_file dest c k b disk)) w)"
    then have k': "k < MAX_FILES" "used (directory (sb_of disk) ! k) = 0" by (simp_all add: find_unused_Some)
    have t: "take 31 dest = dest" using assms(7) by simp
    note W = with_file_ok [OF assms(1) k' k(2) assms(6) k(3) assms(8)]
    have "stored (with_file dest c k b disk) = (stored disk)(dest \<mapsto> c)"
      using stored_with_file [OF assms(1) k' k(2) assms(6) k(3) assms(8)] None t by simp
    moreover have "names_ok (directory (sb_of disk)) \<Longrightarrow> names_ok (directory (sb_of (with_file dest c k b disk)))"
      unfolding W(2) using names_with_file [OF _ assms(1) k' assms(8)] None t by simp
    ultimately show ?thesis using k s W(1) by (auto simp: finish_def)
  qed (use s in \<open>auto simp: finish_def\<close>)
qed

theorem copy_to_virtual_spec_witness:
  "\<exists>w' disk'. copy_to_virtual (\<lambda>_. True) [65] [66] small_world = Some (0, w') \<and> files w' DISK_NAME = Some disk'
     \<and> stored disk' = [[66] \<mapsto> [1, 2, 3]]"
proof -
  have "\<exists>b. room new_disk (needed_blocks (int (length [1, 2, 3 :: byte]))) b" using small_room by auto
  then show ?thesis
    using copy_to_virtual_spec [OF new_disk_ok, of small_world "\<lambda>_. True" "[65]" "[1, 2, 3]" "[66]"]
    by (simp add: new_disk_empty) (elim exE conjE, auto)
qed

text \<open>C20: What was copied to the disk comes back byte by byte: after a successful copy, copying
  the name out writes a file with the contents of the original.\<close>
theorem copy_in_copy_out:
  assumes "disk_ok disk" and "files w DISK_NAME = Some disk" and "may_open DISK_NAME" "may_open src" "may_open out"
    and "files w src = Some c" "int (length c) \<le> 2147482624" and "length dest \<le> 31" "0 \<notin> set dest"
    and "copy_to_virtual may_open src dest w = Some (0, w')" and "files w' DISK_NAME \<noteq> files w DISK_NAME" and "out \<noteq> DISK_NAME"
  shows "\<exists>w''. copy_from_virtual may_open dest out w' = Some (0, w'') \<and> files w'' = (files w')(out \<mapsto> c)"
proof (cases "find_name dest (directory (sb_of disk))")
  case (Some i)
  then have "copy_to_virtual may_open src dest w = finish (Already_exists dest) w"
    using load_sb_ok [where may_open = may_open, OF assms(1-3)] by (simp add: copy_to_virtual_def)
  with assms(10,11) show ?thesis by (auto simp: finish_def)
next
  case None
  let ?n = "needed_blocks (int (length c))"
  from copy_to_virtual_run [OF assms(1-4,6,7) None] assms(10,11) obtain k b where
    k: "find_unused (directory (sb_of disk)) = Some k" "c \<noteq> []" "room disk ?n b"
    and w': "w' = say (Saved_file dest (int (length c)) b) (set_file DISK_NAME (Some (with_file dest c k b disk)) w)"
    by (auto simp: finish_def)
  from k(1) have k': "k < MAX_FILES" "used (directory (sb_of disk) ! k) = 0" by (simp_all add: find_unused_Some)
  have t: "take 31 dest = dest" using assms(8) by simp
  have "stored (with_file dest c k b disk) dest = Some c"
    using stored_with_file [OF assms(1) k' k(2) assms(7) k(3) assms(9)] None t by simp
  moreover have "files w' DISK_NAME = Some (with_file dest c k b disk)" using w' by simp
  ultimately show ?thesis
    using copy_from_virtual_run [where may_open = may_open, OF with_file_ok(1) [OF assms(1) k' k(2) assms(7) k(3) assms(9)] _ assms(3,12)] assms(5)
    by (simp add: finish_def)
qed

theorem copy_in_copy_out_witness:
  "\<exists>w' w''. copy_to_virtual (\<lambda>_. True) [65] [66] small_world = Some (0, w')
     \<and> copy_from_virtual (\<lambda>_. True) [66] [66] w' = Some (0, w'') \<and> files w'' [66] = Some [1, 2, 3]"
proof -
  from copy_to_virtual_run [OF new_disk_ok, of small_world "\<lambda>_. True" "[65]" "[1, 2, 3]" "[66]"] small_room
  obtain k b where k: "find_unused (directory (sb_of new_disk)) = Some k" "room new_disk (needed_blocks 3) b"
    and c: "copy_to_virtual (\<lambda>_. True) [65] [66] small_world = finish (Saved_file [66] 3 b)
      (set_file DISK_NAME (Some (with_file [66] [1, 2, 3] k b new_disk)) small_world)"
    by (auto simp: new_disk_empty)
  let ?w' = "say (Saved_file [66] 3 b) (set_file DISK_NAME (Some (with_file [66] [1, 2, 3] k b new_disk)) small_world)"
  have "stored (with_file [66] [1, 2, 3] k b new_disk) [66] = Some [1, 2, 3]"
    using stored_with_file [OF new_disk_ok, of 0 "[1, 2, 3]" b "[66]"] k
    by (simp add: new_disk_empty new_directory [THEN arg_cong [where f = "\<lambda>d. d ! 0"]] MAX_FILES_def)
  then have "with_file [66] [1, 2, 3] k b new_disk \<noteq> new_disk" by (auto simp: new_disk_empty)
  then show ?thesis
    using copy_in_copy_out [OF new_disk_ok, of small_world "\<lambda>_. True" "[65]" "[66]" "[1, 2, 3]" "[66]" ?w'] c small_not_disk
    by (auto simp: finish_def)
qed

text \<open>C21: Deleting a stored file from a sound disk whose names are all different removes exactly
  that file: the others stay, byte by byte, and the disk stays sound. An unknown name changes
  nothing.\<close>
theorem delete_file_spec:
  assumes "disk_ok disk" and "names_ok (directory (sb_of disk))" and "files w DISK_NAME = Some disk" and "may_open DISK_NAME"
  shows "\<exists>w'. delete_file may_open n w = Some (0, w') \<and>
    (if stored disk n = None then files w' = files w
     else \<exists>disk'. files w' = (files w)(DISK_NAME \<mapsto> disk') \<and> disk_ok disk' \<and> names_ok (directory (sb_of disk'))
       \<and> stored disk' = (stored disk)(n := None))"
proof (cases "find_name n (directory (sb_of disk))")
  case None
  then show ?thesis using delete_file_run [where may_open = may_open, OF assms(1,3,4)] by (simp add: stored_def finish_def)
next
  case (Some i)
  then have "i < MAX_FILES" by (simp add: find_name_Some)
  with Some show ?thesis
    using delete_file_run [where may_open = may_open, OF assms(1,3,4)] stored_without_file [OF assms(1,2) Some]
      without_file_ok(1) [OF assms(1)]
    by (auto simp: stored_def [of disk n] finish_def)
qed

theorem delete_file_spec_witness:
  "\<exists>w'. delete_file (\<lambda>_. True) [66] small_world = Some (0, w') \<and> files w' = files small_world"
  using delete_file_spec [OF new_disk_ok _ small_files(1), of "\<lambda>_. True" "[66]"] by (simp add: new_disk_empty)

text \<open>C34: The map that is printed for a sound disk is right: it has one line for every file, with
  its blocks; the lines for gaps cover exactly the blocks that no file occupies; and the sizes of
  all lines add up to the size of the disk, so that no block is shown twice.\<close>
theorem show_map_spec:
  assumes "disk_ok disk" and "files w DISK_NAME = Some disk" and "may_open DISK_NAME"
  shows "\<exists>ls. show_map may_open w = Some (0, w\<lparr>printed := printed w @ [Map_heading BLOCK_SIZE] @ ls @ [Blocks_sum 98]\<rparr>)
    \<and> (\<Union>l \<in> set ls. line_free l) = {0 ..< 98} - occupied (directory (sb_of disk))
    \<and> mset (filter is_occupied ls) = image_mset file_line (mset (used_entries (directory (sb_of disk))))
    \<and> sum_list (map line_size ls) = 98"
proof -
  let ?es = "used_entries (directory (sb_of disk))"
  let ?s = "qsort compare_entries ?es"
  note D = disk_okD [OF assms(1)]
  have fits: "\<forall>e \<in> set ?es. entry_fits 98 e" using D(3) by (auto simp: dir_ok_def used_entries_def)
  have small: "0 \<le> start_block e \<and> start_block e \<le> 98" if "e \<in> set ?es" for e
    using fits that needed_blocks_bounds(1) [of "size_bytes e"] by (fastforce simp: entry_fits_def)
  have "sorted (map start_block ?s)"
  proof (rule sorted_qsort)
    fix a b assume "a \<in> set ?es" "b \<in> set ?es"
    then show "compare_entries a b \<le> 0 \<longleftrightarrow> start_block a \<le> start_block b"
      using small [of a] small [of b] by (simp add: compare_entries_def int32_id in_int32_def)
  qed
  then have "in_order 98 0 ?s"
    by (rule in_order_sorted)
      (use fits used_entries_disjoint [OF D(3)] in \<open>auto simp: set_qsort entry_fits_def distinct_count_atmost_1 mset_qsort\<close>)
  from map_lines_spec [OF this] load_sb_ok [where may_open = may_open, OF assms] D(2) show ?thesis
    by (intro exI [of _ "map_lines 98 0 ?s"]) (simp add: show_map_def set_qsort occupied_def mset_qsort)
qed

theorem show_map_spec_witness:
  "\<exists>ls. show_map (\<lambda>_. True) small_world = Some (0, small_world\<lparr>printed := [Map_heading BLOCK_SIZE] @ ls @ [Blocks_sum 98]\<rparr>)
     \<and> sum_list (map line_size ls) = 98"
  using show_map_spec [OF new_disk_ok small_files(1), of "\<lambda>_. True"] by (auto simp: small_world_def)

text \<open>C19: Every command keeps the disk sound: whatever the arguments, with a sound disk or none
  before, the program ends with defined behaviour and a sound disk or none after. (Arguments
  are strings without a zero character; source files are shorter than two gigabytes; and a file
  is not copied out onto the disk itself.)\<close>
theorem fs_main_keeps_disk:
  assumes "\<forall>disk. files w DISK_NAME = Some disk \<longrightarrow> disk_ok disk"
    and "\<forall>f c. files w f = Some c \<longrightarrow> int (length c) \<le> 2147482624" and "\<forall>a \<in> set argv. 0 \<notin> set a"
    and "\<not> (length argv = 3 \<and> argv ! 0 = arg ''-out'' \<and> argv ! 2 = DISK_NAME)"
  shows "\<exists>r w'. fs_main may_open argv w = Some (r, w') \<and> (\<forall>disk. files w' DISK_NAME = Some disk \<longrightarrow> disk_ok disk)"
  using fs_main_keeps [OF assms] unfolding keeps_disk_def .

theorem fs_main_keeps_disk_witness:
  "\<exists>r w'. fs_main (\<lambda>_. True) [arg ''-cp'', [65], [66]] small_world = Some (r, w')
     \<and> (\<forall>disk. files w' DISK_NAME = Some disk \<longrightarrow> disk_ok disk)"
proof (rule fs_main_keeps_disk)
  show "\<forall>f c. files small_world f = Some c \<longrightarrow> int (length c) \<le> 2147482624"
    using disk_okD(4) [OF new_disk_ok] by (auto simp: small_world_def)
qed (use new_disk_ok in \<open>auto simp: arg_def\<close>)

text \<open>A name of more than 31 characters is lost: copying reports success and stores the file
  under the first 31 characters, so the given name is still not found, and neither the check
  for an existing file nor copying out nor deleting can ever see it.\<close>
lemma long_name_lost:
  assumes "disk_ok disk" and "files w DISK_NAME = Some disk" and "may_open DISK_NAME" "may_open src"
    and "files w src = Some c" "c \<noteq> []" "int (length c) \<le> 2147482624" and "31 < length dest" "0 \<notin> set dest"
    and "find_unused (directory (sb_of disk)) \<noteq> None" and "room disk (needed_blocks (int (length c))) a"
  shows "\<exists>b disk' w'. copy_to_virtual may_open src dest w = Some (0, w') \<and> w' = say (Saved_file dest (int (length c)) b) (set_file DISK_NAME (Some disk') w)
    \<and> stored disk' dest = None \<and> delete_file may_open dest w' = finish File_not_found w'"
proof -
  have short: "find_name dest (directory (sb_of d)) = None" if "disk_ok d" for d
  proof -
    note D = disk_okD [OF that]
    have "c_string (name (directory (sb_of d) ! i)) \<noteq> dest" if i: "i < MAX_FILES" for i
    proof -
      let ?n = "name (directory (sb_of d) ! i)"
      have n: "length ?n = 32" "?n ! 31 = 0" using dir_okD [OF D(3) i] by (simp_all add: entry_wf_def)
      then have "length (c_string ?n) \<le> 31" by (rule c_string_short)
      with assms(8) show ?thesis by auto
    qed
    then show ?thesis by (auto simp: find_name_None)
  qed
  from copy_to_virtual_run [OF assms(1-5,7) short [OF assms(1)]] assms(6,10,11) obtain k b where
    k: "find_unused (directory (sb_of disk)) = Some k" "room disk (needed_blocks (int (length c))) b"
      "copy_to_virtual may_open src dest w = finish (Saved_file dest (int (length c)) b) (set_file DISK_NAME (Some (with_file dest c k b disk)) w)"
    by auto
  then have ok: "disk_ok (with_file dest c k b disk)"
    using with_file_ok(1) [OF assms(1) _ _ assms(6,7) _ assms(9)] by (simp add: find_unused_Some)
  let ?w' = "say (Saved_file dest (int (length c)) b) (set_file DISK_NAME (Some (with_file dest c k b disk)) w)"
  have "delete_file may_open dest ?w' = finish File_not_found ?w'"
    using delete_file_run [where may_open = may_open, OF ok _ assms(3), of ?w' dest] short [OF ok] by simp
  moreover have "stored (with_file dest c k b disk) dest = None" using short [OF ok] by (simp add: stored_def)
  ultimately show ?thesis using k(3) by (auto simp: finish_def)
qed

end
