(* ===== verification/Hole_Table.thy ===== *)
theory Hole_Table
  imports Prelude
begin

text \<open>
  The hole table of \<^verbatim>\<open>mm/alloc.c\<close>: the array of \<open>struct hole\<close>, its list of holes and its
  list of unused slots, with \<open>del_slot\<close>, \<open>merge\<close>, \<open>free_mem\<close> and the two searches of
  \<open>alloc_mem\<close>. A \<open>struct hole *\<close> is the number of its slot; \<open>NIL_HOLE\<close> is \<open>None\<close>. The
  abstraction is the list of holes as pairs of numbers \<open>(base, length)\<close>.
\<close>

section \<open>Data\<close>

type_synonym slot = nat
type_synonym clicks = "32 word"

record hole =
  h_next :: "slot option"
  h_base :: clicks
  h_len :: clicks

record hole_table =
  hole :: "slot \<Rightarrow> hole"
  hole_head :: "slot option"
  free_slots :: "slot option"

text \<open>Assignments through a pointer.\<close>

definition set_next :: "slot \<Rightarrow> slot option \<Rightarrow> ('m) hole_table_scheme \<Rightarrow> ('m) hole_table_scheme" where
  "set_next i p s = s\<lparr>hole := (hole s)(i := (hole s i)\<lparr>h_next := p\<rparr>)\<rparr>"

definition set_base :: "slot \<Rightarrow> clicks \<Rightarrow> ('m) hole_table_scheme \<Rightarrow> ('m) hole_table_scheme" where
  "set_base i v s = s\<lparr>hole := (hole s)(i := (hole s i)\<lparr>h_base := v\<rparr>)\<rparr>"

definition set_len :: "slot \<Rightarrow> clicks \<Rightarrow> ('m) hole_table_scheme \<Rightarrow> ('m) hole_table_scheme" where
  "set_len i v s = s\<lparr>hole := (hole s)(i := (hole s i)\<lparr>h_len := v\<rparr>)\<rparr>"

section \<open>Operations\<close>

text \<open>\<open>del_slot\<close>: a null \<open>prev_ptr\<close> is followed only when \<open>hp\<close> is not the head.\<close>

definition del_slot :: "slot option \<Rightarrow> slot \<Rightarrow> ('m) hole_table_scheme \<Rightarrow> ('m) hole_table_scheme res" where
  "del_slot prev_ptr hp s =
     bind_res
       (if Some hp = hole_head s then Ok (s\<lparr>hole_head := h_next (hole s hp)\<rparr>)
        else case prev_ptr of
               None \<Rightarrow> Null_deref
             | Some p \<Rightarrow> Ok (set_next p (h_next (hole s hp)) s))
       (\<lambda>s. Ok ((set_next hp (free_slots s) s)\<lparr>free_slots := Some hp\<rparr>))"

text \<open>\<open>merge\<close>: absorb the successor of \<open>hp\<close> if they touch, else move on to it; then once more.\<close>

definition absorb :: "slot \<Rightarrow> slot \<Rightarrow> ('m) hole_table_scheme \<Rightarrow> ('m) hole_table_scheme res" where
  "absorb hp next_ptr s =
     del_slot (Some hp) next_ptr (set_len hp (h_len (hole s hp) + h_len (hole s next_ptr)) s)"

definition touches :: "('m) hole_table_scheme \<Rightarrow> slot \<Rightarrow> slot \<Rightarrow> bool" where
  "touches s hp next_ptr \<longleftrightarrow> h_base (hole s hp) + h_len (hole s hp) = h_base (hole s next_ptr)"

definition merge :: "slot \<Rightarrow> ('m) hole_table_scheme \<Rightarrow> ('m) hole_table_scheme res" where
  "merge hp s =
     (case h_next (hole s hp) of
        None \<Rightarrow> Ok s
      | Some next_ptr \<Rightarrow>
          bind_res
            (if touches s hp next_ptr
             then bind_res (absorb hp next_ptr s) (\<lambda>s. Ok (hp, s))
             else Ok (next_ptr, s))
            (\<lambda>(hp, s).
               case h_next (hole s hp) of
                 None \<Rightarrow> Ok s
               | Some next_ptr \<Rightarrow> if touches s hp next_ptr then absorb hp next_ptr s else Ok s))"

text \<open>The walk of \<open>free_mem\<close> to the last hole below \<open>base\<close>.\<close>

fun find_prev :: "nat \<Rightarrow> ('m) hole_table_scheme \<Rightarrow> clicks \<Rightarrow> slot option \<Rightarrow> slot option
    \<Rightarrow> slot option res" where
  "find_prev 0 s base prev_ptr hp = Hang"
| "find_prev (Suc n) s base prev_ptr hp =
     (case hp of
        None \<Rightarrow> Ok prev_ptr
      | Some h \<Rightarrow> if h_base (hole s h) < base then find_prev n s base (Some h) (h_next (hole s h))
                  else Ok prev_ptr)"

definition free_mem :: "nat \<Rightarrow> clicks \<Rightarrow> clicks \<Rightarrow> ('m) hole_table_scheme
    \<Rightarrow> ('m) hole_table_scheme res" where
  "free_mem nr_holes base clicks s =
     (if clicks = 0 then Ok s
      else case free_slots s of
        None \<Rightarrow> Panic ''Hole table full''
      | Some new_ptr \<Rightarrow>
          (let next_free = h_next (hole s new_ptr);
               s = (set_len new_ptr clicks (set_base new_ptr base s))\<lparr>free_slots := next_free\<rparr>;
               front = (case hole_head s of None \<Rightarrow> True | Some hp \<Rightarrow> base \<le> h_base (hole s hp))
           in if front
              then merge new_ptr ((set_next new_ptr (hole_head s) s)\<lparr>hole_head := Some new_ptr\<rparr>)
              else bind_res (find_prev (Suc nr_holes) s base None (hole_head s))
                (\<lambda>prev. case prev of
                    None \<Rightarrow> Null_deref
                  | Some prev_ptr \<Rightarrow>
                      merge prev_ptr (set_next prev_ptr (Some new_ptr)
                        (set_next new_ptr (h_next (hole s prev_ptr)) s)))))"

text \<open>Taking \<open>clicks\<close> off the front of a hole; the same five lines in both halves of
  \<open>alloc_mem\<close> and in \<open>swap_out\<close>.\<close>

definition bite :: "slot option \<Rightarrow> slot \<Rightarrow> clicks \<Rightarrow> ('m) hole_table_scheme
    \<Rightarrow> (clicks \<times> ('m) hole_table_scheme) res" where
  "bite prev_ptr hp clicks s =
     (let old_base = h_base (hole s hp);
          s = set_len hp (h_len (hole s hp) - clicks) (set_base hp (old_base + clicks) s)
      in if h_len (hole s hp) = 0
         then bind_res (del_slot prev_ptr hp s) (\<lambda>s. Ok (old_base, s))
         else Ok (old_base, s))"

text \<open>First fit: the first hole below \<open>limit\<close> that is long enough, with its predecessor.\<close>

fun first_fit :: "nat \<Rightarrow> clicks \<Rightarrow> clicks \<Rightarrow> ('m) hole_table_scheme \<Rightarrow> slot option \<Rightarrow> slot option
    \<Rightarrow> (slot option \<times> slot) option res" where
  "first_fit 0 limit clicks s prev_ptr hp = Hang"
| "first_fit (Suc n) limit clicks s prev_ptr hp =
     (case hp of
        None \<Rightarrow> Ok None
      | Some h \<Rightarrow>
          if h_base (hole s h) < limit
          then if clicks \<le> h_len (hole s h) then Ok (Some (prev_ptr, h))
               else first_fit n limit clicks s (Some h) (h_next (hole s h))
          else Ok None)"

text \<open>Worst fit: the first of the longest holes that are long enough.\<close>

fun worst_fit :: "nat \<Rightarrow> clicks \<Rightarrow> ('m) hole_table_scheme \<Rightarrow> slot option \<Rightarrow> slot option
    \<Rightarrow> (slot option \<times> slot) option \<Rightarrow> clicks \<Rightarrow> (slot option \<times> slot) option res" where
  "worst_fit 0 clicks s prev_h h best max_len = Hang"
| "worst_fit (Suc n) clicks s prev_h h best max_len =
     (case h of
        None \<Rightarrow> Ok best
      | Some i \<Rightarrow>
          if clicks \<le> h_len (hole s i) \<and> max_len < h_len (hole s i)
          then worst_fit n clicks s (Some i) (h_next (hole s i)) (Some (prev_h, i)) (h_len (hole s i))
          else worst_fit n clicks s (Some i) (h_next (hole s i)) best max_len)"

definition alloc_worst :: "nat \<Rightarrow> clicks \<Rightarrow> ('m) hole_table_scheme
    \<Rightarrow> (clicks option \<times> ('m) hole_table_scheme) res" where
  "alloc_worst nr_holes clicks s =
     bind_res (worst_fit (Suc nr_holes) clicks s None (hole_head s) None 0)
       (\<lambda>best. case best of
          None \<Rightarrow> Ok (None, s)
        | Some (best_prev, best_h) \<Rightarrow>
            bind_res (bite best_prev best_h clicks s) (\<lambda>(b, s). Ok (Some b, s)))"

definition alloc_first :: "nat \<Rightarrow> clicks \<Rightarrow> clicks \<Rightarrow> ('m) hole_table_scheme
    \<Rightarrow> (clicks option \<times> ('m) hole_table_scheme) res" where
  "alloc_first nr_holes limit clicks s =
     bind_res (first_fit (Suc nr_holes) limit clicks s None (hole_head s))
       (\<lambda>found. case found of
          None \<Rightarrow> Ok (None, s)
        | Some (prev_ptr, hp) \<Rightarrow>
            bind_res (bite prev_ptr hp clicks s) (\<lambda>(b, s). Ok (Some b, s)))"

section \<open>Abstraction\<close>

definition nxt :: "('m) hole_table_scheme \<Rightarrow> slot \<Rightarrow> slot option" where
  "nxt s i = h_next (hole s i)"

definition span :: "('m) hole_table_scheme \<Rightarrow> slot \<Rightarrow> nat \<times> nat" where
  "span s i = (unat (h_base (hole s i)), unat (h_len (hole s i)))"

text \<open>The two lists of the table, and nothing shared between them.\<close>

definition hole_lists :: "('m) hole_table_scheme \<Rightarrow> slot list \<Rightarrow> slot list \<Rightarrow> bool" where
  "hole_lists s xs fs \<longleftrightarrow> linked (nxt s) (hole_head s) xs \<and> linked (nxt s) (free_slots s) fs
     \<and> set xs \<inter> set fs = {}"

definition before :: "nat \<times> nat \<Rightarrow> nat \<times> nat \<Rightarrow> bool" where
  "before h h' \<longleftrightarrow> fst h + snd h < fst h'"

text \<open>Sorted by address, no hole empty, no two holes overlapping or touching, every hole
  inside the address range.\<close>

definition wf_holes :: "(nat \<times> nat) list \<Rightarrow> bool" where
  "wf_holes hs \<longleftrightarrow> sorted_wrt before hs \<and> (\<forall>h \<in> set hs. 0 < snd h \<and> fst h + snd h < 2 ^ 32)"

definition clicks_of :: "(nat \<times> nat) list \<Rightarrow> nat set" where
  "clicks_of hs = (\<Union>h \<in> set hs. {fst h ..< fst h + snd h})"

lemma clicks_of_simps [simp]:
  "clicks_of [] = {}"
  "clicks_of (h # hs) = {fst h ..< fst h + snd h} \<union> clicks_of hs"
  "clicks_of (hs @ hs') = clicks_of hs \<union> clicks_of hs'"
  by (auto simp: clicks_of_def)

end
