(* ===== verification/Hole_Lists.thy ===== *)
theory Hole_Lists
  imports Hole_Table
begin

text \<open>
  How the pointer operations of the hole table act on the two lists and on the spans of the
  holes: \<open>del_slot\<close>, \<open>absorb\<close>, \<open>merge\<close> and \<open>bite\<close> as operations on lists.
\<close>

named_theorems hole_simps \<open>selectors of the hole table after an assignment\<close>

lemma set_next_sel [hole_simps]:
  "nxt (set_next i p s) = (nxt s)(i := p)" "span (set_next i p s) = span s"
  "hole_head (set_next i p s) = hole_head s" "free_slots (set_next i p s) = free_slots s"
  "hole_table.more (set_next i p s) = hole_table.more s"
  by (auto simp: set_next_def span_def nxt_def fun_eq_iff)

lemma set_base_sel [hole_simps]:
  "nxt (set_base i v s) = nxt s" "span (set_base i v s) = (span s)(i := (unat v, snd (span s i)))"
  "hole_head (set_base i v s) = hole_head s" "free_slots (set_base i v s) = free_slots s"
  "hole_table.more (set_base i v s) = hole_table.more s"
  by (auto simp: set_base_def span_def nxt_def fun_eq_iff)

lemma set_len_sel [hole_simps]:
  "nxt (set_len i v s) = nxt s" "span (set_len i v s) = (span s)(i := (fst (span s i), unat v))"
  "hole_head (set_len i v s) = hole_head s" "free_slots (set_len i v s) = free_slots s"
  "hole_table.more (set_len i v s) = hole_table.more s"
  by (auto simp: set_len_def span_def nxt_def fun_eq_iff)

lemma head_upd_sel [hole_simps]:
  "nxt (s\<lparr>hole_head := p\<rparr>) = nxt s" "span (s\<lparr>hole_head := p\<rparr>) = span s"
  "nxt (s\<lparr>free_slots := p\<rparr>) = nxt s" "span (s\<lparr>free_slots := p\<rparr>) = span s"
  "hole_table.more (s\<lparr>hole_head := p\<rparr>) = hole_table.more s"
  "hole_table.more (s\<lparr>free_slots := p\<rparr>) = hole_table.more s"
  by (auto simp: span_def nxt_def fun_eq_iff)

lemma hole_of_nxt [simp]: "h_next (hole s i) = nxt s i"
  by (simp add: nxt_def)

lemma lists_distinct: "hole_lists s xs fs \<Longrightarrow> distinct xs \<and> distinct fs"
  by (auto simp: hole_lists_def dest: linked_distinct)

text \<open>The predecessor a walk carries along: the last element of what it has passed.\<close>

definition last_of :: "slot list \<Rightarrow> slot option" where
  "last_of us = (if us = [] then None else Some (last us))"

lemma last_of_simps [simp]: "last_of [] = None" "last_of (us @ [x]) = Some x"
  by (simp_all add: last_of_def)

lemma lists_next: "hole_lists s (us @ x # vs) fs \<Longrightarrow> nxt s x = (case vs of [] \<Rightarrow> None | v # _ \<Rightarrow> Some v)"
  by (auto simp: hole_lists_def chain_append split: list.split)

lemma lists_head: "hole_lists s (us @ x # vs) fs \<Longrightarrow> hole_head s = (case us of [] \<Rightarrow> Some x | u # _ \<Rightarrow> Some u)"
  by (auto simp: hole_lists_def chain_append split: list.split)

section \<open>del_slot\<close>

lemma del_slot_lists:
  assumes l: "hole_lists s (us @ x # vs) fs"
  shows "\<exists>s'. del_slot (last_of us) x s = Ok s' \<and> hole_lists s' (us @ vs) (x # fs)
    \<and> span s' = span s \<and> hole_table.more s' = hole_table.more s"
proof -
  have d: "distinct (us @ x # vs)" "distinct fs" using lists_distinct [OF l] by auto
  have disj: "set (us @ x # vs) \<inter> set fs = {}" and f: "linked (nxt s) (free_slots s) fs"
    and h: "linked (nxt s) (hole_head s) (us @ x # vs)" using l by (auto simp: hole_lists_def)
  show ?thesis
  proof (cases us rule: rev_cases)
    case Nil
    let ?s = "(set_next x (free_slots s) (s\<lparr>hole_head := nxt s x\<rparr>))\<lparr>free_slots := Some x\<rparr>"
    have hd: "hole_head s = Some x" using h Nil by simp
    then have "del_slot (last_of us) x s = Ok ?s"
      by (simp add: del_slot_def)
    moreover have "hole_lists ?s vs (x # fs)"
      using h f d disj Nil by (auto simp: hole_lists_def hole_simps)
    ultimately show ?thesis using Nil by (auto simp: hole_simps)
  next
    case (snoc ws p)
    let ?s = "(set_next x (free_slots s) (set_next p (nxt s x) s))\<lparr>free_slots := Some x\<rparr>"
    have "hole_head s \<noteq> Some x" using lists_head [OF l] d snoc by (cases ws) auto
    then have "del_slot (last_of us) x s = Ok ?s"
      using snoc by (auto simp: del_slot_def hole_simps)
    moreover have "hole_lists ?s (us @ vs) (x # fs)"
    proof -
      have "linked ((nxt s)(p := nxt s x)) (hole_head s) (ws @ p # vs)"
        by (rule linked_unlink) (use h snoc in simp)
      moreover have "x \<notin> set (ws @ p # vs)" using d snoc by auto
      ultimately have "linked ((nxt s)(p := nxt s x, x := free_slots s)) (hole_head s) (ws @ p # vs)"
        by (simp add: chain_fun_upd del: fun_upd_apply)
      moreover have "p \<notin> set fs" "x \<notin> set fs" "p \<noteq> x" "x \<notin> set ws" "x \<notin> set vs"
        using d disj snoc by auto
      ultimately show ?thesis using f disj snoc by (auto simp: hole_lists_def hole_simps)
    qed
    ultimately show ?thesis by (auto simp: hole_simps)
  qed
qed

lemma del_slot_after:
  assumes "hole_lists s (us @ p # x # vs) fs"
  shows "\<exists>s'. del_slot (Some p) x s = Ok s' \<and> hole_lists s' (us @ p # vs) (x # fs)
    \<and> span s' = span s \<and> hole_table.more s' = hole_table.more s"
  using del_slot_lists [of s "us @ [p]" x vs fs] assms by simp

section \<open>absorb and merge\<close>

lemma lists_set_len [simp]: "hole_lists (set_len i v s) xs fs = hole_lists s xs fs"
  by (simp add: hole_lists_def hole_simps)

lemma lists_set_base [simp]: "hole_lists (set_base i v s) xs fs = hole_lists s xs fs"
  by (simp add: hole_lists_def hole_simps)

lemma span_conv: "h_base (hole s i) = of_nat (fst (span s i))" "h_len (hole s i) = of_nat (snd (span s i))"
  by (simp_all add: span_def)

lemma unat_add_small: "unat (a :: clicks) + unat b < 2 ^ 32 \<Longrightarrow> unat (a + b) = unat a + unat b"
  by (simp add: unat_word_ariths)

lemma touches_iff:
  assumes "fst (span s i) + snd (span s i) < 2 ^ 32"
  shows "touches s i j \<longleftrightarrow> fst (span s i) + snd (span s i) = fst (span s j)"
proof -
  have "unat (h_base (hole s i) + h_len (hole s i)) = fst (span s i) + snd (span s i)"
    using assms by (simp add: span_def unat_add_small)
  then show ?thesis by (metis touches_def span_def fst_conv word_unat_eq_iff)
qed

lemma absorb_lists:
  assumes l: "hole_lists s (us @ p # x # vs) fs" and b: "snd (span s p) + snd (span s x) < 2 ^ 32"
  shows "\<exists>s'. absorb p x s = Ok s' \<and> hole_lists s' (us @ p # vs) (x # fs)
    \<and> span s' = (span s)(p := (fst (span s p), snd (span s p) + snd (span s x)))
    \<and> hole_table.more s' = hole_table.more s"
proof -
  let ?t = "set_len p (h_len (hole s p) + h_len (hole s x)) s"
  have "unat (h_len (hole s p) + h_len (hole s x)) = snd (span s p) + snd (span s x)"
    using b by (simp add: span_def unat_add_small)
  moreover have "hole_lists ?t (us @ p # x # vs) fs" using l by simp
  ultimately show ?thesis
    unfolding absorb_def using del_slot_after [of ?t us p x vs fs] by (auto simp: hole_simps)
qed

text \<open>What one half of \<open>merge\<close> does to the spans of a hole and its successor.\<close>

fun join :: "nat \<times> nat \<Rightarrow> nat \<times> nat \<Rightarrow> (nat \<times> nat) list" where
  "join (b, l) (b', l') = (if b + l = b' then [(b, l + l')] else [(b, l), (b', l')])"

definition room :: "(nat \<times> nat) list \<Rightarrow> bool" where
  "room hs \<longleftrightarrow> (\<forall>h \<in> set hs. 0 < snd h \<and> fst h + snd h < 2 ^ 32)"

lemma join_step:
  assumes l: "hole_lists s (us @ p # x # vs) fs" and r: "room (map (span s) (us @ p # x # vs))"
  shows "\<exists>t q zs gs.
      (if touches s p x then bind_res (absorb p x s) (\<lambda>s. Ok (p, s)) else Ok (x, s)) = Ok (q, t)
      \<and> hole_lists t (us @ zs @ vs) gs \<and> q = last zs \<and> zs \<noteq> []
      \<and> map (span t) (us @ zs @ vs) = map (span s) us @ join (span s p) (span s x) @ map (span s) vs
      \<and> room (map (span t) (us @ zs @ vs)) \<and> length zs + length gs = length fs + 2
      \<and> set (us @ zs @ vs) \<union> set gs = set (us @ p # x # vs) \<union> set fs
      \<and> (\<forall>i \<in> set us. span t i = span s i)
      \<and> hole_table.more t = hole_table.more s"
proof -
  have d: "distinct (us @ p # x # vs)" using lists_distinct [OF l] by blast
  have bp: "fst (span s p) + snd (span s p) < 2 ^ 32" and bx: "fst (span s x) + snd (span s x) < 2 ^ 32"
    using r by (auto simp: room_def)
  show ?thesis
  proof (cases "touches s p x")
    case True
    then have e: "fst (span s p) + snd (span s p) = fst (span s x)" using touches_iff [OF bp] by simp
    then obtain t where t: "absorb p x s = Ok t" "hole_lists t (us @ p # vs) (x # fs)"
      "span t = (span s)(p := (fst (span s p), snd (span s p) + snd (span s x)))"
      "hole_table.more t = hole_table.more s"
      using absorb_lists [OF l] bx by fastforce
    have n: "p \<notin> set us" "p \<notin> set vs" using d by auto
    then have m: "map (span t) us = map (span s) us" "map (span t) vs = map (span s) vs"
      "\<forall>i \<in> set us. span t i = span s i"
      using t(3) by auto
    have "map (span t) (us @ [p] @ vs) = map (span s) us @ join (span s p) (span s x) @ map (span s) vs"
      using m t(3) e by (cases "span s p"; cases "span s x") auto
    moreover have "room (map (span t) (us @ [p] @ vs))"
      using m r t(3) e bx by (auto simp: room_def)
    ultimately show ?thesis using True t m
      by (intro exI [of _ t] exI [of _ p] exI [of _ "[p]"] exI [of _ "x # fs"]) auto
  next
    case False
    then have "fst (span s p) + snd (span s p) \<noteq> fst (span s x)" using touches_iff [OF bp] by simp
    then have "join (span s p) (span s x) = [span s p, span s x]"
      by (cases "span s p"; cases "span s x") auto
    with False l r show ?thesis
      by (intro exI [of _ s] exI [of _ x] exI [of _ "[p, x]"] exI [of _ fs]) auto
  qed
qed


fun merge_spans :: "(nat \<times> nat) list \<Rightarrow> (nat \<times> nat) list" where
  "merge_spans [] = []"
| "merge_spans [h] = [h]"
| "merge_spans [h, h'] = join h h'"
| "merge_spans (h # h' # h'' # hs) = butlast (join h h') @ join (last (join h h')) h'' @ hs"

lemma map_span_last:
  assumes "zs \<noteq> []" and "map (span t) zs = js"
  shows "map (span t) (butlast zs) = butlast js" and "span t (last zs) = last js"
  using assms by (auto simp: map_butlast last_map)

lemma map_append_split: "map f xs @ ys = map g xs @ zs \<Longrightarrow> map f xs = map g xs \<and> ys = zs"
  by simp

lemma map_append_split_right: "ys @ map f xs = zs @ map g xs \<Longrightarrow> ys = zs \<and> map f xs = map g xs"
  by simp

text \<open>\<open>merge\<close> on a hole in the middle of the list.\<close>

lemma merge_lists:
  assumes l: "hole_lists s (us @ p # vs) fs" and r: "room (map (span s) (us @ p # vs))"
  shows "\<exists>t xs gs. merge p s = Ok t \<and> hole_lists t xs gs
    \<and> map (span t) xs = map (span s) us @ merge_spans (map (span s) (p # vs))
    \<and> length xs + length gs = length (us @ p # vs) + length fs
    \<and> set xs \<union> set gs = set (us @ p # vs) \<union> set fs
    \<and> hole_table.more t = hole_table.more s"
proof (cases vs)
  case Nil
  then have "nxt s p = None" using lists_next [OF l] by simp
  then have "merge p s = Ok s" by (simp add: merge_def)
  with l Nil show ?thesis by (intro exI [of _ s] exI [of _ "us @ [p]"] exI [of _ fs]) auto
next
  case (Cons x ws)
  have n1: "nxt s p = Some x" using lists_next [OF l] Cons by simp
  from join_step [of s us p x ws fs] l r Cons obtain t q zs gs where t:
    "(if touches s p x then bind_res (absorb p x s) (\<lambda>s. Ok (p, s)) else Ok (x, s)) = Ok (q, t)"
    "hole_lists t (us @ zs @ ws) gs" "q = last zs" "zs \<noteq> []"
    "map (span t) (us @ zs @ ws) = map (span s) us @ join (span s p) (span s x) @ map (span s) ws"
    "room (map (span t) (us @ zs @ ws))" "length zs + length gs = length fs + 2"
    "set (us @ zs @ ws) \<union> set gs = set (us @ p # x # ws) \<union> set fs"
    "hole_table.more t = hole_table.more s" by auto
  have zl: "us @ zs @ ws = (us @ butlast zs) @ q # ws" using t(3,4) by simp
  have lt: "hole_lists t ((us @ butlast zs) @ q # ws) gs" using t(2) zl by simp
  show ?thesis
  proof (cases ws)
    case Nil
    then have "nxt t q = None" using lists_next [OF lt] by simp
    then have "merge p s = Ok t" using n1 t(1) by (simp add: merge_def)
    then show ?thesis using t Nil Cons
      by (intro exI [of _ t] exI [of _ "us @ zs"] exI [of _ gs]) auto
  next
    case (Cons y ys)
    then have n2: "nxt t q = Some y" using lists_next [OF lt] by simp
    have m: "map (span t) us = map (span s) us" "map (span t) zs = join (span s p) (span s x)"
      "map (span t) ws = map (span s) ws"
      using t(5) map_append_split [of "span t" us _ "span s"] map_append_split_right [of _ "span t" ws _ "span s"]
      by (metis map_append)+
    have lt': "hole_lists t ((us @ butlast zs) @ q # y # ys) gs" using lt Cons by simp
    have rt: "room (map (span t) ((us @ butlast zs) @ q # y # ys))"
      using t(6) zl Cons by metis
    from join_step [OF lt' rt] obtain t' q' zs' gs' where t':
      "(if touches t q y then bind_res (absorb q y t) (\<lambda>s. Ok (q, s)) else Ok (y, t)) = Ok (q', t')"
      "hole_lists t' ((us @ butlast zs) @ zs' @ ys) gs'" "zs' \<noteq> []"
      "map (span t') ((us @ butlast zs) @ zs' @ ys)
        = map (span t) (us @ butlast zs) @ join (span t q) (span t y) @ map (span t) ys"
      "length zs' + length gs' = length gs + 2"
      "set ((us @ butlast zs) @ zs' @ ys) \<union> set gs' = set ((us @ butlast zs) @ q # y # ys) \<union> set gs"
      "hole_table.more t' = hole_table.more t" by blast
    have "merge p s = Ok t'" using n1 n2 t(1) t'(1)
      by (auto simp: merge_def bind_res_Ok_iff split: if_splits)
    moreover have "map (span t') ((us @ butlast zs) @ zs' @ ys)
        = map (span s) us @ merge_spans (map (span s) (p # vs))"
      using t'(4) m Cons \<open>vs = x # ws\<close> map_span_last [OF t(4) m(2)] t(3) by simp
    moreover have "length ((us @ butlast zs) @ zs' @ ys) + length gs' = length (us @ p # vs) + length fs"
      using t'(5) t(4,7) Cons \<open>vs = x # ws\<close> by (cases zs rule: rev_cases) auto
    moreover have "set ((us @ butlast zs) @ zs' @ ys) \<union> set gs' = set (us @ p # vs) \<union> set fs"
    proof -
      have "set ((us @ butlast zs) @ q # y # ys) = set (us @ zs @ ws)" using zl Cons by metis
      with t'(6) t(8) \<open>vs = x # ws\<close> show ?thesis by (simp only:)
    qed
    moreover have "hole_table.more t' = hole_table.more s" using t'(7) t(9) by (rule trans)
    moreover note t'(2)
    ultimately show ?thesis
      by (intro exI [of _ t'] exI [of _ "(us @ butlast zs) @ zs' @ ys"] exI [of _ gs'] conjI)
  qed
qed

end
