(* ===== verification/Region.thy ===== *)
theory Region
  imports Hole_Table
begin

text \<open>
  The interface of a region allocator: a store represents a list of holes, \<open>take\<close> cuts a
  block out of the free clicks or refuses, \<open>give\<close> adds a block. Clients get: a list of
  holes is determined by its clicks, giving back what was just taken restores it, and any
  sequence of requests conserves memory.
\<close>

section \<open>A list of holes is determined by its clicks\<close>

lemma clicks_ge:
  assumes "wf_holes (h # hs)" and "x \<in> clicks_of (h # hs)"
  shows "fst h \<le> x"
  using assms by (force simp: wf_holes_def before_def clicks_of_def)

lemma clicks_gap:
  assumes "wf_holes (h # hs)" shows "fst h + snd h \<notin> clicks_of (h # hs)"
  using assms by (force simp: wf_holes_def before_def clicks_of_def)

lemma clicks_tail:
  assumes "wf_holes (h # hs)"
  shows "clicks_of hs = clicks_of (h # hs) - {fst h ..< fst h + snd h}"
  using assms by (force simp: wf_holes_def before_def clicks_of_def)

lemma clicks_empty: "wf_holes hs \<Longrightarrow> clicks_of hs = {} \<longleftrightarrow> hs = []"
  by (cases hs) (auto simp: wf_holes_def)

lemma clicks_head_le:
  assumes "wf_holes (h # hs)" "wf_holes (g # gs)" "clicks_of (h # hs) = clicks_of (g # gs)"
  shows "fst h \<le> fst g"
proof -
  have "fst g \<in> clicks_of (g # gs)" using assms(2) by (auto simp: wf_holes_def)
  with assms(1,3) show ?thesis using clicks_ge by metis
qed

lemma clicks_head_len:
  assumes "wf_holes (h # hs)" "wf_holes (g # gs)" "clicks_of (h # hs) = clicks_of (g # gs)"
    and "fst h = fst g"
  shows "snd g \<le> snd h"
proof (rule ccontr)
  assume "\<not> ?thesis"
  then have "fst h + snd h \<in> clicks_of (g # gs)" using assms(4) by simp
  moreover have "fst h + snd h \<notin> clicks_of (g # gs)" using clicks_gap [OF assms(1)] assms(3) by metis
  ultimately show False by contradiction
qed

lemma wf_holes_unique: "wf_holes hs \<Longrightarrow> wf_holes gs \<Longrightarrow> clicks_of hs = clicks_of gs \<Longrightarrow> hs = gs"
proof (induction hs arbitrary: gs)
  case Nil
  then show ?case using clicks_empty [of gs] by simp
next
  case (Cons h hs)
  then obtain g gs' where gs: "gs = g # gs'"
    using clicks_empty [OF Cons.prems(1)] by (cases gs) auto
  note p = Cons.prems [unfolded gs]
  have "fst h = fst g" using clicks_head_le [OF p] clicks_head_le [OF p(2,1) p(3) [symmetric]] by simp
  moreover from this have "snd h = snd g"
    using clicks_head_len [OF p] clicks_head_len [OF p(2,1) p(3) [symmetric]] by simp
  ultimately have e: "h = g" by (simp add: prod_eq_iff)
  have "clicks_of hs = clicks_of gs'" using clicks_tail [OF p(1)] clicks_tail [OF p(2)] p(3) e by simp
  moreover have "wf_holes hs" "wf_holes gs'" using p(1,2) by (simp_all add: wf_holes_def)
  ultimately show ?case using Cons.IH e gs by blast
qed

section \<open>The interface\<close>

definition block :: "clicks \<Rightarrow> clicks \<Rightarrow> nat set" where
  "block b c = {unat b ..< unat b + unat c}"

datatype request = Take clicks | Give nat

text \<open>A client: it takes blocks and gives back the \<open>i\<close>-th block it holds.\<close>

fun serve :: "(clicks \<Rightarrow> 's \<Rightarrow> (clicks option \<times> 's) res) \<Rightarrow> (clicks \<Rightarrow> clicks \<Rightarrow> 's \<Rightarrow> 's res)
    \<Rightarrow> request list \<Rightarrow> (clicks \<times> clicks) list \<Rightarrow> 's \<Rightarrow> ((clicks \<times> clicks) list \<times> 's) res" where
  "serve tk gv [] live s = Ok (live, s)"
| "serve tk gv (Take c # rs) live s =
     bind_res (tk c s) (\<lambda>(r, s). serve tk gv rs (case r of None \<Rightarrow> live | Some b \<Rightarrow> (b, c) # live) s)"
| "serve tk gv (Give i # rs) live s =
     (if i < length live
      then bind_res (gv (fst (live ! i)) (snd (live ! i)) s)
             (serve tk gv rs (take i live @ drop (Suc i) live))
      else serve tk gv rs live s)"

text \<open>Memory is conserved: the blocks held are disjoint from each other and from the holes,
  and together they are the memory \<open>M\<close>.\<close>

definition held :: "clicks \<times> clicks \<Rightarrow> nat set" where
  "held p = block (fst p) (snd p)"

definition conserved :: "nat set \<Rightarrow> (clicks \<times> clicks) list \<Rightarrow> (nat \<times> nat) list \<Rightarrow> bool" where
  "conserved M live hs \<longleftrightarrow>
     (\<forall>p \<in> set live. snd p \<noteq> 0 \<and> unat (fst p) + unat (snd p) < 2 ^ 32 \<and> held p \<inter> clicks_of hs = {})
     \<and> sorted_wrt (\<lambda>p q. held p \<inter> held q = {}) live
     \<and> (\<Union>p \<in> set live. held p) \<union> clicks_of hs = M"

lemma conserved_take:
  assumes "conserved M live hs" and "c \<noteq> 0" "unat b + unat c < 2 ^ 32"
    and b: "block b c \<subseteq> clicks_of hs" and g: "clicks_of gs = clicks_of hs - block b c"
  shows "conserved M ((b, c) # live) gs"
proof -
  have "held (b, c) \<union> clicks_of gs = clicks_of hs" "held (b, c) \<inter> clicks_of gs = {}"
    using b g by (auto simp: held_def)
  moreover have "held (b, c) \<subseteq> clicks_of hs" using b by (simp add: held_def)
  moreover from this have "\<forall>p \<in> set live. held (b, c) \<inter> held p = {}"
    using assms(1) unfolding conserved_def by blast
  moreover have "\<forall>p \<in> set live. held p \<inter> clicks_of gs = {}"
    using assms(1) g unfolding conserved_def by blast
  ultimately show ?thesis using assms(1-3) unfolding conserved_def by auto
qed

lemma conserved_give:
  assumes c: "conserved M live hs" and i: "i < length live"
    and g: "clicks_of gs = clicks_of hs \<union> held (live ! i)"
  shows "conserved M (take i live @ drop (Suc i) live) gs"
proof -
  define us vs where uv: "us = take i live" "vs = drop (Suc i) live"
  have l: "live = us @ live ! i # vs" unfolding uv using i by (rule id_take_nth_drop)
  have "conserved M (us @ live ! i # vs) hs" using c l by metis
  then have "conserved M (us @ vs) gs" using g unfolding conserved_def sorted_wrt_append
    by (auto 0 4)
  then show ?thesis by (simp add: uv)
qed

lemma conserved_nth:
  "conserved M live hs \<Longrightarrow> i < length live \<Longrightarrow>
   snd (live ! i) \<noteq> 0 \<and> unat (fst (live ! i)) + unat (snd (live ! i)) < 2 ^ 32
   \<and> block (fst (live ! i)) (snd (live ! i)) \<inter> clicks_of hs = {}"
  unfolding conserved_def held_def by simp

locale region_allocator =
  fixes ok :: "'s \<Rightarrow> (nat \<times> nat) list \<Rightarrow> bool"
    and tk :: "clicks \<Rightarrow> 's \<Rightarrow> (clicks option \<times> 's) res"
    and gv :: "clicks \<Rightarrow> clicks \<Rightarrow> 's \<Rightarrow> 's res"
    and slots :: nat
  assumes ok_wf: "ok s hs \<Longrightarrow> wf_holes hs"
    and take_ok: "ok s hs \<Longrightarrow> c \<noteq> 0 \<Longrightarrow> \<exists>r t gs. tk c s = Ok (r, t) \<and> ok t gs \<and> length gs \<le> length hs \<and>
      (case r of None \<Rightarrow> gs = hs
       | Some b \<Rightarrow> unat b + unat c < 2 ^ 32 \<and> block b c \<subseteq> clicks_of hs
           \<and> clicks_of gs = clicks_of hs - block b c)"
    and give_ok: "ok s hs \<Longrightarrow> c \<noteq> 0 \<Longrightarrow> unat b + unat c < 2 ^ 32 \<Longrightarrow> block b c \<inter> clicks_of hs = {} \<Longrightarrow>
      length hs < slots \<Longrightarrow>
      \<exists>t gs. gv b c s = Ok t \<and> ok t gs \<and> clicks_of gs = clicks_of hs \<union> block b c"
    and give_full: "ok s hs \<Longrightarrow> c \<noteq> 0 \<Longrightarrow> slots \<le> length hs \<Longrightarrow> \<exists>m. gv b c s = Panic m"
begin

lemma take_then_give:
  assumes ok: "ok s hs" and c: "c \<noteq> 0" and room: "length hs < slots" and t: "tk c s = Ok (Some b, t)"
  shows "\<exists>u. gv b c t = Ok u \<and> ok u hs"
proof -
  from take_ok [OF ok c] t obtain gs where gs: "ok t gs" "length gs \<le> length hs"
    "unat b + unat c < 2 ^ 32" "block b c \<subseteq> clicks_of hs" "clicks_of gs = clicks_of hs - block b c"
    by auto
  from give_ok [OF gs(1) c gs(3)] gs room obtain u hs' where u: "gv b c t = Ok u" "ok u hs'"
    "clicks_of hs' = clicks_of gs \<union> block b c" by auto
  have "clicks_of hs' = clicks_of hs" using u(3) gs(4,5) by blast
  with wf_holes_unique [OF ok_wf [OF u(2)] ok_wf [OF ok]] u show ?thesis by simp
qed

lemma serve_conserves:
  assumes "ok s hs" and "conserved M live hs" and "\<forall>c. Take c \<in> set rs \<longrightarrow> c \<noteq> 0"
  shows "(\<exists>m. serve tk gv rs live s = Panic m) \<or>
    (\<exists>live' t gs. serve tk gv rs live s = Ok (live', t) \<and> ok t gs \<and> conserved M live' gs)"
  using assms
proof (induction rs arbitrary: live s hs)
  case Nil
  then show ?case by auto
next
  case (Cons q rs)
  have pos: "\<forall>c. Take c \<in> set rs \<longrightarrow> c \<noteq> 0" using Cons.prems(3) by simp
  show ?case
  proof (cases q)
    case (Take c)
    with Cons.prems(3) have c: "c \<noteq> 0" by simp
    from take_ok [OF Cons.prems(1) c] obtain r t gs where t: "tk c s = Ok (r, t)" "ok t gs"
      "case r of None \<Rightarrow> gs = hs
       | Some b \<Rightarrow> unat b + unat c < 2 ^ 32 \<and> block b c \<subseteq> clicks_of hs
           \<and> clicks_of gs = clicks_of hs - block b c" by blast
    have "conserved M (case r of None \<Rightarrow> live | Some b \<Rightarrow> (b, c) # live) gs"
      using t(3) Cons.prems(2) conserved_take [OF Cons.prems(2) c] by (auto split: option.splits)
    from Cons.IH [OF t(2) this pos] t(1) Take show ?thesis by simp
  next
    case (Give i)
    show ?thesis
    proof (cases "i < length live")
      case False
      with Cons.IH [OF Cons.prems(1,2) pos] Give show ?thesis by simp
    next
      case i: True
      note n = conserved_nth [OF Cons.prems(2) i]
      show ?thesis
      proof (cases "length hs < slots")
        case True
        from give_ok [OF Cons.prems(1) _ _ _ True] n obtain t gs where t:
          "gv (fst (live ! i)) (snd (live ! i)) s = Ok t" "ok t gs"
          "clicks_of gs = clicks_of hs \<union> held (live ! i)" unfolding held_def by blast
        from Cons.IH [OF t(2) conserved_give [OF Cons.prems(2) i t(3)] pos] t(1) i Give
        show ?thesis by simp
      next
        case False
        with give_full [OF Cons.prems(1)] n obtain m where
          "gv (fst (live ! i)) (snd (live ! i)) s = Panic m" by (meson not_less)
        with i Give show ?thesis by simp
      qed
    qed
  qed
qed

end

end
