(* ===== verification/Hole_Alloc.thy ===== *)
theory Hole_Alloc
  imports Hole_Lists Region
begin

text \<open>
  Correctness of \<open>free_mem\<close> and of the two allocations on the hole table: the list stays
  sorted, disjoint and coalesced, and the set of free clicks changes by exactly the block.
  A list of holes in this normal form is determined by its clicks, so allocating and
  freeing in between leaves no trace. At the end both allocators interpret the interface
  of a region allocator.
\<close>

section \<open>Normal forms\<close>

lemma wf_holes_append:
  "wf_holes (us @ vs) \<longleftrightarrow> wf_holes us \<and> wf_holes vs \<and> (\<forall>u \<in> set us. \<forall>v \<in> set vs. before u v)"
  by (auto simp: wf_holes_def sorted_wrt_append)

lemma wf_holes_Cons:
  "wf_holes (h # vs) \<longleftrightarrow> 0 < snd h \<and> fst h + snd h < 2 ^ 32 \<and> wf_holes vs \<and> (\<forall>v \<in> set vs. before h v)"
  by (auto simp: wf_holes_def)

lemma wf_holes_Nil [simp]: "wf_holes []"
  by (simp add: wf_holes_def)

lemma wf_holes_room: "wf_holes hs \<Longrightarrow> room hs"
  by (simp add: wf_holes_def room_def)

lemma merge_front:
  assumes w: "wf_holes vs" and c: "0 < c" "b + c < 2 ^ 32"
    and n: "\<forall>v \<in> set vs. b + c \<le> fst v"
  shows "wf_holes (merge_spans ((b, c) # vs)) \<and>
    clicks_of (merge_spans ((b, c) # vs)) = clicks_of vs \<union> {b ..< b + c}"
proof (cases vs)
  case Nil
  with c show ?thesis by (simp add: wf_holes_Cons)
next
  case (Cons v ws)
  obtain vb vl where v: "v = (vb, vl)" by (cases v)
  have vw: "0 < vl" "vb + vl < 2 ^ 32" "wf_holes ws" "\<forall>w \<in> set ws. vb + vl < fst w" "b + c \<le> vb"
    using w n Cons v by (auto simp: wf_holes_Cons before_def)
  show ?thesis
  proof (cases ws)
    case Nil
    with Cons v vw c show ?thesis
      by (auto simp: wf_holes_Cons before_def)
  next
    case (Cons w us)
    obtain wb wl where wv: "w = (wb, wl)" by (cases w)
    have "vb + vl \<noteq> wb" "vb + vl < wb" using vw(4) Cons wv by auto
    with \<open>vs = v # ws\<close> Cons v wv vw c show ?thesis
      by (auto simp: wf_holes_Cons before_def)
  qed
qed

lemma merge_middle:
  assumes w: "wf_holes (us @ p # vs)" and c: "0 < c" "b + c < 2 ^ 32"
    and p: "fst p + snd p \<le> b" and n: "\<forall>v \<in> set vs. b + c \<le> fst v"
  shows "wf_holes (us @ merge_spans (p # (b, c) # vs)) \<and>
    clicks_of (us @ merge_spans (p # (b, c) # vs)) = clicks_of (us @ p # vs) \<union> {b ..< b + c}"
proof -
  obtain pb pl where pp: "p = (pb, pl)" by (cases p)
  have ww: "wf_holes us" "wf_holes vs" "0 < pl" "\<forall>u \<in> set us. fst u + snd u < pb"
    "\<forall>v \<in> set vs. pb + pl < fst v" "\<forall>u \<in> set us. \<forall>v \<in> set vs. fst u + snd u < fst v"
    using w pp by (auto simp: wf_holes_append wf_holes_Cons before_def)
  have pb: "pb + pl \<le> b" using p pp by simp
  show ?thesis
  proof (cases vs)
    case Nil
    with pp ww pb c show ?thesis
      by (force simp: wf_holes_append wf_holes_Cons before_def)
  next
    case (Cons v ws)
    obtain vb vl where v: "v = (vb, vl)" by (cases v)
    have vw: "0 < vl" "vb + vl < 2 ^ 32" "wf_holes ws" "\<forall>w \<in> set ws. vb + vl < fst w" "b + c \<le> vb"
      using ww(2) n Cons v by (auto simp: wf_holes_Cons before_def)
    have uw: "\<forall>u \<in> set us. fst u + snd u < vb" "\<forall>u \<in> set us. \<forall>w \<in> set ws. fst u + snd u < fst w"
      using ww(6) Cons v by auto
    have pw: "\<forall>w \<in> set ws. pb + pl < fst w" using ww(5) Cons by auto
    have bw: "\<forall>w \<in> set ws. b + c < fst w" using vw(4,5) by force
    have wf: "wf_holes (us @ merge_spans (p # (b, c) # vs))"
      using Cons v pp ww(1,3,4) vw uw pw bw pb c
      by (force simp: wf_holes_append wf_holes_Cons before_def)
    have "clicks_of (merge_spans (p # (b, c) # vs)) = {pb..<pb + pl} \<union> {b..<b + c} \<union> {vb..<vb + vl} \<union> clicks_of ws"
      using Cons v pp pb vw(5) by auto
    with wf show ?thesis using Cons v pp by auto
  qed
qed

section \<open>free_mem\<close>

text \<open>The invariant of the table with \<open>nr\<close> slots; \<open>hs\<close> is the list of holes it represents.\<close>

definition table_ok :: "nat \<Rightarrow> ('m) hole_table_scheme \<Rightarrow> (nat \<times> nat) list \<Rightarrow> bool" where
  "table_ok nr s hs \<longleftrightarrow>
     (\<exists>xs fs. hole_lists s xs fs \<and> set xs \<union> set fs = {..<nr} \<and> hs = map (span s) xs \<and> wf_holes hs)"

lemma table_okI:
  "hole_lists s xs fs \<Longrightarrow> set xs \<union> set fs = {..<nr} \<Longrightarrow> map (span s) xs = hs \<Longrightarrow> wf_holes hs \<Longrightarrow> table_ok nr s hs"
  by (auto simp: table_ok_def)

lemma lists_count:
  assumes "hole_lists s xs fs" and "set xs \<union> set fs = {..<nr}"
  shows "length xs + length fs = nr"
proof -
  have "distinct (xs @ fs)" using assms(1) lists_distinct [OF assms(1)] by (auto simp: hole_lists_def)
  from distinct_card [OF this] have "card (set (xs @ fs)) = length xs + length fs" by simp
  with assms(2) show ?thesis by simp
qed

lemma table_ok_bound: "table_ok nr s hs \<Longrightarrow> length hs \<le> nr"
  unfolding table_ok_def using lists_count by (metis le_add1 length_map)

lemma find_prev_takeWhile:
  "linked (nxt s) p xs \<Longrightarrow> length xs < n \<Longrightarrow>
   find_prev n s base prev p =
     Ok (if takeWhile (\<lambda>i. h_base (hole s i) < base) xs = [] then prev
         else Some (last (takeWhile (\<lambda>i. h_base (hole s i) < base) xs)))"
proof (induction xs arbitrary: p prev n)
  case Nil
  then show ?case by (cases n) auto
next
  case (Cons x xs)
  then obtain m where n: "n = Suc m" "length xs < m" by (cases n) auto
  from Cons.prems(1) have "p = Some x" "linked (nxt s) (nxt s x) xs" by (simp_all only: chain.simps)
  with n Cons.IH [of "nxt s x" m "Some x"] show ?case by auto
qed

lemma base_less_iff: "h_base (hole s i) < base \<longleftrightarrow> fst (span s i) < unat base"
  by (simp add: span_def word_less_nat_alt)

lemma block_order:
  assumes d: "{b ..< b + c} \<inter> clicks_of hs = {}" and h: "h \<in> set hs" and c: "0 < c" "0 < snd h"
  shows "fst h < b \<Longrightarrow> fst h + snd h \<le> b" and "b \<le> fst h \<Longrightarrow> b + c \<le> fst h"
proof -
  have e: "{b ..< b + c} \<inter> {fst h ..< fst h + snd h} = {}" using d h unfolding clicks_of_def by blast
  show "fst h + snd h \<le> b" if "fst h < b"
  proof (rule ccontr)
    assume "\<not> ?thesis"
    with that c have "b \<in> {b ..< b + c} \<inter> {fst h ..< fst h + snd h}" by simp
    with e show False by blast
  qed
  show "b + c \<le> fst h" if "b \<le> fst h"
  proof (rule ccontr)
    assume "\<not> ?thesis"
    with that c have "fst h \<in> {b ..< b + c} \<inter> {fst h ..< fst h + snd h}" by simp
    with e show False by blast
  qed
qed

lemma sorted_takeWhile:
  assumes "wf_holes (map f (xs :: slot list))"
  obtains us vs where "xs = us @ vs" "us = takeWhile (\<lambda>i. fst (f i) < b) xs"
    "\<forall>u \<in> set us. fst (f u) < b" "\<forall>v \<in> set vs. b \<le> fst (f v)"
proof -
  let ?P = "\<lambda>i. fst (f i) < b"
  let ?us = "takeWhile ?P xs" and ?vs = "dropWhile ?P xs"
  have e: "xs = ?us @ ?vs" by simp
  have "\<forall>v \<in> set ?vs. b \<le> fst (f v)"
  proof (cases ?vs)
    case (Cons v ws)
    then have v: "b \<le> fst (f v)" using hd_dropWhile [of ?P xs] by simp
    have "wf_holes (map f ?us @ map f ?vs)" using assms e by (metis map_append)
    with Cons have "\<forall>w \<in> set ws. before (f v) (f w)" by (auto simp: wf_holes_append wf_holes_Cons)
    with v Cons show ?thesis by (force simp: before_def)
  next
    case Nil
    then show ?thesis by (simp only: list.set ball_empty)
  qed
  moreover have "\<forall>u \<in> set ?us. fst (f u) < b" by (auto dest: set_takeWhileD)
  ultimately show ?thesis using e that by blast
qed


text \<open>Linking the new hole in front, and behind \<open>p\<close>.\<close>

lemma link_front:
  assumes l: "hole_lists s xs (n # fs)"
  shows "hole_lists ((set_next n (hole_head s)
      ((set_len n c (set_base n b s))\<lparr>free_slots := nxt s n\<rparr>))\<lparr>hole_head := Some n\<rparr>) (n # xs) fs"
proof -
  have "n \<notin> set xs" "n \<notin> set fs" using l lists_distinct [OF l] by (auto simp: hole_lists_def)
  with l show ?thesis by (auto simp: hole_lists_def hole_simps)
qed

lemma link_after:
  assumes l: "hole_lists s (us @ p # vs) (n # fs)"
  shows "hole_lists (set_next p (Some n) (set_next n (nxt s p)
      ((set_len n c (set_base n b s))\<lparr>free_slots := nxt s n\<rparr>))) (us @ p # n # vs) fs"
proof -
  have n: "n \<notin> set (us @ p # vs)" "n \<notin> set fs" "p \<notin> set fs"
    using l lists_distinct [OF l] by (auto simp: hole_lists_def)
  have "linked (nxt s) (hole_head s) (us @ p # vs)" using l by (simp add: hole_lists_def)
  from linked_insert_after [OF this n(1)] n l show ?thesis
    by (auto simp: hole_lists_def hole_simps)
qed

text \<open>The table with the new hole filled in, and what freeing leads to.\<close>

definition filled :: "slot \<Rightarrow> clicks \<Rightarrow> clicks \<Rightarrow> ('m) hole_table_scheme \<Rightarrow> ('m) hole_table_scheme" where
  "filled n base clicks s = (set_len n clicks (set_base n base s))\<lparr>free_slots := nxt s n\<rparr>"

definition freed :: "('m) hole_table_scheme \<Rightarrow> slot list \<Rightarrow> slot list \<Rightarrow> nat \<Rightarrow> nat \<Rightarrow> ('m) hole_table_scheme \<Rightarrow> bool" where
  "freed s xs fs b c t \<longleftrightarrow> (\<exists>ys gs. hole_lists t ys gs \<and> set ys \<union> set gs = set xs \<union> set fs \<and> wf_holes (map (span t) ys)
     \<and> clicks_of (map (span t) ys) = clicks_of (map (span s) xs) \<union> {b ..< b + c} \<and> hole_table.more t = hole_table.more s)"

lemma filled_sel:
  "span (filled n base clicks s) = (span s)(n := (unat base, unat clicks))" "nxt (filled n base clicks s) = nxt s"
  "hole_head (filled n base clicks s) = hole_head s" "free_slots (filled n base clicks s) = nxt s n"
  "hole_table.more (filled n base clicks s) = hole_table.more s"
  by (simp_all add: filled_def hole_simps)

lemma span_others: "n \<notin> set ys \<Longrightarrow> map ((span s)(n := x)) ys = map (span s) ys"
  by auto

lemma free_mem_filled:
  assumes "clicks \<noteq> 0" and "free_slots s = Some n"
  shows "free_mem nr base clicks s =
    (if case hole_head s of None \<Rightarrow> True | Some hp \<Rightarrow> base \<le> h_base (hole (filled n base clicks s) hp)
     then merge n ((set_next n (hole_head s) (filled n base clicks s))\<lparr>hole_head := Some n\<rparr>)
     else bind_res (find_prev (Suc nr) (filled n base clicks s) base None (hole_head s))
       (\<lambda>prev. case prev of None \<Rightarrow> Null_deref
         | Some p \<Rightarrow> merge p (set_next p (Some n) (set_next n (nxt s p) (filled n base clicks s)))))"
proof -
  have u: "(set_len n clicks (set_base n base s))\<lparr>free_slots := h_next (hole s n)\<rparr> = filled n base clicks s"
    unfolding filled_def nxt_def ..
  have k: "h_next (hole (filled n base clicks s) p) = h_next (hole s p)" for p
    using fun_cong [OF filled_sel(2) [of n base clicks s], of p] by (simp only: nxt_def)
  show ?thesis
    unfolding free_mem_def Let_def if_not_P [OF assms(1)] assms(2) option.case(2) u k filled_sel(3) nxt_def ..
qed

text \<open>The test for the front of the list, and the walk to the last hole below.\<close>

lemma filled_base: "i \<noteq> n \<Longrightarrow> h_base (hole (filled n base clicks s) i) = h_base (hole s i)"
  by (simp add: filled_def set_len_def set_base_def)

lemma front_iff:
  assumes "hole_lists s xs (n # fs)"
  shows "(case hole_head s of None \<Rightarrow> True | Some hp \<Rightarrow> base \<le> h_base (hole (filled n base clicks s) hp))
    \<longleftrightarrow> takeWhile (\<lambda>i. fst (span s i) < unat base) xs = []"
proof (cases xs)
  case (Cons x ws)
  then have "hole_head s = Some x" "x \<noteq> n" using assms by (auto simp: hole_lists_def)
  with Cons show ?thesis by (simp add: filled_base base_less_iff [symmetric] linorder_not_less [symmetric])
next
  case Nil
  with assms show ?thesis by (simp add: hole_lists_def)
qed

lemma find_prev_last:
  assumes l: "hole_lists s xs (n # fs)" and nr: "length xs \<le> nr"
    and w: "takeWhile (\<lambda>i. fst (span s i) < unat base) xs = ws @ [p]"
  shows "find_prev (Suc nr) (filled n base clicks s) base None (hole_head s) = Ok (Some p)"
proof -
  have n: "n \<notin> set xs" and lk: "linked (nxt (filled n base clicks s)) (hole_head s) xs"
    using l by (auto simp: hole_lists_def filled_sel)
  have "takeWhile (\<lambda>i. h_base (hole (filled n base clicks s) i) < base) xs = takeWhile (\<lambda>i. fst (span s i) < unat base) xs"
    by (rule takeWhile_cong) (use n in \<open>auto simp: base_less_iff filled_sel\<close>)
  moreover have "length xs < Suc nr" using nr by simp
  ultimately show ?thesis using find_prev_takeWhile [OF lk] w by (simp del: find_prev.simps)
qed

lemma free_mem_front:
  assumes l: "hole_lists s xs (n # fs)" and wf: "wf_holes (map (span s) xs)"
    and c: "clicks \<noteq> 0" "unat base + unat clicks < 2 ^ 32"
    and after: "\<forall>h \<in> set (map (span s) xs). unat base + unat clicks \<le> fst h"
    and w: "takeWhile (\<lambda>i. fst (span s i) < unat base) xs = []"
  shows "\<exists>t. free_mem nr base clicks s = Ok t \<and> freed s xs (n # fs) (unat base) (unat clicks) t"
proof -
  let ?b = "unat base" and ?c = "unat clicks" and ?u = "filled n base clicks s"
  let ?t = "(set_next n (hole_head s) ?u)\<lparr>hole_head := Some n\<rparr>"
  have n: "n \<notin> set xs" and fh: "free_slots s = Some n" using l by (auto simp: hole_lists_def)
  have c0: "0 < ?c" using c(1) by (simp add: unat_gt_0)
  have spt: "map (span ?t) (n # xs) = (?b, ?c) # map (span s) xs"
    using n by (simp add: hole_simps filled_sel span_others)
  have m: "wf_holes (merge_spans ((?b, ?c) # map (span s) xs)) \<and>
      clicks_of (merge_spans ((?b, ?c) # map (span s) xs)) = clicks_of (map (span s) xs) \<union> {?b..<?b + ?c}"
    using merge_front [OF wf c0 c(2) after] .
  have "room (map (span ?t) (n # xs))" using spt wf_holes_room [OF wf] c c0 by (simp add: room_def)
  moreover have "hole_lists ?t ([] @ n # xs) fs" using link_front [OF l] by (simp add: filled_def)
  ultimately obtain t ys gs where t: "merge n ?t = Ok t" "hole_lists t ys gs"
    "map (span t) ys = map (span ?t) [] @ merge_spans (map (span ?t) (n # xs))"
    "set ys \<union> set gs = set ([] @ n # xs) \<union> set fs" "hole_table.more t = hole_table.more ?t"
    using merge_lists [of ?t "[]" n xs fs] by (simp only: append_Nil) blast
  have sp': "map (span t) ys = merge_spans ((?b, ?c) # map (span s) xs)" using t(3) unfolding spt by simp
  have "free_mem nr base clicks s = Ok t"
    unfolding free_mem_filled [OF c(1) fh] front_iff [OF l] w using t(1) by simp
  moreover have "freed s xs (n # fs) ?b ?c t"
    unfolding freed_def using t(2,4,5) m sp' by (intro exI [of _ ys] exI [of _ gs]) (simp add: hole_simps filled_sel)
  ultimately show ?thesis by blast
qed

lemma free_mem_behind:
  assumes l: "hole_lists s (ws @ p # vs) (n # fs)" and wf: "wf_holes (map (span s) (ws @ p # vs))"
    and c: "clicks \<noteq> 0" "unat base + unat clicks < 2 ^ 32"
    and p: "fst (span s p) + snd (span s p) \<le> unat base"
    and after: "\<forall>h \<in> set (map (span s) vs). unat base + unat clicks \<le> fst h"
    and w: "takeWhile (\<lambda>i. fst (span s i) < unat base) (ws @ p # vs) = ws @ [p]" and nr: "length (ws @ p # vs) \<le> nr"
  shows "\<exists>t. free_mem nr base clicks s = Ok t \<and> freed s (ws @ p # vs) (n # fs) (unat base) (unat clicks) t"
proof -
  let ?b = "unat base" and ?c = "unat clicks" and ?u = "filled n base clicks s"
  let ?t = "set_next p (Some n) (set_next n (nxt s p) ?u)"
  let ?m = "map (span s) ws @ merge_spans (span s p # (?b, ?c) # map (span s) vs)"
  have n: "n \<notin> set ws" "n \<noteq> p" "n \<notin> set vs" and fh: "free_slots s = Some n" using l by (auto simp: hole_lists_def)
  have c0: "0 < ?c" using c(1) by (simp add: unat_gt_0)
  have wf': "wf_holes (map (span s) ws @ span s p # map (span s) vs)" using wf by simp
  have spt: "map (span ?t) (ws @ p # n # vs) = map (span s) ws @ span s p # (?b, ?c) # map (span s) vs"
    using n by (simp add: hole_simps filled_sel span_others)
  have m: "wf_holes ?m \<and> clicks_of ?m = clicks_of (map (span s) (ws @ p # vs)) \<union> {?b..<?b + ?c}"
    using merge_middle [OF wf' c0 c(2) p after] by simp
  have "room (map (span ?t) (ws @ p # n # vs))"
    using spt wf_holes_room [OF wf'] c c0 by (auto simp: room_def)
  with merge_lists [of ?t ws p "n # vs" fs] link_after [OF l] obtain t ys gs where t:
    "merge p ?t = Ok t" "hole_lists t ys gs"
    "map (span t) ys = map (span ?t) ws @ merge_spans (map (span ?t) (p # n # vs))"
    "set ys \<union> set gs = set (ws @ p # n # vs) \<union> set fs" "hole_table.more t = hole_table.more ?t"
    unfolding filled_def by blast
  have sp': "map (span t) ys = ?m" using t(3) n by (simp add: hole_simps filled_sel span_others)
  have "free_mem nr base clicks s = Ok t"
    unfolding free_mem_filled [OF c(1) fh] front_iff [OF l] w find_prev_last [OF l nr w] using t(1) by simp
  moreover have "freed s (ws @ p # vs) (n # fs) ?b ?c t"
    unfolding freed_def using t(2,4,5) m sp'
    by (intro exI [of _ ys] exI [of _ gs]) (auto simp: hole_simps filled_sel)
  ultimately show ?thesis by blast
qed

lemma free_mem_table:
  assumes ok: "table_ok nr s hs" and c: "clicks \<noteq> 0" "unat base + unat clicks < 2 ^ 32"
    and disj: "{unat base ..< unat base + unat clicks} \<inter> clicks_of hs = {}"
    and free: "length hs < nr"
  shows "\<exists>t hs'. free_mem nr base clicks s = Ok t \<and> table_ok nr t hs'
    \<and> clicks_of hs' = clicks_of hs \<union> {unat base ..< unat base + unat clicks}
    \<and> hole_table.more t = hole_table.more s"
proof -
  let ?b = "unat base" and ?c = "unat clicks"
  from ok obtain xs fs0 where l0: "hole_lists s xs fs0" and slots: "set xs \<union> set fs0 = {..<nr}"
    and hs: "hs = map (span s) xs" and wf: "wf_holes hs" by (auto simp: table_ok_def)
  have "length xs + length fs0 = nr" using l0 slots by (rule lists_count)
  then obtain n fs where fs0: "fs0 = n # fs" using free hs by (cases fs0) auto
  have l: "hole_lists s xs (n # fs)" using l0 fs0 by simp
  have c0: "0 < ?c" using c(1) by (simp add: unat_gt_0)
  have order: "fst (span s i) < ?b \<Longrightarrow> fst (span s i) + snd (span s i) \<le> ?b"
    "?b \<le> fst (span s i) \<Longrightarrow> ?b + ?c \<le> fst (span s i)" if "i \<in> set xs" for i
    using block_order [OF disj, of "span s i"] that hs wf c0 by (auto simp: wf_holes_def)
  obtain us vs where xs: "xs = us @ vs" "us = takeWhile (\<lambda>i. fst (span s i) < ?b) xs"
    "\<forall>u \<in> set us. fst (span s u) < ?b" "\<forall>v \<in> set vs. ?b \<le> fst (span s v)"
    using sorted_takeWhile [of "span s" xs ?b] wf hs by metis
  have after: "\<forall>v \<in> set (map (span s) vs). ?b + ?c \<le> fst v" using xs(1,4) order(2) by simp
  have "\<exists>t. free_mem nr base clicks s = Ok t \<and> freed s xs (n # fs) ?b ?c t"
  proof (cases us rule: rev_cases)
    case Nil
    then have "xs = vs" using xs(1) by simp
    moreover have "takeWhile (\<lambda>i. fst (span s i) < ?b) xs = []" using xs(2) Nil by metis
    ultimately show ?thesis using free_mem_front [OF l wf [unfolded hs] c] after by simp
  next
    case (snoc ws p)
    have e: "xs = ws @ p # vs" using xs(1) snoc by simp
    have p: "fst (span s p) + snd (span s p) \<le> ?b" using order(1) [of p] xs(3) snoc e by simp
    have "takeWhile (\<lambda>i. fst (span s i) < ?b) xs = ws @ [p]" using xs(2) snoc by metis
    moreover have "length xs \<le> nr" using table_ok_bound [OF ok] hs by simp
    ultimately show ?thesis
      using free_mem_behind [OF l [unfolded e] wf [unfolded hs e] c p after] unfolding e by blast
  qed
  then obtain t where t: "free_mem nr base clicks s = Ok t" "freed s xs (n # fs) ?b ?c t" by blast
  from t(2) obtain ys gs where f: "hole_lists t ys gs" "set ys \<union> set gs = {..<nr}" "wf_holes (map (span t) ys)"
    "clicks_of (map (span t) ys) = clicks_of hs \<union> {?b ..< ?b + ?c}" "hole_table.more t = hole_table.more s"
    using slots fs0 hs unfolding freed_def by blast
  have "table_ok nr t (map (span t) ys)" using f(1,2) refl f(3) by (rule table_okI)
  with t(1) f(4,5) show ?thesis by blast
qed

lemma free_mem_full:
  assumes "table_ok nr s hs" and "clicks \<noteq> 0" and "nr \<le> length hs"
  shows "free_mem nr base clicks s = Panic ''Hole table full''"
proof -
  from assms(1) obtain xs fs where l: "hole_lists s xs fs" "set xs \<union> set fs = {..<nr}" "hs = map (span s) xs"
    by (auto simp: table_ok_def)
  have "length hs = length xs" using l(3) by simp
  with lists_count [OF l(1,2)] assms(3) have "length fs = 0" by linarith
  then have "fs = []" by simp
  with l(1) have "free_slots s = None" by (simp add: hole_lists_def)
  with assms(2) show ?thesis by (simp add: free_mem_def)
qed

section \<open>alloc_mem\<close>

text \<open>What is left of a hole when \<open>c\<close> clicks are bitten off its front.\<close>

definition rest_of :: "nat \<Rightarrow> nat \<times> nat \<Rightarrow> (nat \<times> nat) list" where
  "rest_of c h = (if snd h = c then [] else [(fst h + c, snd h - c)])"

lemma rest_of_wf:
  assumes w: "wf_holes (us @ h # vs)" and c: "c \<le> snd h"
  shows "wf_holes (us @ rest_of c h @ vs)"
    and "clicks_of (us @ rest_of c h @ vs) = clicks_of (us @ h # vs) - {fst h ..< fst h + c}"
proof -
  have ww: "wf_holes us" "wf_holes vs" "0 < snd h" "fst h + snd h < 2 ^ 32"
    "\<forall>u \<in> set us. fst u + snd u < fst h" "\<forall>v \<in> set vs. fst h + snd h < fst v"
    "\<forall>u \<in> set us. \<forall>v \<in> set vs. fst u + snd u < fst v"
    using w by (auto simp: wf_holes_append wf_holes_Cons before_def)
  show "wf_holes (us @ rest_of c h @ vs)"
    using ww c by (fastforce simp: wf_holes_append wf_holes_Cons before_def rest_of_def)
  have r: "clicks_of (rest_of c h) = {fst h + c ..< fst h + snd h}"
    using c by (auto simp: rest_of_def)
  have "clicks_of us \<inter> {fst h ..< fst h + c} = {}" "clicks_of vs \<inter> {fst h ..< fst h + c} = {}"
    using ww(5,6) c unfolding clicks_of_def by force+
  moreover have "{fst h + c ..< fst h + snd h} = {fst h ..< fst h + snd h} - {fst h ..< fst h + c}"
    using c by auto
  ultimately show "clicks_of (us @ rest_of c h @ vs) = clicks_of (us @ h # vs) - {fst h ..< fst h + c}"
    using r by (simp only: clicks_of_simps) blast
qed

lemma bite_table:
  assumes l: "hole_lists s (us @ x # vs) fs" and slots: "set (us @ x # vs) \<union> set fs = {..<nr}"
    and wf: "wf_holes (map (span s) (us @ x # vs))" and c: "clicks \<le> h_len (hole s x)"
  shows "\<exists>t. bite (last_of us) x clicks s = Ok (h_base (hole s x), t)
    \<and> table_ok nr t (map (span s) us @ rest_of (unat clicks) (span s x) @ map (span s) vs)
    \<and> hole_table.more t = hole_table.more s"
proof -
  let ?t = "set_len x (h_len (hole s x) - clicks) (set_base x (h_base (hole s x) + clicks) s)"
  let ?hs = "map (span s) us @ rest_of (unat clicks) (span s x) @ map (span s) vs"
  have d: "x \<notin> set us" "x \<notin> set vs" using lists_distinct [OF l] by auto
  have le: "unat clicks \<le> snd (span s x)" using c by (simp add: span_def word_le_nat_alt)
  have fit: "fst (span s x) + snd (span s x) < 2 ^ 32" using wf by (auto simp: wf_holes_def)
  have w: "wf_holes ?hs" using rest_of_wf(1) wf le by simp
  have sub: "unat (h_len (hole s x) - clicks) = snd (span s x) - unat clicks"
    using c by (simp add: span_def unat_sub)
  have add: "unat (h_base (hole s x) + clicks) = fst (span s x) + unat clicks"
    using le fit by (simp add: span_def unat_add_small)
  have spt: "span ?t = (span s)(x := (fst (span s x) + unat clicks, snd (span s x) - unat clicks))"
    by (simp add: hole_simps add sub)
  have lt: "hole_lists ?t (us @ x # vs) fs" using l by simp
  have len0: "h_len (hole ?t x) = 0 \<longleftrightarrow> snd (span s x) = unat clicks"
  proof -
    have "h_len (hole ?t x) = h_len (hole s x) - clicks" by (simp add: set_len_def set_base_def)
    then show ?thesis by (simp add: span_def word_unat_eq_iff [symmetric])
  qed
  have maps: "map (span ?t) us = map (span s) us" "map (span ?t) vs = map (span s) vs"
    using d spt by simp_all
  show ?thesis
  proof (cases "snd (span s x) = unat clicks")
    case True
    from del_slot_lists [OF lt] obtain t where t: "del_slot (last_of us) x ?t = Ok t"
      "hole_lists t (us @ vs) (x # fs)" "span t = span ?t" "hole_table.more t = hole_table.more ?t" by blast
    have "bite (last_of us) x clicks s = Ok (h_base (hole s x), t)"
      using t(1) True len0 by (simp add: bite_def Let_def)
    moreover have "table_ok nr t ?hs"
      using t(2) _ _ w by (rule table_okI) (use slots t(3) maps True in \<open>auto simp: rest_of_def\<close>)
    ultimately show ?thesis using t(4) by (auto simp: hole_simps)
  next
    case False
    then have "bite (last_of us) x clicks s = Ok (h_base (hole s x), ?t)"
      using len0 by (simp add: bite_def Let_def)
    moreover have "table_ok nr ?t ?hs"
      using lt slots _ w by (rule table_okI) (use maps spt False in \<open>auto simp: rest_of_def\<close>)
    ultimately show ?thesis by (auto simp: hole_simps)
  qed
qed

lemma first_fit_find:
  "linked (nxt s) p xs \<Longrightarrow> length xs < n \<Longrightarrow>
   first_fit n limit c s (last_of us) p = Ok None \<and>
     (\<forall>x \<in> set (takeWhile (\<lambda>i. h_base (hole s i) < limit) xs). h_len (hole s x) < c)
   \<or> (\<exists>vs x ws. xs = vs @ x # ws \<and> first_fit n limit c s (last_of us) p = Ok (Some (last_of (us @ vs), x))
       \<and> h_base (hole s x) < limit \<and> c \<le> h_len (hole s x)
       \<and> (\<forall>y \<in> set vs. h_base (hole s y) < limit \<and> h_len (hole s y) < c))"
proof (induction xs arbitrary: p us n)
  case Nil
  then show ?case by (cases n) auto
next
  case (Cons x xs)
  then obtain m where n: "n = Suc m" "length xs < m" by (cases n) auto
  from Cons.prems(1) have p: "p = Some x" "linked (nxt s) (nxt s x) xs" by (simp_all only: chain.simps)
  consider "limit \<le> h_base (hole s x)" | "h_base (hole s x) < limit" "c \<le> h_len (hole s x)"
    | "h_base (hole s x) < limit" "h_len (hole s x) < c" by force
  then show ?case
  proof cases
    case 1
    then have "\<not> h_base (hole s x) < limit" by simp
    with n p show ?thesis by simp
  next
    case 2
    with n p show ?thesis by (intro disjI2 exI [of _ "[]"] exI [of _ x] exI [of _ xs]) auto
  next
    case 3
    have step: "first_fit n limit c s (last_of us) p = first_fit m limit c s (last_of (us @ [x])) (nxt s x)"
      using 3 n p by (simp add: not_le [symmetric])
    from Cons.IH [OF p(2) n(2), of "us @ [x]"] show ?thesis
    proof (elim disjE exE conjE)
      fix vs y ws
      assume "xs = vs @ y # ws" "first_fit m limit c s (last_of (us @ [x])) (nxt s x) = Ok (Some (last_of ((us @ [x]) @ vs), y))"
        "h_base (hole s y) < limit" "c \<le> h_len (hole s y)"
        "\<forall>y \<in> set vs. h_base (hole s y) < limit \<and> h_len (hole s y) < c"
      with 3 step show ?thesis
        by (intro disjI2 exI [of _ "x # vs"] exI [of _ y] exI [of _ ws]) auto
    next
      assume "first_fit m limit c s (last_of (us @ [x])) (nxt s x) = Ok None"
        "\<forall>x \<in> set (takeWhile (\<lambda>i. h_base (hole s i) < limit) xs). h_len (hole s x) < c"
      with 3 step show ?thesis by (intro disjI1) auto
    qed
  qed
qed

text \<open>What the worst-fit search knows after the holes \<open>us\<close>.\<close>

definition best_of :: "('m) hole_table_scheme \<Rightarrow> clicks \<Rightarrow> slot list \<Rightarrow> (slot option \<times> slot) option \<Rightarrow> clicks \<Rightarrow> bool" where
  "best_of s c us best m \<longleftrightarrow> (\<forall>y \<in> set us. c \<le> h_len (hole s y) \<longrightarrow> h_len (hole s y) \<le> m) \<and>
     (case best of None \<Rightarrow> m = 0
      | Some (q, x) \<Rightarrow> \<exists>vs ws. us = vs @ x # ws \<and> q = last_of vs \<and> c \<le> h_len (hole s x) \<and> m = h_len (hole s x))"

lemma worst_fit_find:
  "linked (nxt s) p xs \<Longrightarrow> length xs < n \<Longrightarrow> best_of s c us best m \<Longrightarrow>
   \<exists>best' m'. worst_fit n c s (last_of us) p best m = Ok best' \<and> best_of s c (us @ xs) best' m'"
proof (induction xs arbitrary: p us n best m)
  case Nil
  then show ?case by (cases n) auto
next
  case (Cons x xs)
  then obtain k where n: "n = Suc k" "length xs < k" by (cases n) auto
  from Cons.prems(1) have p: "p = Some x" "linked (nxt s) (nxt s x) xs" by (simp_all only: chain.simps)
  show ?case
  proof (cases "c \<le> h_len (hole s x) \<and> m < h_len (hole s x)")
    case True
    have "best_of s c (us @ [x]) (Some (last_of us, x)) (h_len (hole s x))"
      using True Cons.prems(3) unfolding best_of_def by fastforce
    from Cons.IH [OF p(2) n(2) this] True n p show ?thesis by auto
  next
    case False
    have "best_of s c (us @ [x]) best m"
      using False Cons.prems(3) unfolding best_of_def by (fastforce split: option.splits)
    from Cons.IH [OF p(2) n(2) this] False n p show ?thesis by auto
  qed
qed

text \<open>What an allocation may do: refuse and change nothing, or cut the block off one hole.\<close>

definition cuts :: "nat \<Rightarrow> ('m) hole_table_scheme \<Rightarrow> (nat \<times> nat) list \<Rightarrow> clicks \<Rightarrow>
    (nat \<times> nat) list \<Rightarrow> nat \<times> nat \<Rightarrow> (nat \<times> nat) list \<Rightarrow> clicks \<Rightarrow> ('m) hole_table_scheme \<Rightarrow> bool" where
  "cuts nr s hs c us h vs b t \<longleftrightarrow> hs = us @ h # vs \<and> unat b = fst h \<and> unat c \<le> snd h
     \<and> table_ok nr t (us @ rest_of (unat c) h @ vs) \<and> hole_table.more t = hole_table.more s"

lemma bite_cut:
  assumes "hole_lists s (us @ x # vs) fs" and "set (us @ x # vs) \<union> set fs = {..<nr}"
    and "hs = map (span s) (us @ x # vs)" and "wf_holes hs" and "c \<le> h_len (hole s x)"
  shows "\<exists>t. bite (last_of us) x c s = Ok (h_base (hole s x), t)
    \<and> cuts nr s hs c (map (span s) us) (span s x) (map (span s) vs) (h_base (hole s x)) t"
  using bite_table [OF assms(1,2)] assms(3-5)
  by (auto simp: cuts_def span_def word_le_nat_alt)

lemma alloc_first_table:
  assumes ok: "table_ok nr s hs"
  shows "(alloc_first nr limit c s = Ok (None, s) \<and> (\<forall>h \<in> set hs. fst h < unat limit \<longrightarrow> snd h < unat c))
    \<or> (\<exists>b t us h vs. alloc_first nr limit c s = Ok (Some b, t) \<and> cuts nr s hs c us h vs b t
        \<and> b < limit \<and> (\<forall>u \<in> set us. snd u < unat c))"
proof -
  from ok obtain xs fs where l: "hole_lists s xs fs" and slots: "set xs \<union> set fs = {..<nr}"
    and hs: "hs = map (span s) xs" and wf: "wf_holes hs" by (auto simp: table_ok_def)
  have lk: "linked (nxt s) (hole_head s) xs" using l by (simp add: hole_lists_def)
  have "length xs < Suc nr" using table_ok_bound [OF ok] hs by simp
  from first_fit_find [OF lk this, of limit c "[]"] show ?thesis
  proof (elim disjE conjE exE)
    assume none: "first_fit (Suc nr) limit c s (last_of []) (hole_head s) = Ok None"
      "\<forall>x \<in> set (takeWhile (\<lambda>i. h_base (hole s i) < limit) xs). h_len (hole s x) < c"
    have "snd (span s x) < unat c" if "x \<in> set xs" "fst (span s x) < unat limit" for x
    proof -
      from that(1) obtain ys zs where xs: "xs = ys @ x # zs" by (auto dest: split_list)
      have "\<forall>y \<in> set ys. before (span s y) (span s x)" using wf hs xs by (auto simp: wf_holes_append)
      then have "\<forall>y \<in> set (ys @ [x]). h_base (hole s y) < limit"
        using that(2) by (force simp: before_def base_less_iff)
      then have "x \<in> set (takeWhile (\<lambda>i. h_base (hole s i) < limit) xs)"
        unfolding xs by (simp add: takeWhile_append2)
      with none(2) show ?thesis by (auto simp: span_def word_less_nat_alt)
    qed
    with none(1) hs show ?thesis by (intro disjI1) (auto simp: alloc_first_def simp del: first_fit.simps)
  next
    fix vs x ws
    assume f: "xs = vs @ x # ws" "first_fit (Suc nr) limit c s (last_of []) (hole_head s) = Ok (Some (last_of ([] @ vs), x))"
      "h_base (hole s x) < limit" "c \<le> h_len (hole s x)"
      "\<forall>y \<in> set vs. h_base (hole s y) < limit \<and> h_len (hole s y) < c"
    from bite_cut [OF l [unfolded f(1)] slots [unfolded f(1)] hs [unfolded f(1)] wf f(4)] obtain t where
      t: "bite (last_of vs) x c s = Ok (h_base (hole s x), t)"
      "cuts nr s hs c (map (span s) vs) (span s x) (map (span s) ws) (h_base (hole s x)) t" by blast
    have "alloc_first nr limit c s = Ok (Some (h_base (hole s x)), t)"
      using f(2) t(1) by (simp add: alloc_first_def del: first_fit.simps)
    moreover have "\<forall>u \<in> set (map (span s) vs). snd u < unat c"
      using f(5) by (auto simp: span_def word_less_nat_alt)
    ultimately show ?thesis using t(2) f(3) by blast
  qed
qed

lemma alloc_worst_table:
  assumes ok: "table_ok nr s hs" and c: "c \<noteq> 0"
  shows "(alloc_worst nr c s = Ok (None, s) \<and> (\<forall>h \<in> set hs. snd h < unat c))
    \<or> (\<exists>b t us h vs. alloc_worst nr c s = Ok (Some b, t) \<and> cuts nr s hs c us h vs b t
        \<and> (\<forall>g \<in> set hs. snd g \<le> snd h))"
proof -
  from ok obtain xs fs where l: "hole_lists s xs fs" and slots: "set xs \<union> set fs = {..<nr}"
    and hs: "hs = map (span s) xs" and wf: "wf_holes hs" by (auto simp: table_ok_def)
  have lk: "linked (nxt s) (hole_head s) xs" using l by (simp add: hole_lists_def)
  have "length xs < Suc nr" using table_ok_bound [OF ok] hs by simp
  from worst_fit_find [OF lk this, of c "[]" None 0] obtain best m where
    b: "worst_fit (Suc nr) c s None (hole_head s) None 0 = Ok best" "best_of s c xs best m"
    by (auto simp: best_of_def simp del: worst_fit.simps)
  show ?thesis
  proof (cases best)
    case None
    have "h_len (hole s x) < c" if "x \<in> set xs" for x
    proof (rule ccontr)
      assume "\<not> ?thesis"
      then have ge: "c \<le> h_len (hole s x)" by simp
      with b(2) that None have "h_len (hole s x) \<le> 0" by (auto simp: best_of_def)
      with ge c show False by simp
    qed
    with b(1) None hs show ?thesis
      by (intro disjI1) (auto simp: alloc_worst_def span_def word_less_nat_alt simp del: worst_fit.simps)
  next
    case (Some z)
    then obtain q x where z: "best = Some (q, x)" by (cases z) auto
    with b(2) obtain vs ws where f: "xs = vs @ x # ws" "q = last_of vs" "c \<le> h_len (hole s x)" "m = h_len (hole s x)"
      by (auto simp: best_of_def)
    from bite_cut [OF l [unfolded f(1)] slots [unfolded f(1)] hs [unfolded f(1)] wf f(3)] obtain t where
      t: "bite (last_of vs) x c s = Ok (h_base (hole s x), t)"
      "cuts nr s hs c (map (span s) vs) (span s x) (map (span s) ws) (h_base (hole s x)) t" by blast
    have "alloc_worst nr c s = Ok (Some (h_base (hole s x)), t)"
      using b(1) z f(2) t(1) by (simp add: alloc_worst_def del: worst_fit.simps)
    moreover have "h_len (hole s y) \<le> h_len (hole s x)" if "y \<in> set xs" for y
      using b(2) f(3,4) that unfolding best_of_def by (cases "c \<le> h_len (hole s y)") auto
    then have "\<forall>g \<in> set hs. snd g \<le> snd (span s x)"
      using hs by (auto simp: span_def word_le_nat_alt)
    ultimately show ?thesis using t(2) by blast
  qed
qed

section \<open>Both allocators are region allocators\<close>

lemma rest_of_length: "length (us @ rest_of c h @ vs) \<le> length (us @ h # vs)"
  by (simp add: rest_of_def)

lemma table_ok_wf: "table_ok nr s hs \<Longrightarrow> wf_holes hs"
  by (auto simp: table_ok_def)

lemma cut_block:
  assumes ok: "table_ok nr s hs" and c: "cuts nr s hs c us h vs b t"
  shows "unat b + unat c < 2 ^ 32" and "block b c \<subseteq> clicks_of hs"
    and "clicks_of (us @ rest_of (unat c) h @ vs) = clicks_of hs - block b c"
proof -
  have w: "wf_holes (us @ h # vs)" and b: "unat b = fst h" "unat c \<le> snd h" "hs = us @ h # vs"
    using table_ok_wf [OF ok] c by (auto simp: cuts_def)
  have "fst h + snd h < 2 ^ 32" using w by (auto simp: wf_holes_def)
  with b show "unat b + unat c < 2 ^ 32" by simp
  show "block b c \<subseteq> clicks_of hs" using b by (auto simp: block_def)
  show "clicks_of (us @ rest_of (unat c) h @ vs) = clicks_of hs - block b c"
    using rest_of_wf(2) [OF w b(2)] b by (simp add: block_def)
qed

text \<open>The law of \<open>take\<close>, from the two outcomes of an allocation.\<close>

lemma cut_take_law:
  assumes ok: "table_ok nr s hs"
    and r: "f c s = Ok (None, s) \<or> (\<exists>b t us h vs. f c s = Ok (Some b, t) \<and> cuts nr s hs c us h vs b t)"
  shows "\<exists>r t gs. f c s = Ok (r, t) \<and> table_ok nr t gs \<and> length gs \<le> length hs \<and>
    (case r of None \<Rightarrow> gs = hs
     | Some b \<Rightarrow> unat b + unat c < 2 ^ 32 \<and> block b c \<subseteq> clicks_of hs
         \<and> clicks_of gs = clicks_of hs - block b c)"
  using r
proof (elim disjE exE conjE)
  fix b t us h vs
  assume f: "f c s = Ok (Some b, t)" and c: "cuts nr s hs c us h vs b t"
  have "table_ok nr t (us @ rest_of (unat c) h @ vs)" "length (us @ rest_of (unat c) h @ vs) \<le> length hs"
    using c rest_of_length [of us "unat c" h vs] by (simp_all add: cuts_def)
  with f cut_block [OF ok c] show ?thesis by auto
qed (use ok in auto)

lemma free_mem_law:
  assumes "table_ok nr s hs" "c \<noteq> 0" "unat b + unat c < 2 ^ 32" "block b c \<inter> clicks_of hs = {}" "length hs < nr"
  shows "\<exists>t gs. free_mem nr b c s = Ok t \<and> table_ok nr t gs \<and> clicks_of gs = clicks_of hs \<union> block b c"
  using free_mem_table [OF assms(1-3) _ assms(5)] assms(4) by (auto simp: block_def)

interpretation first: region_allocator "table_ok nr" "alloc_first nr limit" "free_mem nr" nr
  for nr limit
proof
  show "\<exists>r t gs. alloc_first nr limit c s = Ok (r, t) \<and> table_ok nr t gs \<and> length gs \<le> length hs \<and>
    (case r of None \<Rightarrow> gs = hs
     | Some b \<Rightarrow> unat b + unat c < 2 ^ 32 \<and> block b c \<subseteq> clicks_of hs
         \<and> clicks_of gs = clicks_of hs - block b c)"
    if "table_ok nr s hs" for s :: "('a) hole_table_scheme" and hs and c :: clicks
    by (rule cut_take_law [OF that]) (use alloc_first_table [OF that, of limit c] in blast)
qed (use table_ok_wf free_mem_law free_mem_full in blast)+

interpretation worst: region_allocator "table_ok nr" "alloc_worst nr" "free_mem nr" nr
  for nr
proof
  show "\<exists>r t gs. alloc_worst nr c s = Ok (r, t) \<and> table_ok nr t gs \<and> length gs \<le> length hs \<and>
    (case r of None \<Rightarrow> gs = hs
     | Some b \<Rightarrow> unat b + unat c < 2 ^ 32 \<and> block b c \<subseteq> clicks_of hs
         \<and> clicks_of gs = clicks_of hs - block b c)"
    if "table_ok nr s hs" "c \<noteq> 0" for s :: "('a) hole_table_scheme" and hs and c :: clicks
    by (rule cut_take_law [OF that(1)]) (use alloc_worst_table [OF that] in blast)
qed (use table_ok_wf free_mem_law free_mem_full in blast)+

end
