(* ===== verification/Hole_Props.thy ===== *)
theory Hole_Props
  imports Hole_Alloc
begin

text \<open>
  The properties of the hole table, with a table of four slots and two holes as the
  concrete input of the witnesses.
\<close>

definition small_table :: hole_table where
  "small_table = \<lparr>hole = (\<lambda>i. if i = 0 then \<lparr>h_next = Some 1, h_base = 10, h_len = 5\<rparr>
                              else if i = 1 then \<lparr>h_next = None, h_base = 20, h_len = 8\<rparr>
                              else if i = 2 then \<lparr>h_next = Some 3, h_base = 0, h_len = 0\<rparr>
                              else \<lparr>h_next = None, h_base = 0, h_len = 0\<rparr>),
                  hole_head = Some 0, free_slots = Some 2\<rparr>"

lemma small_table_ok: "table_ok 4 small_table [(10, 5), (20, 8)]"
proof (rule table_okI)
  show "hole_lists small_table [0, 1] [2, 3]"
    by (simp add: hole_lists_def nxt_def small_table_def)
  show "set [0, 1] \<union> set [2, 3] = {..<4 :: nat}" by auto
  show "map (span small_table) [0, 1] = [(10, 5), (20, 8)]" by (simp add: span_def small_table_def)
  show "wf_holes [(10, 5), (20, 8)]" by (simp add: wf_holes_def before_def)
qed

lemma fuel_five:
  "worst_fit 5 = worst_fit (Suc (Suc (Suc (Suc (Suc 0)))))"
  "first_fit 5 = first_fit (Suc (Suc (Suc (Suc (Suc 0)))))"
  by (simp_all add: numeral_eq_Suc)

lemma small_worst:
  "alloc_worst 4 3 small_table = Ok (Some 20, set_len 1 5 (set_base 1 23 small_table))"
  by (simp add: alloc_worst_def small_table_def bite_def set_len_def set_base_def nxt_def fuel_five)

lemma small_first:
  "alloc_first 4 100 3 small_table = Ok (Some 10, set_len 0 2 (set_base 0 13 small_table))"
  by (simp add: alloc_first_def small_table_def bite_def set_len_def set_base_def nxt_def fuel_five)

text \<open>C29: \<open>free_mem\<close> on a well-formed table with a slot left puts exactly the freed clicks
  into the list, keeps it sorted, disjoint and coalesced, and leaves no slot unaccounted for.\<close>
theorem free_mem_spec:
  assumes "table_ok nr s hs" and "clicks \<noteq> 0" "unat base + unat clicks < 2 ^ 32"
    and "{unat base ..< unat base + unat clicks} \<inter> clicks_of hs = {}" and "length hs < nr"
  shows "\<exists>t hs'. free_mem nr base clicks s = Ok t \<and> table_ok nr t hs'
    \<and> clicks_of hs' = clicks_of hs \<union> {unat base ..< unat base + unat clicks}
    \<and> hole_table.more t = hole_table.more s"
  using assms by (rule free_mem_table)

theorem free_mem_spec_witness:
  "\<exists>t hs'. free_mem 4 15 5 small_table = Ok t \<and> table_ok 4 t hs'
    \<and> clicks_of hs' = clicks_of [(10, 5), (20, 8)] \<union> {15 ..< 20}"
  using free_mem_spec [OF small_table_ok, of 5 15] by (simp add: Int_Un_distrib)

text \<open>With the hole table full, \<open>free_mem\<close> of a non-empty block panics, whatever the block: also
  when it would only extend a hole that is there.\<close>

lemma free_mem_panics_when_full:
  assumes "table_ok nr s hs" and "clicks \<noteq> 0" and "length hs = nr"
  shows "free_mem nr base clicks s = Panic ''Hole table full''"
  using assms by (auto intro: free_mem_full)

text \<open>The first-fit half of \<open>alloc_mem\<close>: it returns the start of the lowest hole below
  \<open>swap_base\<close> that is long enough and takes the block off its front, or there is no such
  hole and nothing changes.\<close>
lemma alloc_first_spec:
  assumes "table_ok nr s hs"
  shows "(alloc_first nr limit c s = Ok (None, s) \<and> (\<forall>h \<in> set hs. fst h < unat limit \<longrightarrow> snd h < unat c))
    \<or> (\<exists>b t us h vs. alloc_first nr limit c s = Ok (Some b, t) \<and> hs = us @ h # vs
        \<and> unat b = fst h \<and> unat c \<le> snd h \<and> b < limit \<and> (\<forall>u \<in> set us. snd u < unat c)
        \<and> table_ok nr t (us @ (if snd h = unat c then [] else [(fst h + unat c, snd h - unat c)]) @ vs))"
  using alloc_first_table [OF assms, of limit c] unfolding cuts_def rest_of_def by blast

lemma alloc_first_spec_witness:
  "\<exists>b t us h vs. alloc_first 4 100 3 small_table = Ok (Some b, t) \<and> [(10, 5), (20, 8)] = us @ h # vs
    \<and> unat b = fst h \<and> us = [] \<and> h = (10, 5) \<and> table_ok 4 t [(13, 2), (20, 8)]"
  using alloc_first_spec [OF small_table_ok, of 100 3] unfolding small_first
  by (auto simp: Cons_eq_append_conv)

text \<open>C31: The worst-fit half of \<open>alloc_mem\<close>: it takes the block off the front of a longest
  hole, or no hole is long enough and nothing changes.\<close>
theorem alloc_worst_spec:
  assumes "table_ok nr s hs" and "c \<noteq> 0"
  shows "(alloc_worst nr c s = Ok (None, s) \<and> (\<forall>h \<in> set hs. snd h < unat c))
    \<or> (\<exists>b t us h vs. alloc_worst nr c s = Ok (Some b, t) \<and> hs = us @ h # vs
        \<and> unat b = fst h \<and> unat c \<le> snd h \<and> (\<forall>g \<in> set hs. snd g \<le> snd h)
        \<and> table_ok nr t (us @ (if snd h = unat c then [] else [(fst h + unat c, snd h - unat c)]) @ vs))"
  using alloc_worst_table [OF assms] unfolding cuts_def rest_of_def by blast

theorem alloc_worst_spec_witness:
  "\<exists>b t us h vs. alloc_worst 4 3 small_table = Ok (Some b, t) \<and> [(10, 5), (20, 8)] = us @ h # vs
    \<and> unat b = fst h \<and> snd h = 8"
  using alloc_worst_spec [OF small_table_ok, of 3] unfolding small_worst
  by (auto simp: Cons_eq_append_conv)

text \<open>C32: Freeing what was just allocated restores the list of holes, under either policy.\<close>
theorem alloc_free_roundtrip:
  assumes "table_ok nr s hs" and "c \<noteq> 0" and "length hs < nr"
    and "alloc_first nr limit c s = Ok (Some b, t) \<or> alloc_worst nr c s = Ok (Some b, t)"
  shows "\<exists>u. free_mem nr b c t = Ok u \<and> table_ok nr u hs"
  using assms(4) first.take_then_give [OF assms(1-3)] worst.take_then_give [OF assms(1-3)] by blast

theorem alloc_free_roundtrip_witness:
  "\<exists>u. free_mem 4 20 3 (set_len 1 5 (set_base 1 23 small_table)) = Ok u \<and> table_ok 4 u [(10, 5), (20, 8)]"
  using alloc_free_roundtrip [OF small_table_ok, of 3 0 20] small_worst by simp

text \<open>C17: Memory is conserved by any sequence of allocations and frees of held blocks, under
  either policy: no two held blocks overlap, none overlaps a hole, and held blocks and holes
  are together the memory there was. The sequence ends or panics with a full table; it never
  follows a null pointer or runs forever.\<close>
theorem memory_conserved:
  assumes "table_ok nr s hs" and "conserved M live hs" and "\<forall>c. Take c \<in> set rs \<longrightarrow> c \<noteq> 0"
    and "alloc = alloc_first nr limit \<or> alloc = alloc_worst nr"
  shows "(\<exists>m. serve alloc (free_mem nr) rs live s = Panic m) \<or>
    (\<exists>live' t gs. serve alloc (free_mem nr) rs live s = Ok (live', t) \<and> table_ok nr t gs \<and> conserved M live' gs)"
  using assms(4) first.serve_conserves [OF assms(1-3)] worst.serve_conserves [OF assms(1-3)] by blast

theorem memory_conserved_witness:
  "(\<exists>m. serve (alloc_worst 4) (free_mem 4) [Take 3, Take 5, Give 1] [] small_table = Panic m) \<or>
    (\<exists>live' t gs. serve (alloc_worst 4) (free_mem 4) [Take 3, Take 5, Give 1] [] small_table = Ok (live', t)
       \<and> table_ok 4 t gs \<and> conserved (clicks_of [(10, 5), (20, 8)]) live' gs)"
  using memory_conserved [OF small_table_ok, of "clicks_of [(10, 5), (20, 8)]" "[]" "[Take 3, Take 5, Give 1]"
    "alloc_worst 4" 0] by (simp add: conserved_def)

end
