(* ===== verification/Machine.thy ===== *)
theory Machine
  imports Prelude
begin

text \<open>
  What the kernel and the memory manager share: the memory map of a process, the status a
  call returns, and the constants of MINIX headers that are not part of the sources. These
  constants are an argument of the definitions that use them.
\<close>

datatype seg = T | D | S

record mem_map =
  mem_vir :: "32 word"
  mem_phys :: "32 word"
  mem_len :: "32 word"

text \<open>Status codes by name; their numbers are in \<^verbatim>\<open>errno.h\<close>. \<open>Unspecified\<close> is the value of a
  function that ends without a return statement.\<close>

datatype status = OK | EPERM | ESRCH | EIO | E2BIG | EBUSY | EINVAL | ENOMEM | EFAULT | EDOM
  | ELOCKED | E_BAD_SRC | E_BAD_DEST | E_NO_PERM | E_BAD_PROC | E_BAD_FCN
  | Errno int | Value int | Unspecified

record config =
  NR_TASKS :: nat
  NR_PROCS :: nat
  LOW_USER :: nat
  MM_PROC_NR :: int
  FS_PROC_NR :: int
  CLICK_SHIFT :: nat
  MESS_SIZE :: nat
  ALLOW_GAP_MESSAGES :: bool
  HZ :: int
  M3_STRING :: nat
  SIGALRM :: nat
  SIGTRAP :: nat
  ABS :: int
  CPVEC_NR :: int
  seg_of :: "int \<Rightarrow> seg"
  TRACEBIT :: "32 word"
  status_code :: "status \<Rightarrow> int"

text \<open>A machine of nine tasks and four process slots, for the concrete inputs.\<close>

definition small_config :: config where
  "small_config = \<lparr>NR_TASKS = 9, NR_PROCS = 4, LOW_USER = 2, MM_PROC_NR = 0, FS_PROC_NR = 1, CLICK_SHIFT = 8, MESS_SIZE = 36, ALLOW_GAP_MESSAGES = True, HZ = 60,
     M3_STRING = 14, SIGALRM = 14, SIGTRAP = 5, ABS = - 999, CPVEC_NR = 16,
     seg_of = (\<lambda>i. if i = 0 then T else if i = 1 then D else S), TRACEBIT = 256, status_code = (\<lambda>_. 0)\<rparr>"

end
