(* ===== verification/Swap.thy ===== *)
theory Swap
  imports Hole_Alloc Machine
begin

text \<open>
  The rest of \<^verbatim>\<open>mm/alloc.c\<close>: the process table entries it works on, the initialisation of
  the hole table, the two policies of \<open>alloc_mem\<close>, the swapping of processes out to and in
  from the swap area, and the two system calls that set the policy and report the holes.
  The state is the hole table extended by the other file-scope variables.
\<close>

section \<open>State\<close>

datatype mp_flag = IN_USE | WAITING | ZOMBIE | PAUSED | ALARM_ON | SEPARATE | TRACED | STOPPED
  | SIGSUSPENDED | REPLY | ONSWAP | SWAPIN

record mproc =
  mp_seg :: "seg \<Rightarrow> mem_map"
  mp_pid :: int
  mp_procgrp :: int
  mp_wpid :: int
  mp_parent :: nat
  mp_effuid :: int
  mp_flags :: "mp_flag set"
  mp_swapq :: "nat option"
  mp_reply_res2 :: int
  mp_sched_group :: int

text \<open>Messages to the kernel and the file system, in the order they are sent.\<close>

datatype mm_call =
    Sys_newmap nat "seg \<Rightarrow> mem_map"
  | Lseek int "32 word"
  | Rw_seg bool int nat "32 word"
  | Tell_fs_chdir
  | Open_file string
  | Close int
  | Check_pending nat
  | Tell_fs_exit int
  | Tell_fs_sync
  | Sys_abort int "8 word list" int
  | Sys_sysctl nat int bool "32 word"

definition NR_HOLES :: "config \<Rightarrow> nat" where
  "NR_HOLES cf = 2 * NR_PROCS cf"

record mm = hole_table +
  swap_fd :: int
  swap_offset :: "32 word"
  swap_base :: clicks
  swap_maxsize :: clicks
  in_queue :: "nat option"
  outswap :: nat
  wf_mode :: int
  mprocs :: "nat \<Rightarrow> mproc"
  calls :: "mm_call list"

definition call :: "mm_call list \<Rightarrow> mm \<Rightarrow> mm" where
  "call cs s = s\<lparr>calls := calls s @ cs\<rparr>"

definition set_mproc :: "nat \<Rightarrow> (mproc \<Rightarrow> mproc) \<Rightarrow> mm \<Rightarrow> mm" where
  "set_mproc i f s = s\<lparr>mprocs := (mprocs s)(i := f (mprocs s i))\<rparr>"

section \<open>mem_init\<close>

definition init_table :: "config \<Rightarrow> mm \<Rightarrow> mm" where
  "init_table cf s = s\<lparr>
     hole := (\<lambda>i. (hole s i)\<lparr>h_next := if Suc i < NR_HOLES cf then Some (Suc i) else None\<rparr>),
     hole_head := None,
     free_slots := Some 0\<rparr>"

text \<open>The kernel answers the \<open>k\<close>-th \<open>SYS_MEM\<close> request with \<open>sys_mem k\<close>: an error, or the base
  and size of a chunk and the total.\<close>

fun mem_chunks :: "nat \<Rightarrow> config \<Rightarrow> (nat \<Rightarrow> (clicks \<times> clicks \<times> clicks) option) \<Rightarrow> nat
    \<Rightarrow> clicks \<Rightarrow> clicks \<Rightarrow> mm \<Rightarrow> (clicks \<times> clicks \<times> mm) res" where
  "mem_chunks 0 cf sys_mem k mem_total free s = Hang"
| "mem_chunks (Suc n) cf sys_mem k mem_total free s =
     (case sys_mem k of
        None \<Rightarrow> Panic ''bad SYS_MEM?''
      | Some (base, sz, tot) \<Rightarrow>
          if sz = 0 then Ok (mem_total, free, s)
          else bind_res (free_mem (NR_HOLES cf) base sz s)
            (\<lambda>s. mem_chunks n cf sys_mem (Suc k) tot (free + sz)
               (if swap_base s < base + sz then s\<lparr>swap_base := base + sz\<rparr> else s)))"

definition mem_init :: "nat \<Rightarrow> config \<Rightarrow> (nat \<Rightarrow> (clicks \<times> clicks \<times> clicks) option) \<Rightarrow> clicks \<Rightarrow> mm
    \<Rightarrow> (clicks \<times> clicks \<times> mm) res" where
  "mem_init n cf sys_mem mem_total s =
     bind_res (mem_chunks n cf sys_mem 0 mem_total 0 (init_table cf s))
       (\<lambda>(mem_total, free, s). Ok (mem_total, free,
          s\<lparr>swap_base := swap_base s + 1, swap_maxsize := 0 - (swap_base s + 1)\<rparr>))"

section \<open>swap_out and alloc_mem\<close>

text \<open>The size of data, gap and stack, which lie in one block.\<close>

definition data_size :: "mproc \<Rightarrow> clicks" where
  "data_size rmp = mem_vir (mp_seg rmp S) + mem_len (mp_seg rmp S) - mem_vir (mp_seg rmp D)"

fun find_swap_hole :: "nat \<Rightarrow> mm \<Rightarrow> clicks \<Rightarrow> slot option \<Rightarrow> slot option
    \<Rightarrow> (slot option \<times> slot) option res" where
  "find_swap_hole 0 s sz prev_ptr hp = Hang"
| "find_swap_hole (Suc n) s sz prev_ptr hp =
     (case hp of
        None \<Rightarrow> Ok None
      | Some h \<Rightarrow>
          if swap_base s \<le> h_base (hole s h) \<and> sz \<le> h_len (hole s h) then Ok (Some (prev_ptr, h))
          else find_swap_hole n s sz (Some h) (h_next (hole s h)))"

text \<open>The new physical addresses of a process whose data block moves to \<open>new_base\<close>.\<close>

definition move_segs :: "clicks \<Rightarrow> mproc \<Rightarrow> mproc" where
  "move_segs new_base rmp = rmp\<lparr>mp_seg := (mp_seg rmp)
     (D := (mp_seg rmp D)\<lparr>mem_phys := new_base\<rparr>,
      S := (mp_seg rmp S)\<lparr>mem_phys := new_base + (mem_vir (mp_seg rmp S) - mem_vir (mp_seg rmp D))\<rparr>)\<rparr>"

definition swap_pos :: "config \<Rightarrow> mm \<Rightarrow> clicks \<Rightarrow> 32 word" where
  "swap_pos cf s base = swap_offset s + push_bit (CLICK_SHIFT cf) (base - swap_base s)"

text \<open>Writing process \<open>rmp\<close> to the block at \<open>new_base\<close>.\<close>

definition write_out :: "config \<Rightarrow> nat \<Rightarrow> clicks \<Rightarrow> clicks \<Rightarrow> mm \<Rightarrow> mm res" where
  "write_out cf rmp sz new_base s =
     (let s = call [Lseek (swap_fd s) (swap_pos cf s new_base),
                    Rw_seg True (swap_fd s) rmp (push_bit (CLICK_SHIFT cf) sz)] s;
          old_base = mem_phys (mp_seg (mprocs s rmp) D);
          s = set_mproc rmp (move_segs new_base) s;
          s = call [Sys_newmap rmp (mp_seg (mprocs s rmp))] s
      in bind_res (free_mem (NR_HOLES cf) old_base sz s)
           (\<lambda>s. Ok ((set_mproc rmp (\<lambda>p. p\<lparr>mp_flags := insert ONSWAP (mp_flags p)\<rparr>) s)\<lparr>outswap := rmp\<rparr>)))"

definition candidate :: "mproc \<Rightarrow> bool" where
  "candidate rmp \<longleftrightarrow> mp_flags rmp \<inter> {PAUSED, WAITING, SIGSUSPENDED} \<noteq> {}
     \<and> mp_flags rmp \<inter> {TRACED, REPLY, ONSWAP} = {}"

definition next_proc :: "config \<Rightarrow> nat \<Rightarrow> nat" where
  "next_proc cf rmp = (if Suc rmp = NR_PROCS cf then LOW_USER cf else Suc rmp)"

fun swap_scan :: "nat \<Rightarrow> config \<Rightarrow> nat \<Rightarrow> mm \<Rightarrow> (bool \<times> mm) res" where
  "swap_scan 0 cf rmp s = Hang"
| "swap_scan (Suc n) cf rmp s =
     (let rmp = next_proc cf rmp;
          continue = (if rmp \<noteq> outswap s then swap_scan n cf rmp s else Ok (False, s));
          sz = data_size (mprocs s rmp)
      in if \<not> candidate (mprocs s rmp) then continue
         else bind_res (find_swap_hole (Suc (NR_HOLES cf)) s sz None (hole_head s))
           (\<lambda>found. case found of
               None \<Rightarrow> continue
             | Some (prev_ptr, hp) \<Rightarrow>
                 bind_res (bite prev_ptr hp sz s)
                   (\<lambda>(new_base, s). bind_res (write_out cf rmp sz new_base s) (\<lambda>s. Ok (True, s)))))"

definition swap_out :: "config \<Rightarrow> mm \<Rightarrow> (bool \<times> mm) res" where
  "swap_out cf s = swap_scan (Suc (NR_PROCS cf)) cf (outswap s) s"

fun alloc_loop :: "nat \<Rightarrow> config \<Rightarrow> clicks \<Rightarrow> mm \<Rightarrow> (clicks option \<times> mm) res" where
  "alloc_loop 0 cf clicks s = Hang"
| "alloc_loop (Suc n) cf clicks s =
     bind_res (alloc_first (NR_HOLES cf) (swap_base s) clicks s)
       (\<lambda>(found, s). case found of
           Some b \<Rightarrow> Ok (Some b, s)
         | None \<Rightarrow> bind_res (swap_out cf s)
             (\<lambda>(more, s). if more then alloc_loop n cf clicks s else Ok (None, s)))"

definition alloc_mem :: "config \<Rightarrow> clicks \<Rightarrow> mm \<Rightarrow> (clicks option \<times> mm) res" where
  "alloc_mem cf clicks s =
     (if wf_mode s = 1 then alloc_worst (NR_HOLES cf) clicks s
      else alloc_loop (Suc (NR_PROCS cf)) cf clicks s)"

section \<open>The queue of processes to swap in\<close>

text \<open>A \<open>struct mproc **\<close> into the queue: the variable \<open>in_queue\<close>, or the link of a process.\<close>

definition get_link :: "nat option \<Rightarrow> mm \<Rightarrow> nat option" where
  "get_link pmp s = (case pmp of None \<Rightarrow> in_queue s | Some p \<Rightarrow> mp_swapq (mprocs s p))"

definition set_link :: "nat option \<Rightarrow> nat option \<Rightarrow> mm \<Rightarrow> mm" where
  "set_link pmp v s = (case pmp of
       None \<Rightarrow> s\<lparr>in_queue := v\<rparr>
     | Some p \<Rightarrow> set_mproc p (\<lambda>r. r\<lparr>mp_swapq := v\<rparr>) s)"

fun queue_end :: "nat \<Rightarrow> mm \<Rightarrow> nat option \<Rightarrow> nat option res" where
  "queue_end 0 s pmp = Hang"
| "queue_end (Suc n) s pmp =
     (case get_link pmp s of None \<Rightarrow> Ok pmp | Some p \<Rightarrow> queue_end n s (Some p))"

definition swap_inqueue :: "config \<Rightarrow> nat \<Rightarrow> mm \<Rightarrow> mm res" where
  "swap_inqueue cf rmp s =
     (if SWAPIN \<in> mp_flags (mprocs s rmp) then Ok s
      else bind_res (queue_end (Suc (NR_PROCS cf)) s None)
        (\<lambda>pmp. Ok (set_mproc rmp (\<lambda>p. p\<lparr>mp_swapq := None, mp_flags := insert SWAPIN (mp_flags p)\<rparr>)
                    (set_link pmp (Some rmp) s))))"

text \<open>Reading process \<open>rmp\<close> back into the block at \<open>new_base\<close>. \<open>pending\<close> is
  \<open>check_pending\<close> of \<^verbatim>\<open>mm/signal.c\<close>.\<close>

definition read_in :: "config \<Rightarrow> nat \<Rightarrow> clicks \<Rightarrow> clicks \<Rightarrow> mm \<Rightarrow> mm res" where
  "read_in cf rmp sz new_base s =
     (let old_base = mem_phys (mp_seg (mprocs s rmp) D);
          s = set_mproc rmp (move_segs new_base) s;
          s = call [Sys_newmap rmp (mp_seg (mprocs s rmp)),
                    Lseek (swap_fd s) (swap_pos cf s old_base),
                    Rw_seg False (swap_fd s) rmp (push_bit (CLICK_SHIFT cf) sz)] s
      in bind_res (free_mem (NR_HOLES cf) old_base sz s)
           (\<lambda>s. Ok (set_mproc rmp (\<lambda>p. p\<lparr>mp_flags := mp_flags p - {ONSWAP, SWAPIN}\<rparr>) s)))"

fun swap_in_loop :: "nat \<Rightarrow> config \<Rightarrow> (nat \<Rightarrow> mm \<Rightarrow> mm) \<Rightarrow> nat option \<Rightarrow> mm \<Rightarrow> mm res" where
  "swap_in_loop 0 cf pending pmp s = Hang"
| "swap_in_loop (Suc n) cf pending pmp s =
     (case get_link pmp s of
        None \<Rightarrow> Ok s
      | Some rmp \<Rightarrow>
          if SWAPIN \<notin> mp_flags (mprocs s rmp)
          then swap_in_loop n cf pending pmp (set_link pmp (mp_swapq (mprocs s rmp)) s)
          else bind_res (alloc_mem cf (data_size (mprocs s rmp)) s)
            (\<lambda>(found, s). case found of
                None \<Rightarrow> swap_in_loop n cf pending (Some rmp) s
              | Some new_base \<Rightarrow>
                  bind_res (read_in cf rmp (data_size (mprocs s rmp)) new_base s)
                    (\<lambda>s. swap_in_loop n cf pending pmp
                       (pending rmp (call [Check_pending rmp] (set_link pmp (mp_swapq (mprocs s rmp)) s))))))"

definition swap_in :: "config \<Rightarrow> (nat \<Rightarrow> mm \<Rightarrow> mm) \<Rightarrow> mm \<Rightarrow> mm res" where
  "swap_in cf pending s = swap_in_loop (Suc (NR_PROCS cf)) cf pending None s"

section \<open>swap_on and swap_off\<close>

text \<open>\<open>fd\<close> and \<open>errno\<close> are what \<open>open\<close> gives back. The function has no return statement
  on success.\<close>

definition swap_on :: "config \<Rightarrow> string \<Rightarrow> 32 word \<Rightarrow> 32 word \<Rightarrow> int \<Rightarrow> int \<Rightarrow> mm
    \<Rightarrow> (status \<times> mm) res" where
  "swap_on cf file offset sz fd errno s =
     (if swap_fd s \<noteq> - 1 then Ok (EBUSY, s)
      else let s = (call [Tell_fs_chdir, Open_file file] s)\<lparr>swap_fd := fd\<rparr>
        in if fd < 0 then Ok (Errno (- errno), s)
           else let s = s\<lparr>swap_offset := offset\<rparr>;
                    sz = drop_bit (CLICK_SHIFT cf) sz;
                    sz = (if swap_maxsize s < sz then swap_maxsize s else sz)
             in if 0 < sz
                then bind_res (free_mem (NR_HOLES cf) (swap_base s) sz s) (\<lambda>s. Ok (Unspecified, s))
                else Ok (Unspecified, s))"

fun queue_all :: "config \<Rightarrow> nat list \<Rightarrow> mm \<Rightarrow> mm res" where
  "queue_all cf [] s = Ok s"
| "queue_all cf (i # is) s =
     bind_res (if ONSWAP \<in> mp_flags (mprocs s i) then swap_inqueue cf i s else Ok s) (queue_all cf is)"

text \<open>The loop that removes the swap hole: after a removal it starts over at the head of the
  list and steps on from there, without looking whether there is one.\<close>

fun drop_swap_holes :: "nat \<Rightarrow> slot option \<Rightarrow> slot option \<Rightarrow> mm \<Rightarrow> mm res" where
  "drop_swap_holes 0 prev_ptr hp s = Hang"
| "drop_swap_holes (Suc n) prev_ptr hp s =
     (case hp of
        None \<Rightarrow> Ok s
      | Some h \<Rightarrow>
          if swap_base s \<le> h_base (hole s h)
          then bind_res (del_slot prev_ptr h s)
            (\<lambda>s. case hole_head s of
                None \<Rightarrow> Null_deref
              | Some h \<Rightarrow> drop_swap_holes n (Some h) (h_next (hole s h)) s)
          else drop_swap_holes n (Some h) (h_next (hole s h)) s)"

definition user_procs :: "config \<Rightarrow> nat list" where
  "user_procs cf = [LOW_USER cf ..< NR_PROCS cf]"

definition swap_off :: "nat \<Rightarrow> config \<Rightarrow> (nat \<Rightarrow> mm \<Rightarrow> mm) \<Rightarrow> mm \<Rightarrow> (status \<times> mm) res" where
  "swap_off n cf pending s =
     (if swap_fd s = - 1 then Ok (OK, s)
      else bind_res (queue_all cf (user_procs cf) s) (\<lambda>s.
           bind_res (swap_in cf pending s) (\<lambda>s.
             if list_ex (\<lambda>i. ONSWAP \<in> mp_flags (mprocs s i)) (user_procs cf) then Ok (ENOMEM, s)
             else bind_res (drop_swap_holes n None (hole_head s) s)
               (\<lambda>s. Ok (OK, (call [Close (swap_fd s)] s)\<lparr>swap_fd := - 1\<rparr>)))))"

section \<open>The system calls of the exercise\<close>

definition do_worst_fit :: "int \<Rightarrow> mm \<Rightarrow> status \<times> mm" where
  "do_worst_fit m1_i1 s = (OK, s\<lparr>wf_mode := m1_i1\<rparr>)"

text \<open>The loop of \<open>do_hole_map\<close>: the pairs it puts into the buffer.\<close>

fun list_holes :: "nat \<Rightarrow> mm \<Rightarrow> int \<Rightarrow> int \<Rightarrow> slot option \<Rightarrow> (clicks \<times> clicks) list res" where
  "list_holes 0 s limit count h = Hang"
| "list_holes (Suc n) s limit count h =
     (case h of
        None \<Rightarrow> Ok []
      | Some i \<Rightarrow>
          if count < limit - 1
          then bind_res (list_holes n s limit (count + 1) (h_next (hole s i)))
                 (\<lambda>ps. Ok ((h_len (hole s i), h_base (hole s i)) # ps))
          else Ok [])"

text \<open>The result and the pairs handed to \<open>sys_copy\<close>, whose answer is \<open>copy_res\<close>. The size is
  divided as an unsigned number.\<close>

definition do_hole_map :: "config \<Rightarrow> int \<Rightarrow> status \<Rightarrow> mm \<Rightarrow> (status \<times> (clicks \<times> clicks) list) res" where
  "do_hole_map cf user_buf_size copy_res s =
     (let user_max_pairs = int32 (uint32 user_buf_size div 8);
          limit = (if user_max_pairs < 512 then user_max_pairs else 512)
      in if user_buf_size < 0 then Ok (EINVAL, [])
         else bind_res (list_holes (Suc (NR_HOLES cf)) s limit 0 (hole_head s))
           (\<lambda>ps. Ok (if copy_res \<noteq> OK then copy_res else Value (int (length ps)), ps @ [(0, 0)])))"

end
