(* ===== verification/Swap_Inv.thy ===== *)
theory Swap_Inv
  imports Swap
begin

text \<open>
  The invariant of the memory manager: every process that has memory owns one block for its
  data and stack, the blocks do not overlap each other or a hole, and blocks and holes are
  together the memory \<open>M\<close>. Swapping out keeps it; \<open>alloc_mem\<close> takes its block out of \<open>M\<close>.
\<close>

section \<open>Fields and frames\<close>

lemma mm_more_sel:
  assumes "hole_table.more (u :: mm) = hole_table.more (t :: mm)"
  shows "mprocs u = mprocs t" "swap_base u = swap_base t" "outswap u = outswap t" "wf_mode u = wf_mode t"
    "in_queue u = in_queue t" "swap_fd u = swap_fd t"
  using assms by (cases u, cases t, simp)+

lemma table_ok_cong:
  assumes "hole u = hole t" "hole_head u = hole_head t" "free_slots u = free_slots t"
  shows "table_ok nr (u :: ('m) hole_table_scheme) hs = table_ok nr (t :: ('k) hole_table_scheme) hs"
proof -
  have "nxt u = nxt t" "span u = span t" by (rule ext; simp only: nxt_def span_def assms(1))+
  then show ?thesis using assms(2,3) by (simp add: table_ok_def hole_lists_def)
qed

lemma mm_upd_table [simp]:
  "table_ok nr (call cs s) hs = table_ok nr s hs"
  "table_ok nr (set_mproc i f s) hs = table_ok nr s hs"
  "table_ok nr (s\<lparr>outswap := j\<rparr>) hs = table_ok nr s hs"
  "table_ok nr (s\<lparr>swap_base := b\<rparr>) hs = table_ok nr s hs"
  "table_ok nr (s\<lparr>swap_maxsize := c\<rparr>) hs = table_ok nr s hs"
  by (rule table_ok_cong; simp add: call_def set_mproc_def)+

lemma mm_upd_sel [simp]:
  "mprocs (call cs s) = mprocs s" "swap_base (call cs s) = swap_base s" "outswap (call cs s) = outswap s"
  "wf_mode (call cs s) = wf_mode s"
  "mprocs (set_mproc i f s) = (mprocs s)(i := f (mprocs s i))" "swap_base (set_mproc i f s) = swap_base s"
  "outswap (set_mproc i f s) = outswap s" "wf_mode (set_mproc i f s) = wf_mode s"
  by (simp_all add: call_def set_mproc_def)

lemma move_segs_sel [simp]:
  "mp_flags (move_segs b p) = mp_flags p" "data_size (move_segs b p) = data_size p"
  "mem_phys (mp_seg (move_segs b p) D) = b"
  "data_size (p\<lparr>mp_flags := F\<rparr>) = data_size p"
  by (simp_all add: move_segs_def data_size_def)

section \<open>The invariant\<close>

definition in_range :: "config \<Rightarrow> nat \<Rightarrow> bool" where
  "in_range cf i \<longleftrightarrow> LOW_USER cf \<le> i \<and> i < NR_PROCS cf"

definition owner :: "config \<Rightarrow> mm \<Rightarrow> nat \<Rightarrow> bool" where
  "owner cf s i \<longleftrightarrow> in_range cf i \<and> IN_USE \<in> mp_flags (mprocs s i) \<and> ZOMBIE \<notin> mp_flags (mprocs s i)"

definition data_base :: "mm \<Rightarrow> nat \<Rightarrow> clicks" where
  "data_base s i = mem_phys (mp_seg (mprocs s i) D)"

definition data_block :: "mm \<Rightarrow> nat \<Rightarrow> nat set" where
  "data_block s i = block (data_base s i) (data_size (mprocs s i))"

text \<open>What holds of each process that has memory, and of each that waits.\<close>

definition segs_ok :: "mproc \<Rightarrow> bool" where
  "segs_ok p \<longleftrightarrow> mem_phys (mp_seg p S)
     = mem_phys (mp_seg p D) + (mem_vir (mp_seg p S) - mem_vir (mp_seg p D))"

definition owner_ok :: "mm \<Rightarrow> nat \<Rightarrow> bool" where
  "owner_ok s i \<longleftrightarrow> data_size (mprocs s i) \<noteq> 0
     \<and> unat (data_base s i) + unat (data_size (mprocs s i)) < 2 ^ 32
     \<and> segs_ok (mprocs s i)
     \<and> (ONSWAP \<in> mp_flags (mprocs s i) \<longleftrightarrow> swap_base s \<le> data_base s i)"

definition procs_ok :: "config \<Rightarrow> mm \<Rightarrow> bool" where
  "procs_ok cf s \<longleftrightarrow> in_range cf (outswap s) \<and> (\<forall>i. owner cf s i \<longrightarrow> owner_ok s i)
     \<and> (\<forall>i. in_range cf i \<and> candidate (mprocs s i) \<longrightarrow> owner cf s i)"

definition partition :: "config \<Rightarrow> nat set \<Rightarrow> mm \<Rightarrow> nat set \<Rightarrow> bool" where
  "partition cf M s F \<longleftrightarrow> (\<forall>i. owner cf s i \<longrightarrow> data_block s i \<inter> F = {})
     \<and> (\<forall>i j. owner cf s i \<and> owner cf s j \<and> i \<noteq> j \<longrightarrow> data_block s i \<inter> data_block s j = {})
     \<and> (\<Union>i \<in> {i. owner cf s i}. data_block s i) \<union> F = M"

definition mm_ok :: "config \<Rightarrow> nat set \<Rightarrow> mm \<Rightarrow> (nat \<times> nat) list \<Rightarrow> bool" where
  "mm_ok cf M s hs \<longleftrightarrow> table_ok (NR_HOLES cf) s hs \<and> procs_ok cf s \<and> partition cf M s (clicks_of hs)"

lemma procs_cong:
  assumes "mprocs t = mprocs s" "swap_base t = swap_base s" "outswap t = outswap s"
  shows "procs_ok cf t = procs_ok cf s" "partition cf M t F = partition cf M s F"
    "owner cf t = owner cf s" "data_base t = data_base s" "data_block t = data_block s"
  using assms by (simp_all add: procs_ok_def partition_def owner_def owner_ok_def data_base_def
      data_block_def fun_eq_iff)

lemma partition_cut:
  assumes "partition cf M s F" and "B \<subseteq> F"
  shows "partition cf (M - B) s (F - B)"
  using assms unfolding partition_def by blast

lemma partition_block: "partition cf M s F \<Longrightarrow> F \<subseteq> M"
  by (auto simp: partition_def)

text \<open>One process moves to the block \<open>B\<close>, which is nobody's, and its old block becomes free.\<close>

lemma partition_move:
  assumes p: "partition cf (M - B) s F" and B: "B \<subseteq> M" and i: "owner cf s i"
    and o: "\<And>j. owner cf t j = owner cf s j" and n: "data_block t i = B"
    and k: "\<And>j. j \<noteq> i \<Longrightarrow> data_block t j = data_block s j"
  shows "partition cf M t (F \<union> data_block s i)"
proof -
  have sub: "data_block s j \<subseteq> M - B" if "owner cf s j" for j using p that by (auto simp: partition_def)
  have F: "F \<subseteq> M - B" using p by (rule partition_block)
  have dj: "data_block s j \<inter> data_block s i = {}" if "owner cf s j" "j \<noteq> i" for j
    using p i that by (auto simp: partition_def)
  have dF: "data_block s j \<inter> F = {}" if "owner cf s j" for j using p that by (auto simp: partition_def)
  show ?thesis unfolding partition_def o
  proof (intro conjI allI impI)
    fix j assume j: "owner cf s j"
    show "data_block t j \<inter> (F \<union> data_block s i) = {}"
    proof (cases "j = i")
      case True
      then show ?thesis using n F sub [OF i] by blast
    next
      case False
      then show ?thesis using k dF [OF j] dj [OF j] by auto
    qed
  next
    fix j l assume jl: "owner cf s j \<and> owner cf s l \<and> j \<noteq> l"
    then have "data_block s j \<inter> data_block s l = {}" using p by (auto simp: partition_def)
    then show "data_block t j \<inter> data_block t l = {}"
      using jl n k sub by (cases "j = i"; cases "l = i") (simp_all, blast+)
  next
    define R where "R = {j. owner cf s j} - {i}"
    define A where "A = (\<Union>j \<in> R. data_block s j)"
    have R: "{j. owner cf s j} = insert i R" using i by (auto simp: R_def)
    have "(\<Union>j \<in> R. data_block t j) = A"
      unfolding A_def by (rule SUP_cong) (simp_all add: R_def k)
    then have "(\<Union>j \<in> {j. owner cf s j}. data_block t j) = B \<union> A" by (simp add: R n)
    moreover have "data_block s i \<union> A \<union> F = M - B"
      using p by (simp add: partition_def R A_def)
    ultimately show "(\<Union>j \<in> {j. owner cf s j}. data_block t j) \<union> (F \<union> data_block s i) = M"
      using B by blast
  qed
qed

section \<open>Moving one process\<close>

lemma free_mem_any:
  assumes "table_ok nr s hs" and "c \<noteq> 0" "unat b + unat c < 2 ^ 32" "block b c \<inter> clicks_of hs = {}"
  shows "free_mem nr b c s = Panic ''Hole table full'' \<or>
    (\<exists>t gs. free_mem nr b c s = Ok t \<and> table_ok nr t gs \<and> clicks_of gs = clicks_of hs \<union> block b c
       \<and> hole_table.more t = hole_table.more s)"
proof (cases "length hs < nr")
  case True
  from free_mem_table [OF assms(1-3) _ True] assms(4) show ?thesis by (auto simp: block_def)
next
  case False
  with free_mem_full [OF assms(1,2)] show ?thesis by simp
qed

lemma procs_ok_move:
  assumes p: "procs_ok cf s" and i: "owner cf s i"
    and t: "mprocs t = (mprocs s)(i := (move_segs nb (mprocs s i))\<lparr>mp_flags := f\<rparr>)"
    and f: "IN_USE \<in> f" "ZOMBIE \<notin> f" "ONSWAP \<in> f \<longleftrightarrow> swap_base s \<le> nb"
    and fit: "unat nb + unat (data_size (mprocs s i)) < 2 ^ 32"
    and u: "swap_base t = swap_base s" "in_range cf (outswap t)"
  shows "procs_ok cf t" and "\<And>j. owner cf t j = owner cf s j"
    and "data_block t i = block nb (data_size (mprocs s i))"
    and "\<And>j. j \<noteq> i \<Longrightarrow> data_block t j = data_block s j"
proof -
  show o: "owner cf t j = owner cf s j" for j
    using t i f by (auto simp: owner_def)
  show "data_block t i = block nb (data_size (mprocs s i))"
    by (simp add: t data_block_def data_base_def)
  show "data_block t j = data_block s j" if "j \<noteq> i" for j
    using t that by (simp add: data_block_def data_base_def)
  have "owner_ok t j" if "owner cf s j" for j
  proof (cases "j = i")
    case True
    have "owner_ok s i" using p i by (simp add: procs_ok_def)
    with True t f fit u show ?thesis
      by (simp add: owner_ok_def data_base_def segs_ok_def) (simp add: move_segs_def)
  next
    case False
    have "owner_ok s j" using p that by (simp add: procs_ok_def)
    with False t u show ?thesis by (simp add: owner_ok_def data_base_def)
  qed
  moreover have "owner cf s j" if "in_range cf j" "candidate (mprocs t j)" for j
    using that p i t by (cases "j = i") (auto simp: procs_ok_def)
  ultimately show "procs_ok cf t" using p u o by (simp add: procs_ok_def)
qed

section \<open>swap_out\<close>

lemma find_swap_hole_find:
  "linked (nxt s) p xs \<Longrightarrow> length xs < n \<Longrightarrow>
   find_swap_hole n s sz (last_of us) p = Ok None
     \<and> (\<forall>x \<in> set xs. swap_base s \<le> h_base (hole s x) \<longrightarrow> h_len (hole s x) < sz)
   \<or> (\<exists>vs x ws. xs = vs @ x # ws \<and> find_swap_hole n s sz (last_of us) p = Ok (Some (last_of (us @ vs), x))
       \<and> swap_base s \<le> h_base (hole s x) \<and> sz \<le> h_len (hole s x))"
proof (induction xs arbitrary: p us n)
  case Nil
  then show ?case by (cases n) auto
next
  case (Cons x xs)
  then obtain m where n: "n = Suc m" "length xs < m" by (cases n) auto
  from Cons.prems(1) have p: "p = Some x" "linked (nxt s) (nxt s x) xs" by (simp_all only: chain.simps)
  show ?case
  proof (cases "swap_base s \<le> h_base (hole s x) \<and> sz \<le> h_len (hole s x)")
    case True
    with n p show ?thesis by (intro disjI2 exI [of _ "[]"] exI [of _ x] exI [of _ xs]) auto
  next
    case False
    then have step: "find_swap_hole n s sz (last_of us) p = find_swap_hole m s sz (last_of (us @ [x])) (nxt s x)"
      using n p by auto
    from Cons.IH [OF p(2) n(2), of "us @ [x]"] show ?thesis
    proof (elim disjE exE conjE)
      fix vs y ws
      assume "xs = vs @ y # ws" "find_swap_hole m s sz (last_of (us @ [x])) (nxt s x) = Ok (Some (last_of ((us @ [x]) @ vs), y))"
        "swap_base s \<le> h_base (hole s y)" "sz \<le> h_len (hole s y)"
      with step show ?thesis by (intro disjI2 exI [of _ "x # vs"] exI [of _ y] exI [of _ ws]) auto
    next
      assume "find_swap_hole m s sz (last_of (us @ [x])) (nxt s x) = Ok None"
        "\<forall>x \<in> set xs. swap_base s \<le> h_base (hole s x) \<longrightarrow> h_len (hole s x) < sz"
      with step False show ?thesis by (intro disjI1) auto
    qed
  qed
qed

lemma find_swap_hole_table:
  assumes ok: "table_ok nr s hs"
  shows "find_swap_hole (Suc nr) s sz None (hole_head s) = Ok None \<or>
    (\<exists>q x t us h vs. find_swap_hole (Suc nr) s sz None (hole_head s) = Ok (Some (q, x))
       \<and> bite q x sz s = Ok (h_base (hole s x), t) \<and> cuts nr s hs sz us h vs (h_base (hole s x)) t
       \<and> swap_base s \<le> h_base (hole s x))"
proof -
  from ok obtain xs fs where l: "hole_lists s xs fs" and slots: "set xs \<union> set fs = {..<nr}"
    and hs: "hs = map (span s) xs" and wf: "wf_holes hs" by (auto simp: table_ok_def)
  have lk: "linked (nxt s) (hole_head s) xs" using l by (simp add: hole_lists_def)
  have "length xs < Suc nr" using table_ok_bound [OF ok] hs by simp
  from find_swap_hole_find [OF lk this, of sz "[]"] show ?thesis
  proof (elim disjE exE conjE)
    fix vs x ws
    assume f: "xs = vs @ x # ws" "find_swap_hole (Suc nr) s sz (last_of []) (hole_head s) = Ok (Some (last_of ([] @ vs), x))"
      "swap_base s \<le> h_base (hole s x)" "sz \<le> h_len (hole s x)"
    from bite_cut [OF l [unfolded f(1)] slots [unfolded f(1)] hs [unfolded f(1)] wf f(4)] obtain t where
      t: "bite (last_of vs) x sz s = Ok (h_base (hole s x), t)"
        "cuts nr s hs sz (map (span s) vs) (span s x) (map (span s) ws) (h_base (hole s x)) t" by blast
    with f(2,3) show ?thesis
      by (intro disjI2 exI conjI) (simp_all del: find_swap_hole.simps)
  qed (simp del: find_swap_hole.simps)
qed

text \<open>After a block has been cut off, it is nobody's.\<close>

lemma mm_ok_cut:
  assumes ok: "mm_ok cf M s hs" and c: "cuts (NR_HOLES cf) s hs sz us h vs b t"
  shows "mm_ok cf (M - block b sz) t (us @ rest_of (unat sz) h @ vs)"
    and "block b sz \<subseteq> M" "unat b + unat sz < 2 ^ 32"
proof -
  have t: "table_ok (NR_HOLES cf) s hs" using ok by (simp add: mm_ok_def)
  note b = cut_block [OF t c]
  note m = mm_more_sel [of t s] 
  have more: "hole_table.more t = hole_table.more s" "table_ok (NR_HOLES cf) t (us @ rest_of (unat sz) h @ vs)"
    using c by (simp_all add: cuts_def)
  have "partition cf (M - block b sz) s (clicks_of (us @ rest_of (unat sz) h @ vs))"
    using ok b(2) partition_cut unfolding b(3) mm_ok_def by blast
  then show "mm_ok cf (M - block b sz) t (us @ rest_of (unat sz) h @ vs)"
    using ok more procs_cong [OF m(1-3)] by (simp add: mm_ok_def)
  have "clicks_of hs \<subseteq> M" using ok partition_block unfolding mm_ok_def by blast
  with b(2) show "block b sz \<subseteq> M" by simp
  show "unat b + unat sz < 2 ^ 32" by (rule b(1))
qed

definition on_swap :: "config \<Rightarrow> mm \<Rightarrow> nat set" where
  "on_swap cf s = {i. in_range cf i \<and> ONSWAP \<in> mp_flags (mprocs s i)}"

lemma write_out_ok:
  assumes ok: "mm_ok cf (M - block nb sz) s hs" and B: "block nb sz \<subseteq> M"
    and fit: "unat nb + unat sz < 2 ^ 32" and sz: "sz = data_size (mprocs s i)"
    and i: "owner cf s i" and nb: "swap_base s \<le> nb"
  shows "write_out cf i sz nb s = Panic ''Hole table full'' \<or>
    (\<exists>t gs. write_out cf i sz nb s = Ok t \<and> mm_ok cf M t gs \<and> on_swap cf t = insert i (on_swap cf s)
       \<and> swap_base t = swap_base s \<and> wf_mode t = wf_mode s)"
proof -
  let ?old = "data_base s i"
  define s1 where "s1 = call [Lseek (swap_fd s) (swap_pos cf s nb),
                    Rw_seg True (swap_fd s) i (push_bit (CLICK_SHIFT cf) sz)] s"
  define s2 where "s2 = set_mproc i (move_segs nb) s1"
  define s3 where "s3 = call [Sys_newmap i (mp_seg (mprocs s2 i))] s2"
  have oi: "owner_ok s i" using ok i by (simp add: mm_ok_def procs_ok_def)
  have w: "write_out cf i sz nb s = bind_res (free_mem (NR_HOLES cf) ?old sz s3)
      (\<lambda>s. Ok ((set_mproc i (\<lambda>p. p\<lparr>mp_flags := insert ONSWAP (mp_flags p)\<rparr>) s)\<lparr>outswap := i\<rparr>))"
    by (simp add: write_out_def Let_def s1_def s2_def s3_def data_base_def)
  have t3: "table_ok (NR_HOLES cf) s3 hs" using ok by (simp add: s3_def s2_def s1_def mm_ok_def)
  have d: "block ?old sz \<inter> clicks_of hs = {}"
    using ok i sz by (auto simp: mm_ok_def partition_def data_block_def)
  have c: "sz \<noteq> 0" "unat ?old + unat sz < 2 ^ 32" using oi sz by (auto simp: owner_ok_def)
  from free_mem_any [OF t3 c d] show ?thesis
  proof (elim disjE exE conjE)
    fix u gs
    assume u: "free_mem (NR_HOLES cf) ?old sz s3 = Ok u" "table_ok (NR_HOLES cf) u gs"
      "clicks_of gs = clicks_of hs \<union> block ?old sz" "hole_table.more u = hole_table.more s3"
    let ?t = "(set_mproc i (\<lambda>p. p\<lparr>mp_flags := insert ONSWAP (mp_flags p)\<rparr>) u)\<lparr>outswap := i\<rparr>"
    have e: "mprocs u = (mprocs s)(i := move_segs nb (mprocs s i))" "swap_base u = swap_base s" "wf_mode u = wf_mode s"
      using mm_more_sel [OF u(4)] by (simp_all add: s3_def s2_def s1_def)
    have m: "mprocs ?t = (mprocs s)(i := (move_segs nb (mprocs s i))\<lparr>mp_flags := insert ONSWAP (mp_flags (mprocs s i))\<rparr>)"
      using e by simp
    have i': "in_range cf i" "IN_USE \<in> mp_flags (mprocs s i)" "ZOMBIE \<notin> mp_flags (mprocs s i)"
      using i by (auto simp: owner_def)
    have f: "IN_USE \<in> insert ONSWAP (mp_flags (mprocs s i))" "ZOMBIE \<notin> insert ONSWAP (mp_flags (mprocs s i))"
      "ONSWAP \<in> insert ONSWAP (mp_flags (mprocs s i)) \<longleftrightarrow> swap_base s \<le> nb"
      using i' nb by simp_all
    have q: "swap_base ?t = swap_base s" "in_range cf (outswap ?t)" using e i' by simp_all
    have "procs_ok cf s" using ok by (simp add: mm_ok_def)
    note mv = procs_ok_move [OF this i m f fit [unfolded sz] q]
    have "procs_ok cf ?t" by (rule mv(1))
    moreover have "partition cf M ?t (clicks_of hs \<union> data_block s i)"
      by (rule partition_move [OF _ B i mv(2) _ mv(4)])
        (use ok mv(3) sz in \<open>simp_all only: mm_ok_def not_False_eq_True\<close>)
    ultimately have "mm_ok cf M ?t gs" using u(2,3) sz by (simp add: mm_ok_def data_block_def)
    moreover have "on_swap cf ?t = insert i (on_swap cf s)" using m i' by (auto simp: on_swap_def)
    ultimately show ?thesis using w u(1) e by (intro disjI2 exI [of _ ?t] exI [of _ gs]) simp
  qed (use w in simp)
qed

text \<open>Steps left until the scan is back at its start.\<close>

definition dist :: "config \<Rightarrow> nat \<Rightarrow> nat \<Rightarrow> nat" where
  "dist cf r o' = (if r < o' then o' - r else (NR_PROCS cf - r) + (o' - LOW_USER cf))"

lemma next_in_range: "in_range cf r \<Longrightarrow> in_range cf (next_proc cf r)"
  by (auto simp: in_range_def next_proc_def)

lemma dist_next:
  assumes "in_range cf r" "in_range cf o'" "next_proc cf r \<noteq> o'"
  shows "dist cf r o' = Suc (dist cf (next_proc cf r) o')"
  using assms by (auto simp: dist_def in_range_def next_proc_def split: if_splits)

lemma dist_bound: "in_range cf r \<Longrightarrow> in_range cf o' \<Longrightarrow> dist cf r o' \<le> NR_PROCS cf"
  by (auto simp: dist_def in_range_def)

text \<open>The three ends of \<open>swap_out\<close>.\<close>

definition swapped :: "config \<Rightarrow> nat set \<Rightarrow> mm \<Rightarrow> mm \<Rightarrow> bool" where
  "swapped cf M s t \<longleftrightarrow> (\<exists>i gs. in_range cf i \<and> candidate (mprocs s i) \<and> mm_ok cf M t gs
     \<and> on_swap cf t = insert i (on_swap cf s) \<and> swap_base t = swap_base s \<and> wf_mode t = wf_mode s)"

lemma swap_scan_ok:
  assumes "mm_ok cf M s hs"
  shows "in_range cf r \<Longrightarrow> dist cf r (outswap s) < n \<Longrightarrow>
    swap_scan n cf r s = Panic ''Hole table full'' \<or> swap_scan n cf r s = Ok (False, s) \<or>
    (\<exists>t. swap_scan n cf r s = Ok (True, t) \<and> swapped cf M s t)"
proof (induction n arbitrary: r)
  case 0
  then show ?case by simp
next
  case (Suc n)
  let ?i = "next_proc cf r" and ?sz = "data_size (mprocs s (next_proc cf r))"
  define continue where "continue = (if ?i \<noteq> outswap s then swap_scan n cf ?i s else Ok (False, s))"
  have o: "in_range cf (outswap s)" and p: "procs_ok cf s" and t: "table_ok (NR_HOLES cf) s hs"
    using assms by (auto simp: mm_ok_def procs_ok_def)
  have i: "in_range cf ?i" using Suc.prems(1) by (rule next_in_range)
  have c: "continue = Panic ''Hole table full'' \<or> continue = Ok (False, s) \<or>
    (\<exists>t. continue = Ok (True, t) \<and> swapped cf M s t)"
    using Suc.IH [OF i] dist_next [OF Suc.prems(1) o] Suc.prems(2) by (auto simp: continue_def)
  note unf = swap_scan.simps(2) [of n cf r s, unfolded Let_def, folded continue_def]
  show ?case
  proof (cases "candidate (mprocs s ?i)")
    case False
    with c unf show ?thesis by simp
  next
    case cand: True
    from find_swap_hole_table [OF t, of ?sz] show ?thesis
    proof (elim disjE exE conjE)
      assume "find_swap_hole (Suc (NR_HOLES cf)) s ?sz None (hole_head s) = Ok None"
      with c unf cand show ?thesis by (simp del: find_swap_hole.simps)
    next
      fix q x u us h vs
      assume f: "find_swap_hole (Suc (NR_HOLES cf)) s ?sz None (hole_head s) = Ok (Some (q, x))"
        and b: "bite q x ?sz s = Ok (h_base (hole s x), u)"
        and cu: "cuts (NR_HOLES cf) s hs ?sz us h vs (h_base (hole s x)) u"
        and sb: "swap_base s \<le> h_base (hole s x)"
      have e: "swap_scan (Suc n) cf r s = bind_res (write_out cf ?i ?sz (h_base (hole s x)) u) (\<lambda>s. Ok (True, s))"
        using unf cand f b by (simp del: find_swap_hole.simps)
      have more: "hole_table.more u = hole_table.more s" using cu by (simp add: cuts_def)
      note ms = mm_more_sel [OF more]
      have own: "owner cf u ?i" using p i cand ms procs_cong(3) [OF ms(1-3)] by (simp add: procs_ok_def)
      have sb': "swap_base u \<le> h_base (hole s x)" and sz: "?sz = data_size (mprocs u ?i)"
        using sb ms by simp_all
      note k = mm_ok_cut [OF assms cu]
      have os: "on_swap cf u = on_swap cf s" using ms by (simp add: on_swap_def)
      from write_out_ok [OF k sz own sb'] show ?thesis
        using e ms os i cand unfolding swapped_def by fastforce
    qed
  qed
qed

lemma swap_out_ok:
  assumes "mm_ok cf M s hs"
  shows "swap_out cf s = Panic ''Hole table full'' \<or> swap_out cf s = Ok (False, s) \<or>
    (\<exists>t. swap_out cf s = Ok (True, t) \<and> swapped cf M s t)"
proof -
  have o: "in_range cf (outswap s)" using assms by (auto simp: mm_ok_def procs_ok_def)
  show ?thesis unfolding swap_out_def
    by (rule swap_scan_ok [OF assms o]) (use dist_bound [OF o o] in simp)
qed

section \<open>alloc_mem\<close>

definition on_swap_room :: "config \<Rightarrow> mm \<Rightarrow> nat" where
  "on_swap_room cf s = card ({i. in_range cf i} - on_swap cf s)"

lemma finite_range: "finite {i. in_range cf i}"
  by (rule finite_subset [of _ "{..<NR_PROCS cf}"]) (auto simp: in_range_def)

lemma room_bound: "on_swap_room cf s \<le> NR_PROCS cf"
proof -
  have "on_swap_room cf s \<le> card {..<NR_PROCS cf}"
    unfolding on_swap_room_def by (rule card_mono) (auto simp: in_range_def)
  then show ?thesis by simp
qed

lemma swapped_room: "swapped cf M s t \<Longrightarrow> on_swap_room cf t < on_swap_room cf s"
proof -
  assume "swapped cf M s t"
  then obtain i where i: "in_range cf i" "candidate (mprocs s i)" "on_swap cf t = insert i (on_swap cf s)"
    by (auto simp: swapped_def)
  then have "i \<in> {i. in_range cf i} - on_swap cf s" by (auto simp: candidate_def on_swap_def)
  moreover have "{i. in_range cf i} - on_swap cf t = ({i. in_range cf i} - on_swap cf s) - {i}" using i(3) by auto
  ultimately show ?thesis unfolding on_swap_room_def
    using finite_range by (metis card_Diff1_less finite_Diff)
qed

text \<open>The outcome of an allocation of \<open>c\<close> clicks.\<close>

definition allocated :: "config \<Rightarrow> nat set \<Rightarrow> clicks \<Rightarrow> mm \<Rightarrow> clicks option \<Rightarrow> mm \<Rightarrow> bool" where
  "allocated cf M c s r t \<longleftrightarrow> (\<exists>gs. case r of
       None \<Rightarrow> mm_ok cf M t gs
     | Some b \<Rightarrow> mm_ok cf (M - block b c) t gs \<and> block b c \<subseteq> M \<and> unat b + unat c < 2 ^ 32)
   \<and> swap_base t = swap_base s \<and> wf_mode t = wf_mode s"

lemma alloc_loop_ok:
  assumes "mm_ok cf M s hs" and "on_swap_room cf s < n"
  shows "alloc_loop n cf c s = Panic ''Hole table full'' \<or>
    (\<exists>r t. alloc_loop n cf c s = Ok (r, t) \<and> allocated cf M c s r t
      \<and> (\<forall>b. r = Some b \<longrightarrow> b < swap_base s))"
  using assms
proof (induction n arbitrary: s hs)
  case 0
  then show ?case by simp
next
  case (Suc n)
  have t: "table_ok (NR_HOLES cf) s hs" using Suc.prems(1) by (simp add: mm_ok_def)
  from alloc_first_table [OF t, of "swap_base s" c] show ?case
  proof (elim disjE exE conjE)
    fix b t us h vs
    assume a: "alloc_first (NR_HOLES cf) (swap_base s) c s = Ok (Some b, t)"
      and cu: "cuts (NR_HOLES cf) s hs c us h vs b t" and l: "b < swap_base s"
    have more: "hole_table.more t = hole_table.more s" using cu by (simp add: cuts_def)
    have "allocated cf M c s (Some b) t"
      using mm_ok_cut [OF Suc.prems(1) cu] mm_more_sel [OF more] by (auto simp: allocated_def)
    with a l show ?thesis by simp
  next
    assume a: "alloc_first (NR_HOLES cf) (swap_base s) c s = Ok (None, s)"
    from swap_out_ok [OF Suc.prems(1)] show ?thesis
    proof (elim disjE exE conjE)
      assume "swap_out cf s = Ok (False, s)"
      with a Suc.prems(1) show ?thesis by (auto simp: allocated_def)
    next
      fix t
      assume o: "swap_out cf s = Ok (True, t)" and sw: "swapped cf M s t"
      then obtain gs where g: "mm_ok cf M t gs" "swap_base t = swap_base s" "wf_mode t = wf_mode s"
        by (auto simp: swapped_def)
      have "on_swap_room cf t < n" using swapped_room [OF sw] Suc.prems(2) by simp
      from Suc.IH [OF g(1) this] a o g(2,3) show ?thesis by (auto simp: allocated_def)
    qed (use a in simp)
  qed
qed

lemma alloc_mem_ok:
  assumes "mm_ok cf M s hs" and "c \<noteq> 0"
  shows "alloc_mem cf c s = Panic ''Hole table full'' \<or>
    (\<exists>r t. alloc_mem cf c s = Ok (r, t) \<and> allocated cf M c s r t
      \<and> (\<forall>b. r = Some b \<and> wf_mode s \<noteq> 1 \<longrightarrow> b < swap_base s))"
proof (cases "wf_mode s = 1")
  case False
  have "on_swap_room cf s < Suc (NR_PROCS cf)" using room_bound [of cf s] by simp
  from alloc_loop_ok [OF assms(1) this, of c] False show ?thesis
    by (auto simp: alloc_mem_def simp del: alloc_loop.simps)
next
  case True
  have t: "table_ok (NR_HOLES cf) s hs" using assms(1) by (simp add: mm_ok_def)
  from alloc_worst_table [OF t assms(2)] show ?thesis
  proof (elim disjE exE conjE)
    fix b t us h vs
    assume a: "alloc_worst (NR_HOLES cf) c s = Ok (Some b, t)" and cu: "cuts (NR_HOLES cf) s hs c us h vs b t"
    have more: "hole_table.more t = hole_table.more s" using cu by (simp add: cuts_def)
    have "allocated cf M c s (Some b) t"
      using mm_ok_cut [OF assms(1) cu] mm_more_sel [OF more] by (auto simp: allocated_def)
    with a True show ?thesis by (simp add: alloc_mem_def)
  next
    assume "alloc_worst (NR_HOLES cf) c s = Ok (None, s)"
    with True assms(1) show ?thesis by (auto simp: alloc_mem_def allocated_def)
  qed
qed

end
