(* ===== verification/Swap_Init.thy ===== *)
theory Swap_Init
  imports Swap_Inv
begin

text \<open>
  \<open>mem_init\<close>: the table it starts from, how many holes a set of chunks can make, and the
  list of holes and the swap base after the kernel has reported its chunks.
\<close>

section \<open>The empty table\<close>

lemma linked_upto:
  assumes "\<And>i. i < n \<Longrightarrow> nx i = (if Suc i < n then Some (Suc i) else None)" and "k < n"
  shows "linked nx (Some k) [k ..< n]"
  using assms(2)
proof (induction "n - k" arbitrary: k)
  case 0
  then show ?case by simp
next
  case (Suc m)
  show ?case
  proof (cases "Suc k < n")
    case True
    then have "linked nx (Some (Suc k)) [Suc k ..< n]" using Suc by simp
    with True assms(1) Suc.prems show ?thesis by (simp add: upt_conv_Cons)
  next
    case False
    with assms(1) Suc.prems show ?thesis by (simp add: upt_conv_Cons)
  qed
qed

lemma init_table_ok:
  assumes "0 < NR_HOLES cf"
  shows "table_ok (NR_HOLES cf) (init_table cf s) []"
proof (rule table_okI)
  have "linked (nxt (init_table cf s)) (Some 0) [0 ..< NR_HOLES cf]"
    using assms by (intro linked_upto) (simp_all only: nxt_def init_table_def, simp)
  then show "hole_lists (init_table cf s) [] [0 ..< NR_HOLES cf]"
    by (simp add: hole_lists_def init_table_def)
qed auto

section \<open>Holes and chunks\<close>

definition chunk_clicks :: "(clicks \<times> clicks) list \<Rightarrow> nat set" where
  "chunk_clicks cs = (\<Union>(b, c) \<in> set cs. block b c)"

lemma hole_starts_chunk:
  assumes w: "wf_holes hs" and c: "clicks_of hs = chunk_clicks cs" and h: "h \<in> set hs"
  shows "fst h \<in> (\<lambda>p. unat (fst p)) ` set cs"
proof -
  have "0 < snd h" using w h by (auto simp: wf_holes_def)
  with h have "fst h \<in> clicks_of hs" by (auto simp: clicks_of_def)
  with c obtain b l where bl: "(b, l) \<in> set cs" "unat b \<le> fst h" "fst h < unat b + unat l"
    by (auto simp: chunk_clicks_def block_def)
  have "unat b = fst h"
  proof (rule ccontr)
    assume "unat b \<noteq> fst h"
    with bl have lt: "unat b < fst h" by simp
    then have "fst h - 1 \<in> clicks_of hs" using bl unfolding c by (force simp: chunk_clicks_def block_def)
    then obtain g where g: "g \<in> set hs" "fst g < fst h" "fst h \<le> fst g + snd g"
      using lt by (force simp: clicks_of_def)
    then have "g \<noteq> h" by auto
    with w g(1) h have "before g h \<or> before h g"
      unfolding wf_holes_def by (metis sorted_wrt_iff_nth_less in_set_conv_nth linorder_neqE_nat)
    with g show False by (auto simp: before_def)
  qed
  with bl(1) show ?thesis by force
qed

lemma holes_le_chunks:
  assumes w: "wf_holes hs" and c: "clicks_of hs = chunk_clicks cs"
  shows "length hs \<le> length cs"
proof -
  have "sorted_wrt (\<lambda>x y. x < y) (map fst hs)"
    using w unfolding wf_holes_def sorted_wrt_map
    by (auto elim: sorted_wrt_mono_rel [rotated] simp: before_def)
  then have "distinct (map fst hs)" by (simp add: strict_sorted_iff)
  then have "length hs = card (set (map fst hs))" by (metis distinct_card length_map)
  also have "\<dots> \<le> card ((\<lambda>p. unat (fst p)) ` set cs)"
    using hole_starts_chunk [OF w c] by (intro card_mono) auto
  also have "\<dots> \<le> card (set cs)" by (rule card_image_le) simp
  also have "\<dots> \<le> length cs" by (rule card_length)
  finally show ?thesis .
qed

section \<open>The loop over the chunks\<close>

text \<open>The chunks \<open>cs\<close> are the kernel's answers from the \<open>k\<close>-th request on, and then an empty
  one.\<close>

definition reports :: "(nat \<Rightarrow> (clicks \<times> clicks \<times> clicks) option) \<Rightarrow> nat \<Rightarrow> (clicks \<times> clicks) list \<Rightarrow> bool" where
  "reports sys_mem k cs \<longleftrightarrow>
     (\<forall>i < length cs. \<exists>tot. sys_mem (k + i) = Some (fst (cs ! i), snd (cs ! i), tot) \<and> snd (cs ! i) \<noteq> 0)
     \<and> (\<exists>b tot. sys_mem (k + length cs) = Some (b, 0, tot))"

lemma reports_Cons:
  "reports sys_mem k ((b, c) # cs) \<longleftrightarrow> (\<exists>tot. sys_mem k = Some (b, c, tot)) \<and> c \<noteq> 0 \<and> reports sys_mem (Suc k) cs"
  unfolding reports_def by (auto simp: less_Suc_eq_0_disj)

definition chunks_ok :: "(clicks \<times> clicks) list \<Rightarrow> bool" where
  "chunks_ok cs \<longleftrightarrow> (\<forall>(b, c) \<in> set cs. unat b + unat c < 2 ^ 32 - 1)
     \<and> sorted_wrt (\<lambda>p q. held p \<inter> held q = {}) cs"

text \<open>The swap base is above every chunk seen.\<close>

definition above :: "clicks \<Rightarrow> (clicks \<times> clicks) list \<Rightarrow> bool" where
  "above sb cs \<longleftrightarrow> unat sb < 2 ^ 32 - 1 \<and> (\<forall>(b, c) \<in> set cs. unat b + unat c \<le> unat sb)"

lemma above_step:
  assumes "above sb cs" and "unat b + unat c < 2 ^ 32 - 1"
  shows "above (if sb < b + c then b + c else sb) (cs @ [(b, c)])"
proof -
  have "unat (b + c) = unat b + unat c" using assms(2) by (simp add: unat_add_small)
  with assms show ?thesis by (force simp: above_def word_less_nat_alt)
qed

lemma mem_chunks_ok:
  assumes "table_ok (NR_HOLES cf) s hs" and "clicks_of hs = chunk_clicks ds"
    and "chunks_ok (ds @ cs)" and "reports sys_mem k cs" and "length ds + length cs \<le> NR_HOLES cf"
    and "above (swap_base s) ds" and "length cs < n"
  shows "\<exists>tot free' t gs. mem_chunks n cf sys_mem k mem_total free s = Ok (tot, free', t)
    \<and> table_ok (NR_HOLES cf) t gs \<and> clicks_of gs = chunk_clicks (ds @ cs)
    \<and> free' = free + sum_list (map snd cs) \<and> above (swap_base t) (ds @ cs)"
  using assms
proof (induction cs arbitrary: ds s hs k mem_total free n)
  case Nil
  then obtain b tot where "sys_mem k = Some (b, 0, tot)" by (auto simp: reports_def)
  moreover from Nil obtain m where "n = Suc m" by (cases n) auto
  ultimately show ?case using Nil by auto
next
  case (Cons p cs)
  obtain b c where p: "p = (b, c)" by (cases p)
  from Cons.prems(7) obtain m where n: "n = Suc m" "length cs < m" by (cases n) auto
  from Cons.prems(4) p obtain tot where r: "sys_mem k = Some (b, c, tot)" "c \<noteq> 0" "reports sys_mem (Suc k) cs"
    by (auto simp: reports_Cons)
  have fit: "unat b + unat c < 2 ^ 32 - 1" and dis: "\<forall>q \<in> set ds. held q \<inter> held (b, c) = {}"
    using Cons.prems(3) p by (auto simp: chunks_ok_def sorted_wrt_append)
  have disj: "{unat b ..< unat b + unat c} \<inter> clicks_of hs = {}"
    using dis Cons.prems(2) by (auto simp: chunk_clicks_def held_def block_def)
  have "length hs \<le> length ds"
    using holes_le_chunks [OF table_ok_wf [OF Cons.prems(1)] Cons.prems(2)] .
  then have room: "length hs < NR_HOLES cf" using Cons.prems(5) by simp
  from free_mem_table [OF Cons.prems(1) r(2) _ disj room] fit obtain u gs where
    u: "free_mem (NR_HOLES cf) b c s = Ok u" "table_ok (NR_HOLES cf) u gs"
      "clicks_of gs = clicks_of hs \<union> block b c" "hole_table.more u = hole_table.more s"
    by (auto simp: block_def)
  let ?v = "if swap_base u < b + c then u\<lparr>swap_base := b + c\<rparr> else u"
  have sb: "swap_base u = swap_base s" using mm_more_sel [OF u(4)] by simp
  have v: "table_ok (NR_HOLES cf) ?v gs" "clicks_of gs = chunk_clicks (ds @ [(b, c)])"
    "above (swap_base ?v) (ds @ [(b, c)])"
    using u(2,3) Cons.prems(2) above_step [OF Cons.prems(6) fit] sb by (auto simp: chunk_clicks_def)
  have "chunks_ok ((ds @ [(b, c)]) @ cs)" "length (ds @ [(b, c)]) + length cs \<le> NR_HOLES cf"
    using Cons.prems(3,5) p by simp_all
  from Cons.IH [OF v(1,2) this(1) r(3) this(2) v(3) n(2), of tot "free + c"] u(1) r(1,2) n(1) p
  show ?case by (simp add: algebra_simps)
qed

end
