(* ===== verification/Swap_Props.thy ===== *)
theory Swap_Props
  imports Swap_Init
begin

text \<open>
  The properties of the swapping memory manager and of the two system calls, and the faults
  the model shows.
\<close>

section \<open>A machine of four process slots\<close>

definition no_seg :: "seg \<Rightarrow> mem_map" where
  "no_seg g = \<lparr>mem_vir = 0, mem_phys = 0, mem_len = 0\<rparr>"

definition small_proc :: "mp_flag set \<Rightarrow> mproc" where
  "small_proc f = \<lparr>mp_seg = no_seg(D := \<lparr>mem_vir = 0, mem_phys = 30, mem_len = 3\<rparr>,
                                   S := \<lparr>mem_vir = 4, mem_phys = 34, mem_len = 2\<rparr>),
                   mp_pid = 0, mp_procgrp = 0, mp_wpid = 0, mp_parent = 0, mp_effuid = 0,
                   mp_flags = f, mp_swapq = None, mp_reply_res2 = 0, mp_sched_group = 0\<rparr>"

definition idle_proc :: mproc where
  "idle_proc = \<lparr>mp_seg = no_seg, mp_pid = 0, mp_procgrp = 0, mp_wpid = 0, mp_parent = 0, mp_effuid = 0, mp_flags = {},
     mp_swapq = None, mp_reply_res2 = 0, mp_sched_group = 0\<rparr>"

text \<open>One waiting process at \<open>30..35\<close>, one hole below the swap base \<open>50\<close> and the swap hole.\<close>

definition small_mm :: mm where
  "small_mm = \<lparr>hole = (\<lambda>i. if i = 0 then \<lparr>h_next = Some 1, h_base = 10, h_len = 5\<rparr>
                           else if i = 1 then \<lparr>h_next = None, h_base = 50, h_len = 20\<rparr>
                           else \<lparr>h_next = (if i < 7 then Some (Suc i) else None), h_base = 0, h_len = 0\<rparr>),
     hole_head = Some 0, free_slots = Some 2, swap_fd = 3, swap_offset = 0, swap_base = 50,
     swap_maxsize = 100, in_queue = None, outswap = 2, wf_mode = 0,
     mprocs = (\<lambda>i. if i = 3 then small_proc {IN_USE, WAITING} else idle_proc), calls = []\<rparr>"

lemma small_mm_table: "table_ok (NR_HOLES small_config) small_mm [(10, 5), (50, 20)]"
proof (rule table_okI)
  have e: "[2..<8] = [2, 3, 4, 5, 6, 7 :: nat]" by (simp add: upt_conv_Cons)
  show "hole_lists small_mm [0, 1] [2..<8]"
    by (simp add: e hole_lists_def nxt_def small_mm_def)
  show "set [0, 1] \<union> set [2..<8] = {..<NR_HOLES small_config}"
    by (auto simp: NR_HOLES_def small_config_def)
  show "map (span small_mm) [0, 1] = [(10, 5), (50, 20)]" by (simp add: span_def small_mm_def)
  show "wf_holes [(10, 5), (50, 20)]" by (simp add: wf_holes_def before_def)
qed

lemma small_range: "in_range small_config i \<longleftrightarrow> i = 2 \<or> i = 3"
  by (auto simp: in_range_def small_config_def)

lemma small_owner: "owner small_config small_mm i \<longleftrightarrow> i = 3"
  by (auto simp: owner_def small_range small_mm_def small_proc_def idle_proc_def)

lemma small_block: "data_block small_mm 3 = {30..<36}" "data_size (mprocs small_mm 3) = 6"
  by (simp_all add: data_block_def data_base_def block_def data_size_def small_mm_def small_proc_def)

lemma small_mm_ok: "mm_ok small_config ({10..<15} \<union> {50..<70} \<union> {30..<36}) small_mm [(10, 5), (50, 20)]"
proof -
  have "owner_ok small_mm 3"
    by (simp add: owner_ok_def data_base_def segs_ok_def data_size_def small_mm_def small_proc_def)
  moreover have "\<not> candidate (mprocs small_mm 2)"
    by (simp add: candidate_def small_mm_def idle_proc_def)
  moreover have "in_range small_config (outswap small_mm)"
    by (simp add: small_range small_mm_def)
  ultimately have "procs_ok small_config small_mm"
    unfolding procs_ok_def small_owner small_range by auto
  moreover have "partition small_config ({10..<15} \<union> {50..<70} \<union> {30..<36}) small_mm (clicks_of [(10, 5), (50, 20)])"
    unfolding partition_def small_owner by (auto simp: small_block)
  ultimately show ?thesis using small_mm_table by (simp add: mm_ok_def)
qed

section \<open>Properties\<close>

text \<open>C7: \<open>alloc_mem\<close>, with all the swapping out it does on the way, keeps the invariant of
  the memory manager: a block it returns is part of the memory, overlaps no hole and no
  process, and every process still has its data in one block of its own. It always returns:
  each round of its loop swaps out one more process. The one failure is a full hole table.
  Under first fit the block lies below the swap area.\<close>
theorem alloc_mem_keeps_memory:
  assumes "mm_ok cf M s hs" and "c \<noteq> 0"
  shows "alloc_mem cf c s = Panic ''Hole table full'' \<or>
    (\<exists>t gs. alloc_mem cf c s = Ok (None, t) \<and> mm_ok cf M t gs) \<or>
    (\<exists>b t gs. alloc_mem cf c s = Ok (Some b, t) \<and> mm_ok cf (M - block b c) t gs
       \<and> block b c \<subseteq> M \<and> (wf_mode s \<noteq> 1 \<longrightarrow> b < swap_base s))"
proof -
  from alloc_mem_ok [OF assms] show ?thesis
  proof (elim disjE exE conjE)
    fix r t
    assume "alloc_mem cf c s = Ok (r, t)" "allocated cf M c s r t" "\<forall>b. r = Some b \<and> wf_mode s \<noteq> 1 \<longrightarrow> b < swap_base s"
    then show ?thesis by (cases r) (auto simp: allocated_def)
  qed simp
qed

theorem alloc_mem_keeps_memory_witness:
  "alloc_mem small_config 7 small_mm = Panic ''Hole table full'' \<or>
    (\<exists>t gs. alloc_mem small_config 7 small_mm = Ok (None, t)
       \<and> mm_ok small_config ({10..<15} \<union> {50..<70} \<union> {30..<36}) t gs) \<or>
    (\<exists>b t gs. alloc_mem small_config 7 small_mm = Ok (Some b, t)
       \<and> mm_ok small_config ({10..<15} \<union> {50..<70} \<union> {30..<36} - block b 7) t gs)"
  using alloc_mem_keeps_memory [OF small_mm_ok, of 7] by auto



text \<open>\<open>mem_init\<close> makes the chunks the kernel reports the holes of the table, whatever
  their order, when they do not overlap and are not more than the table has slots; it reports
  their total size as free, and the swap base it chooses is above all of them.\<close>
lemma mem_init_spec:
  assumes "chunks_ok cs" and "reports sys_mem 0 cs" and "length cs \<le> NR_HOLES cf" and "0 < NR_HOLES cf"
    and "swap_base s = 0" and "length cs < n"
  shows "\<exists>mem_total t hs. mem_init n cf sys_mem tot s = Ok (mem_total, sum_list (map snd cs), t)
    \<and> table_ok (NR_HOLES cf) t hs \<and> clicks_of hs = (\<Union>(b, c) \<in> set cs. block b c)
    \<and> (\<forall>h \<in> set hs. fst h + snd h < unat (swap_base t)) \<and> swap_maxsize t = - swap_base t"
proof -
  let ?s = "init_table cf s"
  have a: "above (swap_base ?s) []" using assms(5) by (simp add: above_def init_table_def)
  have "clicks_of [] = chunk_clicks []" by (simp add: chunk_clicks_def)
  from mem_chunks_ok [OF init_table_ok [OF assms(4)] this _ assms(2) _ a assms(6), of tot 0] assms(1,3)
  obtain mt t gs where t: "mem_chunks n cf sys_mem 0 tot 0 ?s = Ok (mt, sum_list (map snd cs), t)"
    "table_ok (NR_HOLES cf) t gs" "clicks_of gs = chunk_clicks cs" "above (swap_base t) cs" by auto
  let ?t = "t\<lparr>swap_base := swap_base t + 1, swap_maxsize := 0 - (swap_base t + 1)\<rparr>"
  have sb: "unat (swap_base t + 1) = unat (swap_base t) + 1"
    using t(4) by (simp add: above_def unat_add_small)
  have "fst h + snd h < unat (swap_base t + 1)" if "h \<in> set gs" for h
  proof -
    have pos: "0 < snd h" using table_ok_wf [OF t(2)] that by (auto simp: wf_holes_def)
    then have "fst h + snd h - 1 \<in> clicks_of gs" using that by (force simp: clicks_of_def)
    then obtain b c where "(b, c) \<in> set cs" "fst h + snd h - 1 < unat b + unat c"
      using t(3) by (auto simp: chunk_clicks_def block_def)
    with t(4) pos sb show ?thesis by (force simp: above_def)
  qed
  then show ?thesis using t by (intro exI [of _ mt] exI [of _ ?t] exI [of _ gs])
      (simp add: mem_init_def chunk_clicks_def)
qed

definition two_chunks :: "nat \<Rightarrow> (clicks \<times> clicks \<times> clicks) option" where
  "two_chunks k = (if k = 0 then Some (2, 100, 400) else if k = 1 then Some (256, 300, 400) else Some (0, 0, 400))"

lemma mem_init_spec_witness:
  "\<exists>mem_total t hs. mem_init 9 small_config two_chunks 0 (small_mm\<lparr>swap_base := 0\<rparr>) = Ok (mem_total, 400, t)
    \<and> table_ok 8 t hs \<and> clicks_of hs = {2..<102} \<union> {256..<556}"
  using mem_init_spec [of "[(2, 100), (256, 300)]" two_chunks small_config "small_mm\<lparr>swap_base := 0\<rparr>" 9 0]
  by (auto simp: chunks_ok_def held_def block_def reports_def less_Suc_eq two_chunks_def NR_HOLES_def small_config_def)

section \<open>The queue\<close>

text \<open>The swap-in queue as a list.\<close>

definition in_list :: "mm \<Rightarrow> nat list \<Rightarrow> bool" where
  "in_list s qs \<longleftrightarrow> linked (\<lambda>i. mp_swapq (mprocs s i)) (in_queue s) qs"

lemma queue_end_last:
  "linked (\<lambda>i. mp_swapq (mprocs s i)) (get_link pmp s) qs \<Longrightarrow> length qs < n \<Longrightarrow>
   queue_end n s pmp = Ok (if qs = [] then pmp else Some (last qs))"
proof (induction qs arbitrary: pmp n)
  case Nil
  then show ?case by (cases n) auto
next
  case (Cons q qs)
  then obtain m where n: "n = Suc m" "length qs < m" by (cases n) auto
  from Cons n show ?case by (auto simp: get_link_def)
qed

lemma in_list_append:
  assumes l: "in_list s qs" and r: "r \<notin> set qs"
    and t: "t = set_mproc r (\<lambda>p. p\<lparr>mp_swapq := None, mp_flags := f p\<rparr>)
      (set_link (if qs = [] then None else Some (last qs)) (Some r) s)"
  shows "in_list t (qs @ [r])"
proof (cases qs rule: rev_cases)
  case Nil
  with l t show ?thesis by (simp add: in_list_def set_link_def set_mproc_def)
next
  case (snoc ps q)
  have ne: "q \<noteq> r" using r snoc by auto
  have "linked ((\<lambda>i. mp_swapq (mprocs s i))(q := Some r, r := None)) (in_queue s) (ps @ [q, r])"
    using linked_snoc [of "\<lambda>i. mp_swapq (mprocs s i)" "in_queue s" ps q r] l r snoc by (simp add: in_list_def)
  moreover have "(\<lambda>i. mp_swapq (mprocs s i))(q := Some r, r := None) = (\<lambda>i. mp_swapq (mprocs t i))"
    using t snoc ne by (auto simp: set_link_def set_mproc_def fun_eq_iff)
  moreover have "in_queue t = in_queue s" using t snoc by (simp add: set_link_def set_mproc_def)
  ultimately show ?thesis using snoc by (simp add: in_list_def)
qed

text \<open>\<open>swap_inqueue\<close> is a queue: a process that is not queued yet goes to its end and is
  marked; one that is marked leaves everything as it is. So no process is queued twice.\<close>
lemma swap_inqueue_fifo:
  assumes "in_list s qs" and "length qs \<le> NR_PROCS cf" and "rmp \<notin> set qs"
  shows "\<exists>t. swap_inqueue cf rmp s = Ok t \<and> SWAPIN \<in> mp_flags (mprocs t rmp)
    \<and> in_list t (if SWAPIN \<in> mp_flags (mprocs s rmp) then qs else qs @ [rmp])
    \<and> swap_inqueue cf rmp t = Ok t"
proof (cases "SWAPIN \<in> mp_flags (mprocs s rmp)")
  case True
  with assms(1) show ?thesis by (simp add: swap_inqueue_def)
next
  case False
  have "linked (\<lambda>i. mp_swapq (mprocs s i)) (get_link None s) qs"
    using assms(1) by (simp add: in_list_def get_link_def)
  from queue_end_last [OF this, of "Suc (NR_PROCS cf)"] assms(2)
  have e: "queue_end (Suc (NR_PROCS cf)) s None = Ok (if qs = [] then None else Some (last qs))"
    by (simp del: queue_end.simps)
  let ?t = "set_mproc rmp (\<lambda>p. p\<lparr>mp_swapq := None, mp_flags := insert SWAPIN (mp_flags p)\<rparr>)
      (set_link (if qs = [] then None else Some (last qs)) (Some rmp) s)"
  have "swap_inqueue cf rmp s = Ok ?t" using False e by (simp add: swap_inqueue_def del: queue_end.simps)
  moreover have "in_list ?t (qs @ [rmp])" by (rule in_list_append [OF assms(1,3) refl])
  moreover have "SWAPIN \<in> mp_flags (mprocs ?t rmp)" by simp
  ultimately show ?thesis using False by (intro exI [of _ ?t]) (simp add: swap_inqueue_def)
qed

section \<open>System calls\<close>

lemma list_holes_take:
  "linked (nxt s) p xs \<Longrightarrow> length xs < n \<Longrightarrow>
   list_holes n s limit count p =
     Ok (map (\<lambda>i. (h_len (hole s i), h_base (hole s i))) (take (nat (limit - 1 - count)) xs))"
proof (induction xs arbitrary: p n count)
  case Nil
  then show ?case by (cases n) auto
next
  case (Cons x xs)
  then obtain m where n: "n = Suc m" "length xs < m" by (cases n) auto
  from Cons.prems(1) have p: "p = Some x" "linked (nxt s) (nxt s x) xs" by (simp_all only: chain.simps)
  show ?case
  proof (cases "count < limit - 1")
    case True
    then have "nat (limit - 1 - count) = Suc (nat (limit - 1 - (count + 1)))" by simp
    with True Cons.IH [OF p(2) n(2), of "count + 1"] n(1) p(1) show ?thesis by simp
  next
    case False
    with n(1) p(1) show ?thesis by simp
  qed
qed

text \<open>\<open>do_hole_map\<close> hands the user the first holes in address order, as many as fit in the
  buffer and in 511 entries, then a pair of zeros, and returns how many there are. It writes
  inside the user's buffer as soon as the buffer holds one pair.\<close>
lemma do_hole_map_spec:
  assumes "table_ok (NR_HOLES cf) s hs" and "0 \<le> sz" and "sz < 2 ^ 31"
  shows "\<exists>ps. do_hole_map cf sz OK s = Ok (Value (int (length ps)), ps @ [(0, 0)])
    \<and> map (\<lambda>p. (unat (snd p), unat (fst p))) ps = take (nat (min (sz div 8) 512 - 1)) hs
    \<and> (8 \<le> sz \<longrightarrow> 8 * int (length (ps @ [(0, 0)])) \<le> sz)"
proof -
  from assms(1) obtain xs fs where l: "hole_lists s xs fs" and hs: "hs = map (span s) xs"
    by (auto simp: table_ok_def)
  have lk: "linked (nxt s) (hole_head s) xs" using l by (simp add: hole_lists_def)
  have len: "length xs < Suc (NR_HOLES cf)" using table_ok_bound [OF assms(1)] hs by simp
  have m: "int32 (uint32 sz div 8) = sz div 8"
    using assms(2,3) by (simp add: uint32_def) (intro int32_id in_int32I; linarith)
  let ?k = "nat (min (sz div 8) 512 - 1)"
  let ?ps = "map (\<lambda>i. (h_len (hole s i), h_base (hole s i))) (take ?k xs)"
  have e: "(if sz div 8 < 512 then sz div 8 else 512) = min (sz div 8) 512" by simp
  have "do_hole_map cf sz OK s = Ok (Value (int (length ?ps)), ?ps @ [(0, 0)])"
    using assms(2) list_holes_take [OF lk len, of "min (sz div 8) 512" 0]
    by (simp add: do_hole_map_def m e Let_def del: list_holes.simps)
  moreover have "map (\<lambda>p. (unat (snd p), unat (fst p))) ?ps = take ?k hs"
    by (simp add: hs take_map span_def)
  moreover have "8 * int (length (?ps @ [(0, 0)])) \<le> sz" if "8 \<le> sz"
  proof -
    have "length ?ps \<le> ?k" by simp
    moreover have "1 \<le> sz div 8" using that by linarith
    ultimately show ?thesis by (simp add: min_def split: if_splits)
  qed
  ultimately show ?thesis by blast
qed

lemma do_hole_map_spec_witness:
  "\<exists>ps. do_hole_map small_config 24 OK small_mm = Ok (Value (int (length ps)), ps @ [(0, 0)])
    \<and> map (\<lambda>p. (unat (snd p), unat (fst p))) ps = [(10, 5), (50, 20)]"
  using do_hole_map_spec [OF small_mm_table, of 24] by auto

section \<open>Faults\<close>

text \<open>C40: In worst-fit mode the swap area is not left out: when the longest hole lies in it,
  \<open>alloc_mem\<close> gives out a block of the swap area as memory.\<close>
theorem worst_fit_gives_swap_area:
  assumes "mm_ok cf M s hs" and "wf_mode s = 1" and "c \<noteq> 0" and "(b, l) \<in> set hs" and "unat c \<le> l"
    and "\<forall>h \<in> set hs. fst h < unat (swap_base s) \<longrightarrow> snd h < l"
  shows "\<exists>b' t. alloc_mem cf c s = Ok (Some b', t) \<and> swap_base s \<le> b'"
proof -
  have t: "table_ok (NR_HOLES cf) s hs" using assms(1) by (simp add: mm_ok_def)
  from alloc_worst_table [OF t assms(3)] show ?thesis
  proof (elim disjE exE conjE)
    assume "\<forall>h \<in> set hs. snd h < unat c"
    with assms(4,5) show ?thesis by auto
  next
    fix b' t us h vs
    assume a: "alloc_worst (NR_HOLES cf) c s = Ok (Some b', t)" "cuts (NR_HOLES cf) s hs c us h vs b' t"
      and mx: "\<forall>g \<in> set hs. snd g \<le> snd h"
    have h: "h \<in> set hs" "unat b' = fst h" using a(2) by (auto simp: cuts_def)
    have "l \<le> snd h" using mx assms(4) by auto
    with assms(6) h have "swap_base s \<le> b'" by (force simp: word_le_nat_alt)
    with a assms(2) show ?thesis by (simp add: alloc_mem_def)
  qed
qed

theorem worst_fit_gives_swap_area_witness:
  "\<exists>b' t. alloc_mem small_config 3 (small_mm\<lparr>wf_mode := 1\<rparr>) = Ok (Some b', t) \<and> 50 \<le> b'"
proof -
  have t: "table_ok (NR_HOLES small_config) (small_mm\<lparr>wf_mode := 1\<rparr>) [(10, 5), (50, 20)]"
    using small_mm_table by (subst table_ok_cong [where t = small_mm]) simp_all
  have "mm_ok small_config ({10..<15} \<union> {50..<70} \<union> {30..<36}) (small_mm\<lparr>wf_mode := 1\<rparr>) [(10, 5), (50, 20)]"
    using small_mm_ok t procs_cong [of "small_mm\<lparr>wf_mode := 1\<rparr>" small_mm] by (simp add: mm_ok_def)
  from worst_fit_gives_swap_area [OF this, of 3 50 20] show ?thesis by (simp add: small_mm_def)
qed

text \<open>\<open>swap_off\<close> follows a null pointer when the swap hole is the only hole, that is, when
  all of the memory is in use.\<close>
lemma swap_off_null_pointer:
  assumes "table_ok (NR_HOLES cf) s [(unat (swap_base s), l)]" and "swap_fd s \<noteq> - 1"
    and "in_queue s = None" and "\<forall>i. in_range cf i \<longrightarrow> ONSWAP \<notin> mp_flags (mprocs s i)"
  shows "swap_off (Suc n) cf pending s = Null_deref"
proof -
  from assms(1) obtain xs fs where l: "hole_lists s xs fs" and hs: "[(unat (swap_base s), l)] = map (span s) xs"
    by (auto simp: table_ok_def)
  then obtain x where x: "xs = [x]" "span s x = (unat (swap_base s), l)" by (auto simp: Cons_eq_map_conv)
  have hd: "hole_head s = Some x" "nxt s x = None" using l x by (auto simp: hole_lists_def)
  have "h_base (hole s x) = swap_base s" using x(2) by (simp add: span_def word_unat_eq_iff)
  then have "drop_swap_holes (Suc n) None (hole_head s) s = Null_deref"
    using hd by (simp add: del_slot_def set_next_def)
  moreover have "queue_all cf is s = Ok s" if "\<forall>i \<in> set is. in_range cf i" for "is"
    using that assms(4) by (induction "is") auto
  then have "queue_all cf (user_procs cf) s = Ok s"
    by (simp add: user_procs_def in_range_def)
  moreover have "swap_in cf pending s = Ok s" using assms(3) by (simp add: swap_in_def get_link_def)
  moreover have "\<not> list_ex (\<lambda>i. ONSWAP \<in> mp_flags (mprocs s i)) (user_procs cf)"
    using assms(4) by (auto simp: list_ex_iff user_procs_def in_range_def)
  ultimately show ?thesis using assms(2) by (simp add: swap_off_def del: drop_swap_holes.simps)
qed

definition full_mm :: mm where
  "full_mm = small_mm\<lparr>hole := (\<lambda>i. if i = 1 then \<lparr>h_next = None, h_base = 50, h_len = 20\<rparr>
       else \<lparr>h_next = (if i = 0 then Some 2 else if i < 7 then Some (Suc i) else None), h_base = 0, h_len = 0\<rparr>),
     hole_head := Some 1, free_slots := Some 0\<rparr>"

lemma swap_off_null_pointer_witness:
  "swap_off 1 small_config (\<lambda>_ s. s) full_mm = Null_deref"
proof -
  have "table_ok (NR_HOLES small_config) full_mm [(50, 20)]"
  proof (rule table_okI)
    have e: "[2..<8] = [2, 3, 4, 5, 6, 7 :: nat]" by (simp add: upt_conv_Cons)
    show "hole_lists full_mm [1] (0 # [2..<8])"
      by (simp add: e hole_lists_def nxt_def full_mm_def)
    show "set [1] \<union> set (0 # [2..<8]) = {..<NR_HOLES small_config}"
      by (auto simp: NR_HOLES_def small_config_def)
    show "map (span full_mm) [1] = [(50, 20)]" by (simp add: span_def full_mm_def)
    show "wf_holes [(50, 20)]" by (simp add: wf_holes_def)
  qed
  then show ?thesis
    using swap_off_null_pointer [of small_config full_mm 20 0 "\<lambda>_ s. s"]
    by (simp add: full_mm_def small_mm_def small_proc_def idle_proc_def)
qed

end
