(* ===== verification/Kernel_State.thy ===== *)
theory Kernel_State
  imports Machine
begin

text \<open>
  The process table and the variables of the kernel (\<^verbatim>\<open>kernel/proc.h\<close>, \<^verbatim>\<open>kernel/proc.c\<close>,
  \<^verbatim>\<open>include/minix/com.h\<close>). A \<open>struct proc *\<close> is the number of the process, as the table
  \<open>pproc_addr\<close> has it: tasks are negative, slot \<open>i\<close> is process \<open>i - NR_TASKS\<close>. The model
  is that of the 32-bit INTEL kernel.
\<close>

section \<open>Numbers of com.h\<close>

definition ANY :: int where "ANY = 0x7ace"
definition HARDWARE :: int where "HARDWARE = - 1"
definition SYSTASK :: int where "SYSTASK = - 2"
definition CLOCK :: int where "CLOCK = - 3"
definition IDLE :: int where "IDLE = - 6"
definition SYN_ALRM_TASK :: int where "SYN_ALRM_TASK = - 7"
definition HARD_INT :: int where "HARD_INT = 2"
definition CLOCK_INT :: int where "CLOCK_INT = HARD_INT"
definition KSIG :: int where "KSIG = 64"

text \<open>\<open>SEND\<close>, \<open>RECEIVE\<close> and \<open>BOTH\<close>, whose bits \<open>sys_call\<close> tests.\<close>

datatype sys_fun = SEND | RECEIVE | BOTH

definition RR_QUANTUM :: int where "RR_QUANTUM = 3"
definition MAX_WAIT_TICKS :: int where "MAX_WAIT_TICKS = 1000"
definition AGING_TICK :: int where "AGING_TICK = 5"
definition STACK_GUARD :: "32 word" where "STACK_GUARD = 0xDEADBEEF"

section \<open>Messages\<close>

text \<open>The fields of the message union that the sources use. Handlers read and write the fields
  of one format; fields of different formats are kept apart.\<close>

datatype field = M1_i1 | M1_i2 | M1_i3 | M1_p1 | M1_p2 | M1_p3 | M2_i1 | M2_i2 | M2_i3 | M2_l1 | M2_l2
  | M2_p1 | M3_i1 | M4_l1 | M4_l2 | M4_l3 | M4_l4 | M4_l5 | M5_c1 | M5_i1 | M5_l1 | M5_c2 | M5_i2 | M5_l2
  | M5_l3 | M6_i1 | M6_i2 | M6_l1 | M6_f1

record message =
  m_source :: int
  m_type :: int
  m_field :: "field \<Rightarrow> int"
  m3_ca1 :: string
  sig_map :: "nat set"

section \<open>Processes\<close>

datatype p_flag = NO_MAP | SENDING | RECEIVING | PENDING | SIG_PENDING | P_STOP

datatype priority = PPRI_NONE | PPRI_TASK | PPRI_SERVER | PPRI_USER | PPRI_IDLE

record regs =
  r_retreg :: "32 word"
  r_pc :: "32 word"
  r_sp :: "32 word"
  r_fp :: "32 word"
  r_psw :: "32 word"
  r_cs :: "32 word"
  r_ds :: "32 word"
  r_es :: "32 word"
  r_fs :: "32 word"
  r_gs :: "32 word"
  r_ss :: "32 word"

text \<open>A segment descriptor, as the arguments it is made from: origin, length in bytes, privilege.\<close>

record descriptor =
  d_origin :: "32 word"
  d_bytes :: "32 word"
  d_privilege :: "32 word"

record proc =
  p_reg :: regs
  p_ldt_sel :: "32 word"
  p_ldt_code :: descriptor
  p_ldt_data :: descriptor
  p_stguard :: "32 word"
  p_nr :: int
  p_int_blocked :: bool
  p_int_held :: bool
  p_nextheld :: "int option"
  p_flags :: "p_flag set"
  p_map :: "seg \<Rightarrow> mem_map"
  p_pid :: int
  p_priority :: priority
  user_time :: int
  sys_time :: int
  child_utime :: int
  child_stime :: int
  p_alarm :: int
  p_callerq :: "int option"
  p_sendlink :: "int option"
  p_messbuf :: "32 word"
  p_getfrom :: int
  p_sendto :: int
  p_nextready :: "int option"
  p_pending :: "nat set"
  p_pendcount :: "32 word"
  p_name :: string
  sched_group :: int
  cpu_estimate :: int
  wait_ticks :: int
  rr_counter :: int

section \<open>The kernel\<close>

text \<open>The ready queues: \<open>rdy_head\<close>/\<open>rdy_tail\<close> of the three classes, and \<open>g1_queue\<close>/\<open>g1_tail\<close>
  to \<open>g3_queue\<close>/\<open>g3_tail\<close> of the three groups.\<close>

datatype queue = TASK_Q | SERVER_Q | USER_Q | G1 | G2 | G3

text \<open>\<open>msgs\<close> is the memory as far as it holds messages, by address space and address.\<close>

record kern =
  procs :: "int \<Rightarrow> proc"
  q_head :: "queue \<Rightarrow> int option"
  q_tail :: "queue \<Rightarrow> int option"
  proc_ptr :: int
  bill_ptr :: int
  held_head :: "int option"
  held_tail :: "int option"
  switching :: bool
  k_reenter :: int
  sig_procs :: int
  aging_counter :: int
  msgs :: "int \<Rightarrow> 32 word \<Rightarrow> message"

definition upd :: "int \<Rightarrow> (proc \<Rightarrow> proc) \<Rightarrow> kern \<Rightarrow> kern" where
  "upd p f s = s\<lparr>procs := (procs s)(p := f (procs s p))\<rparr>"

definition set_head :: "queue \<Rightarrow> int option \<Rightarrow> kern \<Rightarrow> kern" where
  "set_head q v s = s\<lparr>q_head := (q_head s)(q := v)\<rparr>"

definition set_tail :: "queue \<Rightarrow> int option \<Rightarrow> kern \<Rightarrow> kern" where
  "set_tail q v s = s\<lparr>q_tail := (q_tail s)(q := v)\<rparr>"

definition set_nextready :: "int \<Rightarrow> int option \<Rightarrow> kern \<Rightarrow> kern" where
  "set_nextready p v s = upd p (\<lambda>r. r\<lparr>p_nextready := v\<rparr>) s"

definition set_flags :: "int \<Rightarrow> (p_flag set \<Rightarrow> p_flag set) \<Rightarrow> kern \<Rightarrow> kern" where
  "set_flags p f s = upd p (\<lambda>r. r\<lparr>p_flags := f (p_flags r)\<rparr>) s"

text \<open>The macros of \<^verbatim>\<open>proc.h\<close>.\<close>

definition isokprocn :: "config \<Rightarrow> int \<Rightarrow> bool" where
  "isokprocn cf n \<longleftrightarrow> uint32 (n + int (NR_TASKS cf)) < int (NR_PROCS cf) + int (NR_TASKS cf)"

definition isoksrc_dest :: "config \<Rightarrow> int \<Rightarrow> bool" where
  "isoksrc_dest cf n \<longleftrightarrow> isokprocn cf n \<or> n = ANY"

definition isrxhardware :: "int \<Rightarrow> bool" where
  "isrxhardware n \<longleftrightarrow> n = ANY \<or> n = HARDWARE"

definition issysentn :: "config \<Rightarrow> int \<Rightarrow> bool" where
  "issysentn cf n \<longleftrightarrow> n = FS_PROC_NR cf \<or> n = MM_PROC_NR cf"

definition isemptyp :: "proc \<Rightarrow> bool" where "isemptyp p \<longleftrightarrow> p_priority p = PPRI_NONE"
definition istaskp :: "proc \<Rightarrow> bool" where "istaskp p \<longleftrightarrow> p_priority p = PPRI_TASK"
definition isservp :: "proc \<Rightarrow> bool" where "isservp p \<longleftrightarrow> p_priority p = PPRI_SERVER"
definition isuserp :: "proc \<Rightarrow> bool" where "isuserp p \<longleftrightarrow> p_priority p = PPRI_USER"

text \<open>The slots of the process table in the order of the table, and how many there are.\<close>

definition slots :: "config \<Rightarrow> nat" where
  "slots cf = NR_TASKS cf + NR_PROCS cf"

definition all_procs :: "config \<Rightarrow> int list" where
  "all_procs cf = map (\<lambda>i. int i - int (NR_TASKS cf)) [0 ..< slots cf]"

text \<open>Tasks share the address space of the kernel.\<close>

definition space :: "int \<Rightarrow> int" where
  "space p = (if p < 0 then HARDWARE else p)"

definition get_msg :: "int \<Rightarrow> 32 word \<Rightarrow> kern \<Rightarrow> message" where
  "get_msg p a s = msgs s (space p) a"

definition put_msg :: "int \<Rightarrow> 32 word \<Rightarrow> message \<Rightarrow> kern \<Rightarrow> kern" where
  "put_msg p a m s = s\<lparr>msgs := (msgs s)(space p := (msgs s (space p))(a := m))\<rparr>"

text \<open>\<open>CopyMess\<close>, that is \<open>cp_mess\<close>: the receiver gets the message with the sender's number.
  (Its C version is the one for another chip; for INTEL it is assembler with the same effect.)\<close>

definition cp_mess :: "int \<Rightarrow> int \<Rightarrow> 32 word \<Rightarrow> int \<Rightarrow> 32 word \<Rightarrow> kern \<Rightarrow> kern" where
  "cp_mess src sp sm dp dm s = put_msg dp dm ((get_msg sp sm s)\<lparr>m_source := src\<rparr>) s"

section \<open>Rules\<close>

lemma msgs_sel [simp]:
  "msgs (upd p f s) = msgs s" "msgs (set_head q v s) = msgs s" "msgs (set_tail q v s) = msgs s"
  "msgs (set_nextready p v s) = msgs s" "msgs (set_flags p g s) = msgs s"
  by (simp_all add: upd_def set_head_def set_tail_def set_nextready_def set_flags_def)

lemma upd_sel [simp]:
  "procs (upd p f s) = (procs s)(p := f (procs s p))" "q_head (upd p f s) = q_head s"
  "q_tail (upd p f s) = q_tail s" "proc_ptr (upd p f s) = proc_ptr s" "bill_ptr (upd p f s) = bill_ptr s"
  by (simp_all add: upd_def)

lemma head_sel [simp]:
  "procs (set_head q v s) = procs s" "q_head (set_head q v s) = (q_head s)(q := v)"
  "q_tail (set_head q v s) = q_tail s" "proc_ptr (set_head q v s) = proc_ptr s"
  "procs (set_tail q v s) = procs s" "q_head (set_tail q v s) = q_head s"
  "q_tail (set_tail q v s) = (q_tail s)(q := v)" "proc_ptr (set_tail q v s) = proc_ptr s"
  by (simp_all add: set_head_def set_tail_def)

lemma nextready_sel [simp]:
  "procs (set_nextready p v s) = (procs s)(p := (procs s p)\<lparr>p_nextready := v\<rparr>)"
  "q_head (set_nextready p v s) = q_head s" "q_tail (set_nextready p v s) = q_tail s"
  "proc_ptr (set_nextready p v s) = proc_ptr s"
  by (simp_all add: set_nextready_def)

lemma flags_sel [simp]:
  "procs (set_flags p f s) = (procs s)(p := (procs s p)\<lparr>p_flags := f (p_flags (procs s p))\<rparr>)"
  "q_head (set_flags p f s) = q_head s" "q_tail (set_flags p f s) = q_tail s"
  "proc_ptr (set_flags p f s) = proc_ptr s"
  by (simp_all add: set_flags_def)

lemma put_msg_sel [simp]:
  "procs (put_msg p a m s) = procs s" "q_head (put_msg p a m s) = q_head s"
  "q_tail (put_msg p a m s) = q_tail s" "proc_ptr (put_msg p a m s) = proc_ptr s"
  "procs (cp_mess src sp sm dp dm s) = procs s" "q_head (cp_mess src sp sm dp dm s) = q_head s"
  "q_tail (cp_mess src sp sm dp dm s) = q_tail s" "proc_ptr (cp_mess src sp sm dp dm s) = proc_ptr s"
  by (simp_all add: put_msg_def cp_mess_def)

end
