(* ===== verification/Kernel_Queues.thy ===== *)
theory Kernel_Queues
  imports Kernel_State
begin

text \<open>
  The scheduler of \<^verbatim>\<open>kernel/proc.c\<close>: choosing a process, the ready queues of the three classes
  and of the three groups of the exercise (round robin, aging, shortest job first), the work
  done at each clock tick and the rotation when a quantum is used up.
\<close>

section \<open>pick_proc\<close>

text \<open>The walk over group 2: the first of the processes that waited longest.\<close>

fun max_wait :: "nat \<Rightarrow> kern \<Rightarrow> int \<Rightarrow> int option \<Rightarrow> int res" where
  "max_wait 0 s rp current = Hang"
| "max_wait (Suc n) s rp current =
     (case current of
        None \<Rightarrow> Ok rp
      | Some c \<Rightarrow> max_wait n s
          (if wait_ticks (procs s rp) < wait_ticks (procs s c) then c else rp) (p_nextready (procs s c)))"

definition pick_proc :: "config \<Rightarrow> kern \<Rightarrow> kern res" where
  "pick_proc cf s =
     (case q_head s TASK_Q of Some rp \<Rightarrow> Ok (s\<lparr>proc_ptr := rp\<rparr>) | None \<Rightarrow>
     (case q_head s SERVER_Q of Some rp \<Rightarrow> Ok (s\<lparr>proc_ptr := rp\<rparr>) | None \<Rightarrow>
     (case q_head s G1 of Some rp \<Rightarrow> Ok (s\<lparr>proc_ptr := rp, bill_ptr := rp\<rparr>) | None \<Rightarrow>
     (case q_head s G2 of Some rp \<Rightarrow>
        bind_res (max_wait (Suc (slots cf)) s rp (q_head s G2))
          (\<lambda>rp. Ok (upd rp (\<lambda>p. p\<lparr>wait_ticks := 0\<rparr>) (s\<lparr>proc_ptr := rp, bill_ptr := rp\<rparr>))) | None \<Rightarrow>
     (case q_head s G3 of Some rp \<Rightarrow> Ok (s\<lparr>proc_ptr := rp, bill_ptr := rp\<rparr>) | None \<Rightarrow>
     (case q_head s USER_Q of Some rp \<Rightarrow> Ok (s\<lparr>proc_ptr := rp, bill_ptr := rp\<rparr>) | None \<Rightarrow>
        Ok (s\<lparr>proc_ptr := IDLE, bill_ptr := IDLE\<rparr>)))))))"

section \<open>ready\<close>

text \<open>Adding to the tail of a queue, the code of \<open>SERVER_Q\<close>, \<open>g1_queue\<close> and \<open>g2_queue\<close>.\<close>

definition enqueue :: "queue \<Rightarrow> int \<Rightarrow> kern \<Rightarrow> kern res" where
  "enqueue q rp s =
     bind_res
       (case q_head s q of
          None \<Rightarrow> Ok (set_head q (Some rp) s)
        | Some _ \<Rightarrow> (case q_tail s q of
              None \<Rightarrow> Null_deref
            | Some t \<Rightarrow> Ok (set_nextready t (Some rp) s)))
       (\<lambda>s. Ok (set_nextready rp None (set_tail q (Some rp) s)))"

text \<open>The place of a process in group 3: behind all that have a smaller estimate at the front.\<close>

fun find_place :: "nat \<Rightarrow> kern \<Rightarrow> int \<Rightarrow> int option \<Rightarrow> int option \<Rightarrow> int option res" where
  "find_place 0 s est prev current = Hang"
| "find_place (Suc n) s est prev current =
     (case current of
        None \<Rightarrow> Ok prev
      | Some c \<Rightarrow>
          if cpu_estimate (procs s c) < est then find_place n s est (Some c) (p_nextready (procs s c))
          else Ok prev)"

definition insert_sjf :: "config \<Rightarrow> int \<Rightarrow> kern \<Rightarrow> kern res" where
  "insert_sjf cf rp s =
     bind_res (find_place (Suc (slots cf)) s (cpu_estimate (procs s rp)) None (q_head s G3))
       (\<lambda>prev. case prev of
           None \<Rightarrow>
             (let s = set_head G3 (Some rp) (set_nextready rp (q_head s G3) s)
              in Ok (if p_nextready (procs s rp) = None then set_tail G3 (Some rp) s else s))
         | Some p \<Rightarrow>
             (let s = set_nextready p (Some rp) (set_nextready rp (p_nextready (procs s p)) s)
              in Ok (if p_nextready (procs s rp) = None then set_tail G3 (Some rp) s else s)))"

definition ready_with_group :: "config \<Rightarrow> int \<Rightarrow> kern \<Rightarrow> kern res" where
  "ready_with_group cf rp s =
     (if sched_group (procs s rp) = 1 then enqueue G1 rp s
      else if sched_group (procs s rp) = 2 then enqueue G2 rp s
      else if sched_group (procs s rp) = 3 then insert_sjf cf rp s
      else Ok s)"

definition in_group :: "proc \<Rightarrow> bool" where
  "in_group p \<longleftrightarrow> isuserp p \<and> 0 < sched_group p \<and> sched_group p < 4"

definition ready :: "config \<Rightarrow> int \<Rightarrow> kern \<Rightarrow> kern res" where
  "ready cf rp s =
     (if istaskp (procs s rp)
      then enqueue TASK_Q rp (if q_head s TASK_Q = None then s\<lparr>proc_ptr := rp\<rparr> else s)
      else if isservp (procs s rp) then enqueue SERVER_Q rp s
      else if in_group (procs s rp) then ready_with_group cf rp s
      else (let s = (if q_head s USER_Q = None then set_tail USER_Q (Some rp) s else s)
            in Ok (set_head USER_Q (Some rp) (set_nextready rp (q_head s USER_Q) s))))"

section \<open>unready\<close>

text \<open>The search for the predecessor of \<open>rp\<close>, from \<open>xp\<close> on.\<close>

fun find_pred :: "nat \<Rightarrow> kern \<Rightarrow> int \<Rightarrow> int \<Rightarrow> int option res" where
  "find_pred 0 s rp xp = Hang"
| "find_pred (Suc n) s rp xp =
     (if p_nextready (procs s xp) = Some rp then Ok (Some xp)
      else case p_nextready (procs s xp) of
             None \<Rightarrow> Ok None
           | Some y \<Rightarrow> find_pred n s rp y)"

text \<open>Taking \<open>rp\<close> out of the body of a queue whose first element is \<open>xp\<close>.\<close>

definition unlink :: "config \<Rightarrow> queue \<Rightarrow> int \<Rightarrow> int \<Rightarrow> kern \<Rightarrow> kern res" where
  "unlink cf q rp xp s =
     bind_res (find_pred (Suc (slots cf)) s rp xp)
       (\<lambda>found. case found of
           None \<Rightarrow> Ok s
         | Some xp \<Rightarrow>
             (let s = set_nextready xp (p_nextready (procs s rp)) s
              in Ok (if q_tail s q = Some rp then set_tail q (Some xp) s else s)))"

definition unready_from_group :: "config \<Rightarrow> queue \<Rightarrow> int \<Rightarrow> kern \<Rightarrow> kern res" where
  "unready_from_group cf q rp s =
     (case q_head s q of
        None \<Rightarrow> Ok s
      | Some xp \<Rightarrow>
          if xp = rp
          then (let s = set_head q (p_nextready (procs s rp)) s
                in Ok (if q_head s q = None then set_tail q None s else s))
          else unlink cf q rp xp s)"

definition group_queue :: "int \<Rightarrow> queue" where
  "group_queue g = (if g = 1 then G1 else if g = 2 then G2 else G3)"

definition unready :: "config \<Rightarrow> int \<Rightarrow> kern \<Rightarrow> kern res" where
  "unready cf rp s =
     (if istaskp (procs s rp) then
        (if p_stguard (procs s rp) \<noteq> STACK_GUARD then Panic ''stack overrun by task''
         else case q_head s TASK_Q of
            None \<Rightarrow> Ok s
          | Some xp \<Rightarrow>
              if xp = rp
              then (let s = set_head TASK_Q (p_nextready (procs s xp)) s
                    in if rp = proc_ptr s then pick_proc cf s else Ok s)
              else unlink cf TASK_Q rp xp s)
      else if isservp (procs s rp) then
        (case q_head s SERVER_Q of
            None \<Rightarrow> Ok s
          | Some xp \<Rightarrow>
              if xp = rp then pick_proc cf (set_head SERVER_Q (p_nextready (procs s xp)) s)
              else unlink cf SERVER_Q rp xp s)
      else if in_group (procs s rp) then
        bind_res (unready_from_group cf (group_queue (sched_group (procs s rp))) rp s)
          (\<lambda>s. if rp = proc_ptr s then pick_proc cf s else Ok s)
      else
        (case q_head s USER_Q of
            None \<Rightarrow> Ok s
          | Some xp \<Rightarrow>
              if xp = rp then pick_proc cf (set_head USER_Q (p_nextready (procs s xp)) s)
              else unlink cf USER_Q rp xp s))"

section \<open>sched\<close>

definition sched :: "config \<Rightarrow> kern \<Rightarrow> kern res" where
  "sched cf s =
     (let current = proc_ptr s
      in if isuserp (procs s current) \<and> sched_group (procs s current) = 1 then
           (case q_head s G1 of
              None \<Rightarrow> Ok s
            | Some g1 \<Rightarrow>
                (case p_nextready (procs s g1) of
                   None \<Rightarrow> Ok s
                 | Some next_rr \<Rightarrow>
                     bind_res
                       (if q_tail s G1 \<noteq> Some current
                        then (case q_tail s G1 of
                                None \<Rightarrow> Null_deref
                              | Some t \<Rightarrow> Ok (set_nextready t (Some current) s))
                        else Ok s)
                       (\<lambda>s. pick_proc cf (set_head G1 (Some next_rr)
                          (upd current (\<lambda>p. p\<lparr>p_nextready := None, rr_counter := 0\<rparr>)
                             (set_tail G1 (Some current) s))))))
         else
           (case q_head s USER_Q of
              None \<Rightarrow> Ok s
            | Some h \<Rightarrow>
                (case q_tail s USER_Q of
                   None \<Rightarrow> Null_deref
                 | Some t \<Rightarrow>
                     (let s = set_tail USER_Q (Some h) (set_nextready t (Some h) s);
                          s = set_head USER_Q (p_nextready (procs s h)) s
                      in pick_proc cf (set_nextready h None s)))))"

text \<open>The gateways for tasks set \<open>switching\<close> around the call.\<close>

definition gateway :: "(kern \<Rightarrow> kern res) \<Rightarrow> kern \<Rightarrow> kern res" where
  "gateway f s = bind_res (f (s\<lparr>switching := True\<rparr>)) (\<lambda>s. Ok (s\<lparr>switching := False\<rparr>))"

definition lock_pick_proc :: "config \<Rightarrow> kern \<Rightarrow> kern res" where
  "lock_pick_proc cf = gateway (pick_proc cf)"

definition lock_ready :: "config \<Rightarrow> int \<Rightarrow> kern \<Rightarrow> kern res" where
  "lock_ready cf rp = gateway (ready cf rp)"

definition lock_unready :: "config \<Rightarrow> int \<Rightarrow> kern \<Rightarrow> kern res" where
  "lock_unready cf rp = gateway (unready cf rp)"

definition lock_sched :: "config \<Rightarrow> kern \<Rightarrow> kern res" where
  "lock_sched cf = gateway (sched cf)"

section \<open>Aging and the clock tick\<close>

text \<open>One more tick of waiting, at most \<open>MAX_WAIT_TICKS\<close>.\<close>

definition age :: "int \<Rightarrow> kern \<Rightarrow> kern" where
  "age rp s = upd rp (\<lambda>p. p\<lparr>wait_ticks :=
      (if MAX_WAIT_TICKS < int32 (wait_ticks p + 1) then MAX_WAIT_TICKS else int32 (wait_ticks p + 1))\<rparr>) s"

fun age_queue :: "nat \<Rightarrow> int option \<Rightarrow> kern \<Rightarrow> kern res" where
  "age_queue 0 rp s = Hang"
| "age_queue (Suc n) rp s =
     (case rp of
        None \<Rightarrow> Ok s
      | Some r \<Rightarrow>
          (let s = (if r \<noteq> proc_ptr s then age r s else s)
           in age_queue n (p_nextready (procs s r)) s))"

definition age_blocked :: "config \<Rightarrow> kern \<Rightarrow> kern" where
  "age_blocked cf s = fold (\<lambda>rp s.
      if isuserp (procs s rp) \<and> sched_group (procs s rp) = 2 \<and> p_flags (procs s rp) \<inter> {SENDING, RECEIVING} \<noteq> {}
      then age rp s else s) (all_procs cf) s"

definition update_aging_for_group2 :: "config \<Rightarrow> kern \<Rightarrow> kern res" where
  "update_aging_for_group2 cf s =
     bind_res (age_queue (Suc (slots cf)) (q_head s G2) s) (\<lambda>s. Ok (age_blocked cf s))"

definition handle_clock_tick :: "config \<Rightarrow> kern \<Rightarrow> kern res" where
  "handle_clock_tick cf s =
     (let rp = proc_ptr s
      in bind_res
        (if isuserp (procs s rp) \<and> sched_group (procs s rp) = 1
         then (let s = upd rp (\<lambda>p. p\<lparr>rr_counter := int32 (rr_counter p + 1)\<rparr>) s
               in if RR_QUANTUM \<le> rr_counter (procs s rp)
                  then lock_sched cf (upd rp (\<lambda>p. p\<lparr>rr_counter := 0\<rparr>) s)
                  else Ok s)
         else Ok s)
        (\<lambda>s. let s = s\<lparr>aging_counter := int32 (aging_counter s + 1)\<rparr>
             in if AGING_TICK \<le> aging_counter s
                then bind_res (update_aging_for_group2 cf s) (\<lambda>s. Ok (s\<lparr>aging_counter := 0\<rparr>))
                else Ok s))"

end
