(* ===== verification/Kernel_Lists.thy ===== *)
theory Kernel_Lists
  imports Kernel_Queues
begin

text \<open>
  The ready queues as lists: what every operation of the scheduler does to the six lists of
  processes that the head, tail and link pointers represent.
\<close>

section \<open>Representation\<close>

definition nx :: "kern \<Rightarrow> int \<Rightarrow> int option" where
  "nx s p = p_nextready (procs s p)"

definition queue_list :: "(int \<Rightarrow> int option) \<Rightarrow> int option \<Rightarrow> int option \<Rightarrow> int list \<Rightarrow> bool" where
  "queue_list n h t xs \<longleftrightarrow> linked n h xs \<and> (xs \<noteq> [] \<longrightarrow> t = Some (last xs))"

definition lists_ok :: "kern \<Rightarrow> (queue \<Rightarrow> int list) \<Rightarrow> bool" where
  "lists_ok s Q \<longleftrightarrow> (\<forall>q. queue_list (nx s) (q_head s q) (q_tail s q) (Q q))
     \<and> (\<forall>q q'. q \<noteq> q' \<longrightarrow> set (Q q) \<inter> set (Q q') = {})"

text \<open>What the scheduler does not change of a process.\<close>

definition same_procs :: "kern \<Rightarrow> kern \<Rightarrow> bool" where
  "same_procs s t \<longleftrightarrow> (\<forall>p. p_flags (procs t p) = p_flags (procs s p)
     \<and> p_priority (procs t p) = p_priority (procs s p) \<and> sched_group (procs t p) = sched_group (procs s p)
     \<and> cpu_estimate (procs t p) = cpu_estimate (procs s p) \<and> p_stguard (procs t p) = p_stguard (procs s p)
     \<and> p_callerq (procs t p) = p_callerq (procs s p) \<and> p_sendlink (procs t p) = p_sendlink (procs s p)
     \<and> p_sendto (procs t p) = p_sendto (procs s p) \<and> p_getfrom (procs t p) = p_getfrom (procs s p)
     \<and> p_messbuf (procs t p) = p_messbuf (procs s p) \<and> p_alarm (procs t p) = p_alarm (procs s p)
     \<and> child_utime (procs t p) = child_utime (procs s p) \<and> child_stime (procs t p) = child_stime (procs s p)
     \<and> p_pending (procs t p) = p_pending (procs s p))
     \<and> msgs t = msgs s"

lemma same_procs_refl [simp]: "same_procs s s"
  by (simp add: same_procs_def)

lemma same_procs_trans: "same_procs s t \<Longrightarrow> same_procs t u \<Longrightarrow> same_procs s u"
  by (simp add: same_procs_def)

lemma nx_sel [simp]:
  "nx (set_nextready p v s) = (nx s)(p := v)" "nx (set_head q v s) = nx s" "nx (set_tail q v s) = nx s"
  "nx (s\<lparr>proc_ptr := p\<rparr>) = nx s" "nx (s\<lparr>proc_ptr := p, bill_ptr := r\<rparr>) = nx s"
  "nx (s\<lparr>switching := b\<rparr>) = nx s"
  by (auto simp: nx_def fun_eq_iff)

lemma next_nx: "p_nextready (procs s p) = nx s p"
  by (simp add: nx_def)

lemma same_procs_upd [simp]:
  "same_procs s (set_nextready p v t) = same_procs s t" "same_procs s (set_head q v t) = same_procs s t"
  "same_procs s (set_tail q v t) = same_procs s t" "same_procs s (t\<lparr>proc_ptr := p\<rparr>) = same_procs s t"
  "same_procs s (t\<lparr>proc_ptr := p, bill_ptr := r\<rparr>) = same_procs s t"
  "same_procs s (t\<lparr>switching := b\<rparr>) = same_procs s t"
  by (auto simp: same_procs_def)

lemma queue_listD:
  "queue_list n h t xs \<Longrightarrow> linked n h xs" "queue_list n h t (x # xs) \<Longrightarrow> h = Some x"
  by (auto simp: queue_list_def)

lemma queue_list_upd [simp]: "p \<notin> set xs \<Longrightarrow> queue_list (n(p := v)) h t xs = queue_list n h t xs"
  by (simp add: queue_list_def)

lemma queues_head: "lists_ok s Q \<Longrightarrow> q_head s q = (case Q q of [] \<Rightarrow> None | x # _ \<Rightarrow> Some x)"
  unfolding lists_ok_def queue_list_def by (cases "Q q") (metis chain.simps(1) list.simps(4), metis chain.simps(2) list.simps(5))

lemma lists_tail: "lists_ok s Q \<Longrightarrow> Q q \<noteq> [] \<Longrightarrow> q_tail s q = Some (last (Q q))"
  by (simp add: lists_ok_def queue_list_def)

lemma lists_linked: "lists_ok s Q \<Longrightarrow> linked (nx s) (q_head s q) (Q q)"
  by (simp add: lists_ok_def queue_list_def)

lemma queues_distinct: "lists_ok s Q \<Longrightarrow> distinct (Q q)"
  using lists_linked linked_distinct by blast

text \<open>A new list for one queue, when only links of its own members and of a newcomer have changed.\<close>

lemma lists_ok_change:
  assumes l: "lists_ok s Q" and n: "queue_list (nx t) (q_head t q) (q_tail t q) xs"
    and o: "\<And>q'. q' \<noteq> q \<Longrightarrow> q_head t q' = q_head s q' \<and> q_tail t q' = q_tail s q'"
    and c: "\<And>q' p. q' \<noteq> q \<Longrightarrow> p \<in> set (Q q') \<Longrightarrow> nx t p = nx s p"
    and d: "\<And>q'. q' \<noteq> q \<Longrightarrow> set xs \<inter> set (Q q') = {}"
  shows "lists_ok t (Q(q := xs))"
proof -
  have "queue_list (nx t) (q_head t q') (q_tail t q') (Q q')" if "q' \<noteq> q" for q'
  proof -
    have "queue_list (nx s) (q_head t q') (q_tail t q') (Q q')" using l o [OF that] by (simp add: lists_ok_def)
    then show ?thesis using chain_cong [of "Q q'" "nx t" "nx s"] c [OF that] by (simp add: queue_list_def)
  qed
  moreover have "set (Q q') \<inter> set xs = {}" if "q' \<noteq> q" for q' using d [OF that] by blast
  ultimately show ?thesis using l n d by (auto simp: lists_ok_def)
qed

text \<open>Only links have changed.\<close>

definition only_links :: "kern \<Rightarrow> kern \<Rightarrow> bool" where
  "only_links s t \<longleftrightarrow> (\<forall>p. procs t p = (procs s p)\<lparr>p_nextready := p_nextready (procs t p)\<rparr>) \<and> msgs t = msgs s"

lemma only_links_same: "only_links s t \<Longrightarrow> same_procs s t"
  unfolding only_links_def same_procs_def
proof (intro conjI allI)
  fix p
  assume "(\<forall>p. procs t p = (procs s p)\<lparr>p_nextready := p_nextready (procs t p)\<rparr>) \<and> msgs t = msgs s"
  then obtain v where v: "procs t p = (procs s p)\<lparr>p_nextready := v\<rparr>" by blast
  show "p_flags (procs t p) = p_flags (procs s p)" "p_priority (procs t p) = p_priority (procs s p)"
    "sched_group (procs t p) = sched_group (procs s p)" "cpu_estimate (procs t p) = cpu_estimate (procs s p)"
    "p_stguard (procs t p) = p_stguard (procs s p)" "p_callerq (procs t p) = p_callerq (procs s p)"
    "p_sendlink (procs t p) = p_sendlink (procs s p)" "p_sendto (procs t p) = p_sendto (procs s p)"
    "p_getfrom (procs t p) = p_getfrom (procs s p)" "p_messbuf (procs t p) = p_messbuf (procs s p)"
    "p_alarm (procs t p) = p_alarm (procs s p)" "child_utime (procs t p) = child_utime (procs s p)"
    "child_stime (procs t p) = child_stime (procs s p)" "p_pending (procs t p) = p_pending (procs s p)"
    by (simp_all add: v)
qed simp

lemma only_links_wait: "only_links s t \<Longrightarrow> wait_ticks (procs t p) = wait_ticks (procs s p)"
  unfolding only_links_def by (drule conjunct1, drule spec [of _ p], drule arg_cong [where f = wait_ticks]) simp

lemma only_links_refl [simp]: "only_links s s"
  by (simp add: only_links_def)

lemma only_links_upd [simp]:
  "only_links s t \<Longrightarrow> only_links s (set_nextready p v t)"
  "only_links s (set_head q v t) = only_links s t"
  "only_links s (set_tail q v t) = only_links s t" "only_links s (t\<lparr>proc_ptr := p\<rparr>) = only_links s t"
proof -
  show "only_links s (set_nextready p v t)" if l: "only_links s t"
  proof -
    from l have "procs t p = (procs s p)\<lparr>p_nextready := p_nextready (procs t p)\<rparr>" unfolding only_links_def by blast
    then obtain w where "procs t p = (procs s p)\<lparr>p_nextready := w\<rparr>" by blast
    then have "(procs t p)\<lparr>p_nextready := v\<rparr> = (procs s p)\<lparr>p_nextready := v\<rparr>" by simp
    with l show ?thesis by (simp add: only_links_def)
  qed
qed (simp_all add: only_links_def)

section \<open>enqueue\<close>

lemma enqueue_lists:
  assumes l: "lists_ok s Q" and p: "\<And>q. p \<notin> set (Q q)"
  shows "\<exists>t. enqueue q p s = Ok t \<and> lists_ok t (Q(q := Q q @ [p])) \<and> only_links s t
    \<and> proc_ptr t = proc_ptr s"
proof (cases "Q q" rule: rev_cases)
  case Nil
  let ?t = "set_nextready p None (set_tail q (Some p) (set_head q (Some p) s))"
  have "q_head s q = None" using queues_head [OF l, of q] Nil by simp
  then have "enqueue q p s = Ok ?t" by (simp add: enqueue_def)
  moreover have "lists_ok ?t (Q(q := Q q @ [p]))"
    by (rule lists_ok_change [OF l]) (use p Nil in \<open>auto simp: queue_list_def\<close>)
  ultimately show ?thesis by auto
next
  case (snoc xs x)
  let ?t = "set_nextready p None (set_tail q (Some p) (set_nextready x (Some p) s))"
  have h: "q_head s q \<noteq> None" using queues_head [OF l, of q] snoc by (cases xs) auto
  have t: "q_tail s q = Some x" using lists_tail [OF l] snoc by simp
  have "enqueue q p s = Ok ?t" using h t by (auto simp: enqueue_def)
  moreover have "lists_ok ?t (Q(q := Q q @ [p]))"
  proof (rule lists_ok_change [OF l])
    have "linked (nx s) (q_head s q) (xs @ [x])" using lists_linked [OF l, of q] snoc by simp
    moreover have "p \<notin> set (xs @ [x])" using p [of q] snoc by simp
    ultimately have "linked ((nx s)(x := Some p, p := None)) (q_head s q) (xs @ [x, p])" by (rule linked_snoc)
    then show "queue_list (nx ?t) (q_head ?t q) (q_tail ?t q) (Q q @ [p])"
      using snoc by (simp add: queue_list_def)
    show "set (Q q @ [p]) \<inter> set (Q q') = {}" if "q' \<noteq> q" for q'
      using l p that by (auto simp: lists_ok_def)
    show "nx ?t r = nx s r" if "q' \<noteq> q" "r \<in> set (Q q')" for q' r
    proof -
      have "x \<in> set (Q q)" using snoc by simp
      then have "r \<noteq> x" using l that unfolding lists_ok_def by blast
      moreover have "r \<noteq> p" using p that by blast
      ultimately show ?thesis by simp
    qed
  qed auto
  ultimately show ?thesis by auto
qed

section \<open>Taking a process out\<close>

lemma find_pred_split:
  "linked (nx s) (Some x) (x # xs) \<Longrightarrow> length xs < n \<Longrightarrow>
   (\<exists>us w vs. x # xs = us @ w # p # vs \<and> find_pred n s p x = Ok (Some w)) \<or>
   (p \<notin> set xs \<and> find_pred n s p x = Ok None)"
proof (induction xs arbitrary: x n)
  case Nil
  then obtain m where "n = Suc m" by (cases n) auto
  with Nil show ?case by (auto simp: next_nx)
next
  case (Cons y ys)
  then obtain m where n: "n = Suc m" "length ys < m" by (cases n) auto
  have nxx: "nx s x = Some y" and l: "linked (nx s) (Some y) (y # ys)" using Cons.prems(1) by auto
  show ?case
  proof (cases "y = p")
    case True
    with n nxx show ?thesis by (intro disjI1 exI [of _ "[]"] exI [of _ x] exI [of _ ys]) (simp add: next_nx)
  next
    case False
    have e: "find_pred n s p x = find_pred m s p y" using n nxx False by (simp add: next_nx)
    from Cons.IH [OF l n(2)] show ?thesis
    proof (elim disjE exE conjE)
      fix us w vs
      assume "y # ys = us @ w # p # vs" "find_pred m s p y = Ok (Some w)"
      with e show ?thesis by (intro disjI1 exI [of _ "x # us"] exI [of _ w] exI [of _ vs]) simp
    qed (use e False in auto)
  qed
qed

lemma unlink_lists:
  assumes l: "lists_ok s Q" and x: "Q q = x # xs" "x \<noteq> p" and len: "length (Q q) \<le> slots cf"
  shows "\<exists>t. unlink cf q p x s = Ok t \<and> lists_ok t (Q(q := remove1 p (Q q))) \<and> only_links s t
    \<and> proc_ptr t = proc_ptr s"
proof -
  have lk: "linked (nx s) (q_head s q) (x # xs)" "q_head s q = Some x"
    using lists_linked [OF l, of q] x by (auto simp: queues_head [OF l])
  have d: "distinct (x # xs)" using queues_distinct [OF l, of q] x by simp
  have "length xs < Suc (slots cf)" using len x by simp
  from find_pred_split [OF lk(1) [unfolded lk(2)] this, of p] show ?thesis
  proof (elim disjE exE conjE)
    fix us w vs
    assume e: "x # xs = us @ w # p # vs" and f: "find_pred (Suc (slots cf)) s p x = Ok (Some w)"
    let ?u = "set_nextready w (nx s p) s"
    let ?t = "if q_tail ?u q = Some p then set_tail q (Some w) ?u else ?u"
    have u: "unlink cf q p x s = Ok ?t" using f by (simp add: unlink_def Let_def next_nx)
    have Qe: "Q q = us @ w # p # vs" using x e by simp
    have "distinct (us @ w # p # vs)" using d e by simp
    then have pd: "p \<notin> set us" "p \<noteq> w" "p \<notin> set vs" by auto
    have r: "remove1 p (Q q) = us @ w # vs" using pd Qe by (simp add: remove1_append)
    have "lists_ok ?t (Q(q := us @ w # vs))"
    proof (rule lists_ok_change [OF l])
      have "linked ((nx s)(w := nx s p)) (q_head s q) (us @ w # vs)"
        by (rule linked_unlink) (use lk e in simp)
      moreover have "q_tail s q = Some (last (us @ w # p # vs))" using lists_tail [OF l, of q] Qe by simp
      moreover have "last (p # vs) = p \<longleftrightarrow> vs = []" using pd by (cases vs rule: rev_cases) auto
      ultimately show "queue_list (nx ?t) (q_head ?t q) (q_tail ?t q) (us @ w # vs)"
        by (auto simp: queue_list_def)
      show "set (us @ w # vs) \<inter> set (Q q') = {}" if "q' \<noteq> q" for q'
      proof -
        have "set (Q q) \<inter> set (Q q') = {}" using l that by (auto simp: lists_ok_def)
        then show ?thesis by (auto simp: Qe)
      qed
      show "nx ?t r' = nx s r'" if "q' \<noteq> q" "r' \<in> set (Q q')" for q' r'
      proof -
        have "w \<in> set (Q q)" using Qe by simp
        then have "r' \<noteq> w" using l that unfolding lists_ok_def by blast
        then show ?thesis by simp
      qed
    qed auto
    then show ?thesis using u r by auto
  next
    assume np: "p \<notin> set xs" and f: "find_pred (Suc (slots cf)) s p x = Ok None"
    have "remove1 p (Q q) = Q q" using np x by (simp add: remove1_idem)
    then show ?thesis using f l by (intro exI [of _ s]) (simp add: unlink_def)
  qed
qed

lemma drop_head_lists:
  assumes l: "lists_ok s Q" and x: "Q q = p # xs"
  shows "lists_ok (set_head q (nx s p) s) (Q(q := xs))"
proof (rule lists_ok_change [OF l])
  have "linked (nx s) (nx s p) xs" using lists_linked [OF l, of q] x by simp
  moreover have "q_tail s q = Some (last (p # xs))" using lists_tail [OF l, of q] x by simp
  ultimately show "queue_list (nx (set_head q (nx s p) s)) (q_head (set_head q (nx s p) s) q)
      (q_tail (set_head q (nx s p) s) q) xs" by (auto simp: queue_list_def)
  show "set xs \<inter> set (Q q') = {}" if "q' \<noteq> q" for q'
  proof -
    have "set (Q q) \<inter> set (Q q') = {}" using l that by (auto simp: lists_ok_def)
    then show ?thesis by (auto simp: x)
  qed
qed auto

end
