(* ===== verification/Kernel_Sched.thy ===== *)
theory Kernel_Sched
  imports Kernel_Lists
begin

text \<open>
  The scheduler on lists: \<open>pick_proc\<close>, \<open>ready\<close>, \<open>unready\<close> and \<open>sched\<close> as operations on the six
  ready lists, and the invariant they keep.
\<close>

section \<open>Priority of the queues\<close>

fun rank :: "queue \<Rightarrow> nat" where
  "rank TASK_Q = 0"
| "rank SERVER_Q = 1"
| "rank G1 = 2"
| "rank G2 = 3"
| "rank G3 = 4"
| "rank USER_Q = 5"

lemma rank_inj: "rank q = rank q' \<Longrightarrow> q = q'"
  by (cases q; cases q') simp_all

instantiation queue :: linorder
begin

definition less_eq_queue :: "queue \<Rightarrow> queue \<Rightarrow> bool" where
  "q \<le> q' \<longleftrightarrow> rank q \<le> rank q'"

definition less_queue :: "queue \<Rightarrow> queue \<Rightarrow> bool" where
  "q < q' \<longleftrightarrow> rank q < rank q'"

instance
  by standard (auto simp: less_eq_queue_def less_queue_def rank_inj)

end

section \<open>pick_proc\<close>

lemma max_wait_max:
  "linked (nx s) cur xs \<Longrightarrow> length xs < n \<Longrightarrow>
   \<exists>r. max_wait n s rp cur = Ok r \<and> r \<in> set (rp # xs)
     \<and> (\<forall>p \<in> set (rp # xs). wait_ticks (procs s p) \<le> wait_ticks (procs s r))"
proof (induction xs arbitrary: rp cur n)
  case Nil
  then show ?case by (cases n) auto
next
  case (Cons x xs)
  then obtain m where n: "n = Suc m" "length xs < m" by (cases n) auto
  have c: "cur = Some x" "linked (nx s) (nx s x) xs" using Cons.prems(1) by auto
  let ?b = "if wait_ticks (procs s rp) < wait_ticks (procs s x) then x else rp"
  from Cons.IH [OF c(2) n(2), of ?b] obtain r where
    r: "max_wait m s ?b (nx s x) = Ok r" "r \<in> set (?b # xs)"
      "\<forall>p \<in> set (?b # xs). wait_ticks (procs s p) \<le> wait_ticks (procs s r)" by blast
  have "max_wait n s rp cur = Ok r" using n c r(1) by (simp add: next_nx)
  moreover have "r \<in> set (rp # x # xs)" using r(2) by (auto split: if_splits)
  moreover have "\<forall>p \<in> set (rp # x # xs). wait_ticks (procs s p) \<le> wait_ticks (procs s r)"
    using r(3) by (auto split: if_splits)
  ultimately show ?case by blast
qed

text \<open>The process that runs next: from the first queue in the order of priority that is not
  empty, its head, or in group 2 one that waited longest; \<open>IDLE\<close> if all are empty.\<close>

definition choice :: "kern \<Rightarrow> (queue \<Rightarrow> int list) \<Rightarrow> int \<Rightarrow> bool" where
  "choice s Q p \<longleftrightarrow> (\<forall>q. Q q = []) \<and> p = IDLE \<or>
     (\<exists>q. p \<in> set (Q q) \<and> (\<forall>q'. Q q' \<noteq> [] \<longrightarrow> q \<le> q') \<and> (q \<noteq> G2 \<longrightarrow> p = hd (Q q))
       \<and> (q = G2 \<longrightarrow> (\<forall>r \<in> set (Q q). wait_ticks (procs s r) \<le> wait_ticks (procs s p))))"

lemma choiceI:
  assumes "Q q \<noteq> []" and "\<And>q'. q' < q \<Longrightarrow> Q q' = []" and "q \<noteq> G2"
  shows "choice s Q (hd (Q q))"
  using assms unfolding choice_def by (metis list.set_sel(1) linorder_not_le)

lemma first_queue:
  fixes Q :: "queue \<Rightarrow> int list"
  obtains "\<forall>q. Q q = []" | q where "Q q \<noteq> []" "\<And>q'. q' < q \<Longrightarrow> Q q' = []"
proof (cases "\<forall>q. Q q = []")
  case False
  then obtain k where "Q k \<noteq> []" by blast
  from ex_has_least_nat [of "\<lambda>q. Q q \<noteq> []", OF this, of rank] obtain q where
    q: "Q q \<noteq> []" "\<forall>q'. Q q' \<noteq> [] \<longrightarrow> rank q \<le> rank q'" by blast
  then have "Q q' = []" if "q' < q" for q' using that by (auto simp: less_queue_def)
  with q(1) show ?thesis by (rule that(2))
qed (rule that(1))

lemma pick_g2:
  assumes l: "lists_ok s Q" and len: "length (Q G2) \<le> slots cf" and ne: "Q G2 \<noteq> []"
    and e: "\<And>q'. q' < G2 \<Longrightarrow> Q q' = []"
  shows "\<exists>t. pick_proc cf s = Ok t \<and> lists_ok t Q \<and> same_procs s t \<and> choice s Q (proc_ptr t)"
proof -
  obtain x xs where Cons: "Q G2 = x # xs" using ne by (cases "Q G2") auto
  have none: "q_head s TASK_Q = None" "q_head s SERVER_Q = None" "q_head s G1 = None" "q_head s G2 = Some x"
    using queues_head [OF l] e Cons by (auto simp: less_queue_def)
  have lk: "linked (nx s) (q_head s G2) (x # xs)" using lists_linked [OF l, of G2] Cons by simp
  have "length (x # xs) < Suc (slots cf)" using len Cons by simp
  from max_wait_max [OF lk this, of x] obtain r where r: "max_wait (Suc (slots cf)) s x (q_head s G2) = Ok r"
    "r \<in> set (Q G2)" "\<forall>p \<in> set (Q G2). wait_ticks (procs s p) \<le> wait_ticks (procs s r)"
    using Cons by auto
  let ?t = "upd r (\<lambda>p. p\<lparr>wait_ticks := 0\<rparr>) (s\<lparr>proc_ptr := r, bill_ptr := r\<rparr>)"
  have "pick_proc cf s = Ok ?t" using none r(1) by (simp add: pick_proc_def del: max_wait.simps)
  moreover have "nx ?t = nx s" by (auto simp: nx_def fun_eq_iff)
  then have "lists_ok ?t Q" using l by (simp add: lists_ok_def)
  moreover have "same_procs s ?t" by (auto simp: same_procs_def)
  moreover have "choice s Q r" using r e unfolding choice_def by (metis linorder_not_le)
  ultimately show ?thesis by auto
qed

lemma pick_proc_lists:
  assumes l: "lists_ok s Q" and len: "length (Q G2) \<le> slots cf"
  shows "\<exists>t. pick_proc cf s = Ok t \<and> lists_ok t Q \<and> same_procs s t \<and> choice s Q (proc_ptr t)"
proof -
  note h = queues_head [OF l]
  have ok: "lists_ok (s\<lparr>proc_ptr := p\<rparr>) Q" "lists_ok (s\<lparr>proc_ptr := p, bill_ptr := r\<rparr>) Q" for p r
    using l by (auto simp: lists_ok_def)
  show ?thesis
  proof (rule first_queue [of Q])
    assume "\<forall>q. Q q = []"
    then show ?thesis using ok h by (auto simp: pick_proc_def choice_def)
  next
    fix q
    assume q: "Q q \<noteq> []" and e: "\<And>q'. q' < q \<Longrightarrow> Q q' = []"
    show ?thesis
    proof (cases "q = G2")
      case True
      with pick_g2 [OF l len] q e show ?thesis by blast
    next
      case False
      have none: "q' < q \<Longrightarrow> q_head s q' = None" for q' using e h [of q'] by simp
      have "q_head s q = Some (hd (Q q))" using h [of q] q by (cases "Q q") auto
      then have "pick_proc cf s \<in> {Ok (s\<lparr>proc_ptr := hd (Q q)\<rparr>), Ok (s\<lparr>proc_ptr := hd (Q q), bill_ptr := hd (Q q)\<rparr>)}"
        using False none [of TASK_Q] none [of SERVER_Q] none [of G1] none [of G2] none [of G3]
        by (cases q) (simp_all add: pick_proc_def less_queue_def)
      with choiceI [where Q = Q, OF q e False] ok show ?thesis by auto
    qed
  qed
qed

section \<open>ready\<close>

text \<open>Shortest job first: behind all that have a smaller estimate.\<close>

definition sjf_insert :: "kern \<Rightarrow> int \<Rightarrow> int list \<Rightarrow> int list" where
  "sjf_insert s p xs =
     takeWhile (\<lambda>r. cpu_estimate (procs s r) < cpu_estimate (procs s p)) xs @
     p # dropWhile (\<lambda>r. cpu_estimate (procs s r) < cpu_estimate (procs s p)) xs"

definition opt_last :: "int list \<Rightarrow> int option" where
  "opt_last us = (if us = [] then None else Some (last us))"

lemma find_place_takeWhile:
  "linked (nx s) cur xs \<Longrightarrow> length xs < n \<Longrightarrow>
   find_place n s e prev cur =
     Ok (let us = takeWhile (\<lambda>r. cpu_estimate (procs s r) < e) xs in if us = [] then prev else Some (last us))"
proof (induction xs arbitrary: cur prev n)
  case Nil
  then show ?case by (cases n) auto
next
  case (Cons x xs)
  then obtain m where n: "n = Suc m" "length xs < m" by (cases n) auto
  have c: "cur = Some x" "linked (nx s) (nx s x) xs" using Cons.prems(1) by auto
  from n c Cons.IH [OF c(2) n(2), of "Some x"] show ?case by (auto simp: next_nx Let_def)
qed

lemma insert_sjf_lists:
  assumes l: "lists_ok s Q" and p: "\<And>q. p \<notin> set (Q q)" and len: "length (Q G3) \<le> slots cf"
  shows "\<exists>t. insert_sjf cf p s = Ok t \<and> lists_ok t (Q(G3 := sjf_insert s p (Q G3))) \<and> only_links s t
    \<and> proc_ptr t = proc_ptr s"
proof -
  let ?P = "\<lambda>r. cpu_estimate (procs s r) < cpu_estimate (procs s p)"
  define us vs where uv: "us = takeWhile ?P (Q G3)" "vs = dropWhile ?P (Q G3)"
  have Qe: "Q G3 = us @ vs" by (simp add: uv)
  have lk: "linked (nx s) (q_head s G3) (us @ vs)" using lists_linked [OF l, of G3] Qe by simp
  have tl: "us @ vs \<noteq> [] \<Longrightarrow> q_tail s G3 = Some (last (us @ vs))" using lists_tail [OF l, of G3] Qe by simp
  have pn: "p \<notin> set us" "p \<notin> set vs" using p [of G3] Qe by auto
  have oth: "set (us @ p # vs) \<inter> set (Q q') = {}" if "q' \<noteq> G3" for q'
  proof -
    have "set (Q G3) \<inter> set (Q q') = {}" using l that by (auto simp: lists_ok_def)
    then show ?thesis using p [of q'] by (auto simp: Qe)
  qed
  have len': "length (Q G3) < Suc (slots cf)" using len by simp
  note fp = find_place_takeWhile [OF lists_linked [OF l, of G3] len', of "cpu_estimate (procs s p)" None]
  have res: "sjf_insert s p (Q G3) = us @ p # vs" by (simp add: sjf_insert_def uv)
  show ?thesis
  proof (cases us rule: rev_cases)
    case Nil
    let ?u = "set_head G3 (Some p) (set_nextready p (q_head s G3) s)"
    let ?t = "if nx ?u p = None then set_tail G3 (Some p) ?u else ?u"
    have "insert_sjf cf p s = Ok ?t"
      using fp Nil by (simp add: insert_sjf_def Let_def uv(1) [symmetric] next_nx del: find_place.simps)
    moreover have "lists_ok ?t (Q(G3 := p # vs))"
    proof (rule lists_ok_change [OF l])
      show "queue_list (nx ?t) (q_head ?t G3) (q_tail ?t G3) (p # vs)"
        using lk tl Nil pn by (cases vs) (auto simp: queue_list_def)
      show "nx ?t r = nx s r" if "q' \<noteq> G3" "r \<in> set (Q q')" for q' r
        using oth [OF that(1)] that(2) by auto
      show "set (p # vs) \<inter> set (Q q') = {}" if "q' \<noteq> G3" for q' using oth [OF that] by auto
    qed auto
    ultimately show ?thesis using res Nil by auto
  next
    case (snoc ws w)
    let ?u = "set_nextready w (Some p) (set_nextready p (nx s w) s)"
    let ?t = "if nx ?u p = None then set_tail G3 (Some p) ?u else ?u"
    have wp: "w \<noteq> p" using pn snoc by auto
    have "insert_sjf cf p s = Ok ?t"
      using fp snoc wp by (simp add: insert_sjf_def Let_def uv(1) [symmetric] next_nx del: find_place.simps)
    moreover have "lists_ok ?t (Q(G3 := us @ p # vs))"
    proof (rule lists_ok_change [OF l])
      have i: "linked ((nx s)(p := nx s w, w := Some p)) (q_head s G3) (ws @ w # p # vs)"
        by (rule linked_insert_after) (use lk snoc pn in auto)
      have nw: "nx s w = (case vs of [] \<Rightarrow> None | v # _ \<Rightarrow> Some v)"
        using lk snoc by (auto simp: chain_append split: list.split)
      show "queue_list (nx ?t) (q_head ?t G3) (q_tail ?t G3) (us @ p # vs)"
        using i tl snoc pn nw wp by (cases vs) (auto simp: queue_list_def)
      show "nx ?t r = nx s r" if "q' \<noteq> G3" "r \<in> set (Q q')" for q' r
        using oth [OF that(1)] that(2) snoc by auto
      show "set (us @ p # vs) \<inter> set (Q q') = {}" if "q' \<noteq> G3" for q' using oth [OF that] .
    qed auto
    ultimately show ?thesis using res by auto
  qed
qed

text \<open>The queue a process belongs to, and where \<open>ready\<close> puts it.\<close>

definition belongs :: "proc \<Rightarrow> queue" where
  "belongs p = (if istaskp p then TASK_Q else if isservp p then SERVER_Q
     else if in_group p then group_queue (sched_group p) else USER_Q)"

definition ready_list :: "kern \<Rightarrow> int \<Rightarrow> queue \<Rightarrow> int list \<Rightarrow> int list" where
  "ready_list s p q xs = (if q = USER_Q then p # xs else if q = G3 then sjf_insert s p xs else xs @ [p])"

text \<open>A process put at the head of a queue.\<close>

lemma push_lists:
  assumes l: "lists_ok s Q" and p: "\<And>q. p \<notin> set (Q q)"
  shows "lists_ok (set_head q (Some p) (set_nextready p (q_head s q) (if q_head s q = None then set_tail q (Some p) s else s)))
    (Q(q := p # Q q))" (is "lists_ok ?t _")
proof (rule lists_ok_change [OF l])
  have "p \<notin> set (Q q)" using p by blast
  then show "queue_list (nx ?t) (q_head ?t q) (q_tail ?t q) (p # Q q)"
    using lists_linked [OF l, of q] lists_tail [OF l, of q] queues_head [OF l, of q]
    by (auto simp: queue_list_def split: list.splits)
  show "nx ?t r = nx s r" if "q' \<noteq> q" "r \<in> set (Q q')" for q' r
    using p [of q'] that by auto
  show "set (p # Q q) \<inter> set (Q q') = {}" if "q' \<noteq> q" for q'
    using p [of q'] l that by (auto simp: lists_ok_def)
qed auto

lemma ready_lists:
  assumes l: "lists_ok s Q" and p: "\<And>q. p \<notin> set (Q q)" and len: "length (Q G3) \<le> slots cf"
    and b: "belongs (procs s p) = q"
  shows "\<exists>t. ready cf p s = Ok t \<and> lists_ok t (Q(q := ready_list s p q (Q q))) \<and> only_links s t
    \<and> proc_ptr t = (if q = TASK_Q \<and> Q q = [] then p else proc_ptr s)"
proof -
  note h = queues_head [OF l]
  consider (task) "istaskp (procs s p)" | (serv) "isservp (procs s p)"
    | (group) "\<not> istaskp (procs s p)" "\<not> isservp (procs s p)" "in_group (procs s p)"
    | (user) "\<not> istaskp (procs s p)" "\<not> isservp (procs s p)" "\<not> in_group (procs s p)"
    by blast
  then show ?thesis
  proof cases
    case task
    then have q: "q = TASK_Q" using b by (simp add: belongs_def)
    let ?u = "if q_head s TASK_Q = None then s\<lparr>proc_ptr := p\<rparr> else s"
    have l': "lists_ok ?u Q" using l by (auto simp: lists_ok_def)
    have sp: "only_links s ?u" by simp
    have he: "q_head s TASK_Q = None \<longleftrightarrow> Q TASK_Q = []" using h [of TASK_Q] by (simp split: list.split)
    from enqueue_lists [OF l' p, of TASK_Q] obtain t where t: "enqueue TASK_Q p ?u = Ok t"
      "lists_ok t (Q(TASK_Q := Q TASK_Q @ [p]))" "only_links ?u t" "proc_ptr t = proc_ptr ?u" by blast
    have "only_links s t" using t(3) by (simp add: only_links_def split: if_splits)
    with t task q he show ?thesis by (simp add: ready_def ready_list_def)
  next
    case serv
    then have q: "q = SERVER_Q" "\<not> istaskp (procs s p)" using b by (auto simp: belongs_def istaskp_def isservp_def)
    from enqueue_lists [OF l p, of SERVER_Q] serv q show ?thesis by (simp add: ready_def ready_list_def)
  next
    case group
    then have g: "sched_group (procs s p) = 1 \<or> sched_group (procs s p) = 2 \<or> sched_group (procs s p) = 3"
      by (auto simp: in_group_def)
    have q: "q = group_queue (sched_group (procs s p))" using b group by (simp add: belongs_def)
    from g show ?thesis
    proof (elim disjE)
      assume "sched_group (procs s p) = 1"
      with enqueue_lists [OF l p, of G1] group q show ?thesis
        by (simp add: ready_def ready_with_group_def ready_list_def group_queue_def)
    next
      assume "sched_group (procs s p) = 2"
      with enqueue_lists [OF l p, of G2] group q show ?thesis
        by (simp add: ready_def ready_with_group_def ready_list_def group_queue_def)
    next
      assume "sched_group (procs s p) = 3"
      with insert_sjf_lists [OF l p len] group q show ?thesis
        by (simp add: ready_def ready_with_group_def ready_list_def group_queue_def)
    qed
  next
    case user
    then have q: "q = USER_Q" using b by (simp add: belongs_def)
    let ?u = "if q_head s USER_Q = None then set_tail USER_Q (Some p) s else s"
    let ?t = "set_head USER_Q (Some p) (set_nextready p (q_head s USER_Q) ?u)"
    have "ready cf p s = Ok ?t" using user by (simp add: ready_def Let_def)
    moreover have "lists_ok ?t (Q(USER_Q := p # Q USER_Q))" by (rule push_lists [OF l p])
    ultimately show ?thesis using q by (auto simp: ready_list_def)
  qed
qed

section \<open>unready\<close>

lemma unready_from_group_lists:
  assumes l: "lists_ok s Q" and len: "length (Q q) \<le> slots cf"
  shows "\<exists>t. unready_from_group cf q p s = Ok t \<and> lists_ok t (Q(q := remove1 p (Q q))) \<and> only_links s t
    \<and> proc_ptr t = proc_ptr s"
proof (cases "Q q")
  case Nil
  then have "q_head s q = None" "Q(q := remove1 p (Q q)) = Q" using queues_head [OF l, of q] by auto
  then show ?thesis using l by (simp add: unready_from_group_def)
next
  case (Cons x xs)
  then have h: "q_head s q = Some x" using queues_head [OF l, of q] by simp
  show ?thesis
  proof (cases "x = p")
    case True
    let ?u = "set_head q (nx s p) s"
    let ?t = "if q_head ?u q = None then set_tail q None ?u else ?u"
    have u: "lists_ok ?u (Q(q := xs))" using drop_head_lists [OF l] Cons True by simp
    have "lists_ok ?t (Q(q := xs))"
    proof (cases "q_head ?u q = None")
      case None: True
      then have "xs = []" using queues_head [OF u, of q] by (simp split: list.splits)
      moreover have "lists_ok (set_tail q None ?u) (Q(q := []))"
        by (rule lists_ok_change [OF l]) (use None in \<open>auto simp: queue_list_def\<close>)
      ultimately show ?thesis using None by simp
    next
      case False
      with u show ?thesis by auto
    qed
    moreover have "unready_from_group cf q p s = Ok ?t"
      using h True by (simp add: unready_from_group_def Let_def next_nx)
    ultimately show ?thesis using Cons True by (intro exI [of _ ?t]) auto
  next
    case False
    from unlink_lists [OF l Cons False len] h False show ?thesis by (simp add: unready_from_group_def)
  qed
qed

text \<open>Choosing again when only links have changed.\<close>

lemma pick_after:
  assumes u: "lists_ok u R" "only_links s u" and len: "length (R G2) \<le> slots cf"
  shows "\<exists>t. pick_proc cf u = Ok t \<and> lists_ok t R \<and> same_procs s t \<and> choice s R (proc_ptr t)"
proof -
  from pick_proc_lists [OF u(1) len] obtain t where t: "pick_proc cf u = Ok t" "lists_ok t R"
    "same_procs u t" "choice u R (proc_ptr t)" by blast
  have "choice s R (proc_ptr t)"
    using t(4) unfolding choice_def only_links_wait [OF u(2)] .
  moreover have "same_procs s t" using only_links_same [OF u(2)] t(3) by (rule same_procs_trans)
  ultimately show ?thesis using t by blast
qed

text \<open>What leaving queue \<open>q\<close> means, and the code for it that the three classes share; a task at
  the head only leads to a new choice if it was running.\<close>

definition left :: "kern \<Rightarrow> (queue \<Rightarrow> int list) \<Rightarrow> queue \<Rightarrow> int \<Rightarrow> kern \<Rightarrow> bool" where
  "left s Q q p t \<longleftrightarrow> lists_ok t (Q(q := remove1 p (Q q))) \<and> same_procs s t
    \<and> (proc_ptr t = proc_ptr s \<or> choice s (Q(q := remove1 p (Q q))) (proc_ptr t))
    \<and> (p = proc_ptr s \<and> p \<in> set (Q q) \<and> (q \<in> {G1, G2, G3} \<or> p = hd (Q q))
        \<longrightarrow> choice s (Q(q := remove1 p (Q q))) (proc_ptr t))"

lemma leave_class:
  assumes l: "lists_ok s Q" and len: "\<And>q. length (Q q) \<le> slots cf" and q: "q \<notin> {G1, G2, G3}"
    and c: "p = proc_ptr s \<Longrightarrow> c"
  shows "\<exists>t. (case q_head s q of None \<Rightarrow> Ok s
      | Some xp \<Rightarrow> if xp = p then (if c then pick_proc cf (set_head q (nx s xp) s) else Ok (set_head q (nx s xp) s))
                  else unlink cf q p xp s) = Ok t \<and> left s Q q p t"
proof (cases "Q q")
  case Nil
  then show ?thesis using l queues_head [OF l, of q] by (auto simp: left_def fun_upd_idem)
next
  case (Cons x xs)
  have h: "q_head s q = Some x" using queues_head [OF l, of q] Cons by simp
  show ?thesis
  proof (cases "x = p")
    case True
    let ?u = "set_head q (nx s p) s"
    have u: "lists_ok ?u (Q(q := remove1 p (Q q)))" using drop_head_lists [OF l] Cons True by simp
    have "length ((Q(q := remove1 p (Q q))) G2) \<le> slots cf" using len [of G2] by (auto simp: length_remove1)
    from pick_after [OF u _ this, of s] u h True c q show ?thesis by (cases c) (auto simp: left_def simp del: fun_upd_apply)
  next
    case False
    from unlink_lists [OF l Cons this len] h False q Cons show ?thesis
      by (auto simp: left_def dest: only_links_same simp del: fun_upd_apply)
  qed
qed

lemma leave_group:
  assumes l: "lists_ok s Q" and len: "\<And>q. length (Q q) \<le> slots cf"
  shows "\<exists>t. bind_res (unready_from_group cf q p s) (\<lambda>s. if p = proc_ptr s then pick_proc cf s else Ok s) = Ok t
    \<and> left s Q q p t"
proof -
  from unready_from_group_lists [OF l len] obtain u where u: "unready_from_group cf q p s = Ok u"
    "lists_ok u (Q(q := remove1 p (Q q)))" "only_links s u" "proc_ptr u = proc_ptr s" by blast
  have "length ((Q(q := remove1 p (Q q))) G2) \<le> slots cf" using len [of G2] by (auto simp: length_remove1)
  from pick_after [OF u(2,3) this] u only_links_same [OF u(3)] show ?thesis
    by (cases "p = proc_ptr s") (auto simp: left_def simp del: fun_upd_apply)
qed

lemma unready_lists:
  assumes l: "lists_ok s Q" and len: "\<And>q. length (Q q) \<le> slots cf"
    and g: "istaskp (procs s p) \<Longrightarrow> p_stguard (procs s p) = STACK_GUARD"
    and b: "belongs (procs s p) = q"
  shows "\<exists>t. unready cf p s = Ok t \<and> lists_ok t (Q(q := remove1 p (Q q))) \<and> same_procs s t
    \<and> (proc_ptr t = proc_ptr s \<or> choice s (Q(q := remove1 p (Q q))) (proc_ptr t))
    \<and> (p = proc_ptr s \<and> p \<in> set (Q q) \<and> (q \<in> {G1, G2, G3} \<or> p = hd (Q q))
        \<longrightarrow> choice s (Q(q := remove1 p (Q q))) (proc_ptr t))"
proof -
  note leave = leave_class [OF l len, where p = p] leave_group [OF l len, where p = p]
  note always = leave(1) [where c = True, unfolded if_True]
  have "\<exists>t. unready cf p s = Ok t \<and> left s Q q p t"
  proof (cases "istaskp (procs s p)")
    case True
    then have "unready cf p s = (case q_head s TASK_Q of None \<Rightarrow> Ok s
      | Some xp \<Rightarrow> if xp = p then (if p = proc_ptr s then pick_proc cf (set_head TASK_Q (nx s xp) s)
                                else Ok (set_head TASK_Q (nx s xp) s)) else unlink cf TASK_Q p xp s)"
      using g by (cases "q_head s TASK_Q") (simp_all add: unready_def next_nx Let_def)
    with leave(1) [of TASK_Q "p = proc_ptr s"] b True show ?thesis by (simp add: belongs_def)
  next
    case False
    with always [of SERVER_Q] always [of USER_Q] leave(2) [of q] b show ?thesis
      unfolding unready_def belongs_def next_nx by (auto split: if_splits)
  qed
  then show ?thesis unfolding left_def .
qed

end
