(* ===== verification/Kernel_Sched_Inv.thy ===== *)
theory Kernel_Sched_Inv
  imports Kernel_Sched
begin

text \<open>
  The rotation at the end of a quantum and the clock tick on lists, and the invariant of the
  scheduler: every queued process is a runnable process of that class or group, queued once,
  and group 3 is in the order of the estimates.
\<close>

section \<open>sched\<close>

lemma sched_group1_lists:
  assumes l: "lists_ok s Q" and len: "length (Q G2) \<le> slots cf"
    and u: "isuserp (procs s c)" "sched_group (procs s c) = 1" "proc_ptr s = c" "Q G1 = c # xs"
  shows "\<exists>t. sched cf s = Ok t \<and> lists_ok t (Q(G1 := xs @ [c])) \<and> same_procs s t
    \<and> (if xs = [] then t = s else choice s (Q(G1 := xs @ [c])) (proc_ptr t))"
proof (cases xs)
  case Nil
  have h: "q_head s G1 = Some c" "nx s c = None" using lists_linked [OF l, of G1] u Nil by auto
  have "Q(G1 := [c]) = Q" using u Nil by auto
  with h u l Nil show ?thesis by (intro exI [of _ s]) (simp add: sched_def next_nx)
next
  case (Cons y ys)
  have h: "q_head s G1 = Some c" "nx s c = Some y" "linked (nx s) (Some y) (y # ys)"
    using lists_linked [OF l, of G1] u Cons by auto
  have d: "distinct (c # y # ys)" using queues_distinct [OF l, of G1] u Cons by simp
  have t: "q_tail s G1 = Some (last (y # ys))" using lists_tail [OF l, of G1] u Cons by simp
  let ?z = "last (y # ys)"
  have zc: "?z \<noteq> c" using d last_in_set [of "y # ys"] by auto
  let ?u = "set_head G1 (Some y) (upd c (\<lambda>p. p\<lparr>p_nextready := None, rr_counter := 0\<rparr>)
      (set_tail G1 (Some c) (set_nextready ?z (Some c) s)))"
  have e: "sched cf s = pick_proc cf ?u" using u h t zc by (simp add: sched_def Let_def next_nx)
  have nu: "nx ?u = (nx s)(?z := Some c, c := None)" using zc by (auto simp: nx_def fun_eq_iff)
  have "linked (nx ?u) (Some y) (butlast (y # ys) @ [?z, c])"
    unfolding nu by (rule linked_snoc) (use h(3) d in \<open>auto dest: in_set_butlastD\<close>)
  moreover have "butlast (y # ys) @ [?z, c] = (y # ys) @ [c]"
    by (metis append_assoc append_butlast_last_id append_Cons append_Nil list.distinct(1))
  ultimately have lk: "linked (nx ?u) (Some y) ((y # ys) @ [c])" by metis
  have lo: "lists_ok ?u (Q(G1 := xs @ [c]))"
  proof (rule lists_ok_change [OF l])
    show "queue_list (nx ?u) (q_head ?u G1) (q_tail ?u G1) (xs @ [c])"
      using lk Cons by (simp add: queue_list_def)
    show "nx ?u r = nx s r" if "q' \<noteq> G1" "r \<in> set (Q q')" for q' r
    proof -
      have "set (Q G1) \<inter> set (Q q') = {}" using l that(1) by (auto simp: lists_ok_def)
      then have "r \<noteq> c" "r \<noteq> ?z" using that(2) u(4) Cons last_in_set [of "y # ys"] by auto
      then show ?thesis unfolding nu by (simp only: fun_upd_other not_False_eq_True)
    qed
    show "set (xs @ [c]) \<inter> set (Q q') = {}" if "q' \<noteq> G1" for q'
    proof -
      have "set (Q G1) \<inter> set (Q q') = {}" using l that(1) by (auto simp: lists_ok_def)
      then show ?thesis using u(4) by auto
    qed
  qed auto
  have "length ((Q(G1 := xs @ [c])) G2) \<le> slots cf" using len by simp
  from pick_proc_lists [OF lo this] obtain t where t: "pick_proc cf ?u = Ok t"
    "lists_ok t (Q(G1 := xs @ [c]))" "same_procs ?u t" "choice ?u (Q(G1 := xs @ [c])) (proc_ptr t)" by blast
  have w: "wait_ticks (procs ?u r) = wait_ticks (procs s r)" for r by simp
  have "choice s (Q(G1 := xs @ [c])) (proc_ptr t)" using t(4) unfolding choice_def w .
  moreover have "same_procs s ?u" by (simp add: same_procs_def)
  then have "same_procs s t" using t(3) by (rule same_procs_trans)
  ultimately show ?thesis using e t Cons by auto
qed

lemma sched_user_lists:
  assumes l: "lists_ok s Q" and len: "length (Q G2) \<le> slots cf"
    and u: "\<not> (isuserp (procs s (proc_ptr s)) \<and> sched_group (procs s (proc_ptr s)) = 1)"
  shows "\<exists>t. sched cf s = Ok t \<and> lists_ok t (Q(USER_Q := rotate1 (Q USER_Q))) \<and> same_procs s t
    \<and> (if Q USER_Q = [] then t = s else choice s (Q(USER_Q := rotate1 (Q USER_Q))) (proc_ptr t))"
proof (cases "Q USER_Q")
  case Nil
  then have "q_head s USER_Q = None" "Q(USER_Q := []) = Q" using queues_head [OF l, of USER_Q] by auto
  with u l Nil show ?thesis by (intro exI [of _ s]) (auto simp: sched_def)
next
  case (Cons h xs)
  let ?z = "last (h # xs)" and ?R = "Q(USER_Q := xs @ [h])"
  have hd: "q_head s USER_Q = Some h" "linked (nx s) (nx s h) xs"
    using lists_linked [OF l, of USER_Q] Cons by auto
  have t: "q_tail s USER_Q = Some ?z" using lists_tail [OF l, of USER_Q] Cons by simp
  have d: "distinct (h # xs)" using queues_distinct [OF l, of USER_Q] Cons by simp
  let ?v = "set_tail USER_Q (Some h) (set_nextready ?z (Some h) s)"
  let ?u = "set_nextready h None (set_head USER_Q (nx ?v h) ?v)"
  have e: "sched cf s = pick_proc cf ?u" using u hd t by (auto simp: sched_def Let_def next_nx)
  have lk: "linked (nx ?u) (q_head ?u USER_Q) (xs @ [h])"
  proof (cases xs rule: rev_cases)
    case Nil
    then show ?thesis by simp
  next
    case (snoc ys y)
    have "h \<noteq> y" using d snoc by auto
    moreover have "linked ((nx s)(y := Some h, h := None)) (nx s h) (ys @ [y, h])"
      by (rule linked_snoc) (use hd(2) d snoc in auto)
    ultimately show ?thesis using snoc by (simp del: fun_upd_apply) (simp add: fun_upd_other)
  qed
  have lo: "lists_ok ?u ?R"
  proof (rule lists_ok_change [OF l])
    show "queue_list (nx ?u) (q_head ?u USER_Q) (q_tail ?u USER_Q) (xs @ [h])"
      using lk unfolding queue_list_def by simp
    show "nx ?u r = nx s r" if "q' \<noteq> USER_Q" "r \<in> set (Q q')" for q' r
    proof -
      have "set (Q USER_Q) \<inter> set (Q q') = {}" using l that(1) unfolding lists_ok_def by metis
      then have "r \<noteq> h" "r \<noteq> ?z" using that(2) Cons last_in_set [of "h # xs"] by auto
      then show ?thesis by simp
    qed
    show "set (xs @ [h]) \<inter> set (Q q') = {}" if "q' \<noteq> USER_Q" for q'
    proof -
      have "set (Q USER_Q) \<inter> set (Q q') = {}" using l that(1) unfolding lists_ok_def by metis
      then show ?thesis using Cons by auto
    qed
  qed auto
  have "length (?R G2) \<le> slots cf" using len by simp
  from pick_proc_lists [OF lo this] obtain t where t: "pick_proc cf ?u = Ok t"
    "lists_ok t ?R" "same_procs ?u t" "choice ?u ?R (proc_ptr t)" by blast
  have o: "only_links s ?u" by simp
  have "choice s ?R (proc_ptr t)" using t(4) unfolding choice_def only_links_wait [OF o] .
  moreover have "same_procs s t" using only_links_same [OF o] t(3) by (rule same_procs_trans)
  ultimately show ?thesis using e t Cons by auto
qed

section \<open>The invariant\<close>

definition sched_ok :: "config \<Rightarrow> kern \<Rightarrow> (queue \<Rightarrow> int list) \<Rightarrow> bool" where
  "sched_ok cf s Q \<longleftrightarrow> lists_ok s Q \<and> (\<forall>q. set (Q q) \<subseteq> set (all_procs cf))
     \<and> (\<forall>q. \<forall>p \<in> set (Q q). belongs (procs s p) = q \<and> p_flags (procs s p) = {})
     \<and> sorted (map (\<lambda>p. cpu_estimate (procs s p)) (Q G3))"

lemma sched_ok_length:
  assumes "sched_ok cf s Q" shows "length (Q q) \<le> slots cf"
proof -
  have d: "distinct (Q q)" using assms queues_distinct by (auto simp: sched_ok_def)
  have "set (Q q) \<subseteq> set (all_procs cf)" using assms by (simp add: sched_ok_def)
  then have "card (set (Q q)) \<le> card (set (all_procs cf))" by (intro card_mono) auto
  also have "\<dots> \<le> length (all_procs cf)" by (rule card_length)
  finally show ?thesis using distinct_card [OF d] by (simp add: all_procs_def)
qed

lemma belongs_same: "same_procs s t \<Longrightarrow> belongs (procs t p) = belongs (procs s p)"
  by (simp add: same_procs_def belongs_def in_group_def istaskp_def isservp_def isuserp_def)

lemma sched_ok_step:
  assumes ok: "sched_ok cf s Q" and l: "lists_ok t R" and sp: "same_procs s t"
    and sub: "\<And>q p. p \<in> set (R q) \<Longrightarrow> p \<in> set (Q q) \<or>
      p \<in> set (all_procs cf) \<and> belongs (procs s p) = q \<and> p_flags (procs s p) = {}"
    and so: "sorted (map (\<lambda>p. cpu_estimate (procs s p)) (R G3))"
  shows "sched_ok cf t R"
proof -
  have "sorted (map (\<lambda>p. cpu_estimate (procs t p)) (R G3))"
    using sp so by (simp add: same_procs_def)
  moreover have "belongs (procs t p) = q \<and> p_flags (procs t p) = {} \<and> p \<in> set (all_procs cf)"
    if "p \<in> set (R q)" for p q
    using sub [OF that] ok sp belongs_same [OF sp] by (auto simp: sched_ok_def same_procs_def)
  ultimately show ?thesis using l by (auto simp: sched_ok_def)
qed

lemma sjf_insert_set: "set (sjf_insert s p xs) = insert p (set xs)"
proof -
  have "set xs = set (takeWhile P xs) \<union> set (dropWhile P xs)" for P
    by (metis set_append takeWhile_dropWhile_id)
  then show ?thesis by (auto simp: sjf_insert_def)
qed

lemma sjf_insert_sorted:
  assumes "sorted (map (\<lambda>r. cpu_estimate (procs s r)) xs)"
  shows "sorted (map (\<lambda>r. cpu_estimate (procs s r)) (sjf_insert s p xs))"
proof -
  let ?f = "\<lambda>r. cpu_estimate (procs s r)"
  let ?P = "\<lambda>r. ?f r < ?f p"
  have e: "xs = takeWhile ?P xs @ dropWhile ?P xs" by simp
  then have so: "sorted (map ?f (takeWhile ?P xs) @ map ?f (dropWhile ?P xs))" using assms by (metis map_append)
  have a: "\<forall>r \<in> set (takeWhile ?P xs). ?f r < ?f p" by (auto dest: set_takeWhileD)
  have b: "\<forall>r \<in> set (dropWhile ?P xs). ?f p \<le> ?f r"
  proof (cases "dropWhile ?P xs")
    case (Cons y ys)
    then have "?f p \<le> ?f y" using hd_dropWhile [of ?P xs] by simp
    moreover have "sorted (map ?f (y # ys))" using so Cons by (simp add: sorted_append)
    ultimately show ?thesis using Cons by fastforce
  next
    case Nil
    then show ?thesis by (simp only: list.set ball_empty)
  qed
  from so a b show ?thesis by (fastforce simp: sjf_insert_def sorted_append)
qed

lemma ready_ok:
  assumes ok: "sched_ok cf s Q" and p: "p \<in> set (all_procs cf)" "\<And>q. p \<notin> set (Q q)" "p_flags (procs s p) = {}"
    and b: "belongs (procs s p) = q"
  shows "\<exists>t. ready cf p s = Ok t \<and> sched_ok cf t (Q(q := ready_list s p q (Q q))) \<and> only_links s t
    \<and> proc_ptr t = (if q = TASK_Q \<and> Q q = [] then p else proc_ptr s)"
proof -
  have l: "lists_ok s Q" using ok by (simp add: sched_ok_def)
  from ready_lists [OF l p(2) sched_ok_length [OF ok] b] obtain t where t: "ready cf p s = Ok t"
    "lists_ok t (Q(q := ready_list s p q (Q q)))" "only_links s t"
    "proc_ptr t = (if q = TASK_Q \<and> Q q = [] then p else proc_ptr s)" by blast
  have "sched_ok cf t (Q(q := ready_list s p q (Q q)))"
  proof (rule sched_ok_step [OF ok t(2) only_links_same [OF t(3)]])
    show "r \<in> set (Q q') \<or> r \<in> set (all_procs cf) \<and> belongs (procs s r) = q' \<and> p_flags (procs s r) = {}"
      if "r \<in> set ((Q(q := ready_list s p q (Q q))) q')" for r q'
      using that p b by (auto simp: ready_list_def sjf_insert_set split: if_splits)
    have "sorted (map (\<lambda>p. cpu_estimate (procs s p)) (Q G3))" using ok by (simp add: sched_ok_def)
    then show "sorted (map (\<lambda>p. cpu_estimate (procs s p)) ((Q(q := ready_list s p q (Q q))) G3))"
      using sjf_insert_sorted by (simp add: ready_list_def)
  qed
  with t show ?thesis by blast
qed

lemma sorted_remove1_map: "sorted (map f xs) \<Longrightarrow> sorted (map f (remove1 p xs))"
proof (induction xs)
  case (Cons x xs)
  have "set (remove1 p xs) \<subseteq> set xs" by (rule set_remove1_subset)
  with Cons show ?case by auto
qed simp

lemma unready_ok:
  assumes ok: "sched_ok cf s Q" and g: "istaskp (procs s p) \<Longrightarrow> p_stguard (procs s p) = STACK_GUARD"
    and b: "belongs (procs s p) = q"
  shows "\<exists>t. unready cf p s = Ok t \<and> sched_ok cf t (Q(q := remove1 p (Q q))) \<and> same_procs s t
    \<and> (proc_ptr t = proc_ptr s \<or> choice s (Q(q := remove1 p (Q q))) (proc_ptr t))
    \<and> (p = proc_ptr s \<and> p \<in> set (Q q) \<and> (q \<in> {G1, G2, G3} \<or> p = hd (Q q))
        \<longrightarrow> choice s (Q(q := remove1 p (Q q))) (proc_ptr t))"
proof -
  have l: "lists_ok s Q" using ok by (simp add: sched_ok_def)
  from unready_lists [OF l sched_ok_length [OF ok] g b] obtain t where t: "unready cf p s = Ok t"
    "lists_ok t (Q(q := remove1 p (Q q)))" "same_procs s t"
    "proc_ptr t = proc_ptr s \<or> choice s (Q(q := remove1 p (Q q))) (proc_ptr t)"
    "p = proc_ptr s \<and> p \<in> set (Q q) \<and> (q \<in> {G1, G2, G3} \<or> p = hd (Q q))
        \<longrightarrow> choice s (Q(q := remove1 p (Q q))) (proc_ptr t)" by blast
  have "sched_ok cf t (Q(q := remove1 p (Q q)))"
  proof (rule sched_ok_step [OF ok t(2,3)])
    show "r \<in> set (Q q') \<or> r \<in> set (all_procs cf) \<and> belongs (procs s r) = q' \<and> p_flags (procs s r) = {}"
      if "r \<in> set ((Q(q := remove1 p (Q q))) q')" for r q'
      using that by (auto split: if_splits dest: notin_set_remove1 [THEN contrapos_nn] set_mp [OF set_remove1_subset])
    have "sorted (map (\<lambda>p. cpu_estimate (procs s p)) (Q G3))" using ok by (simp add: sched_ok_def)
    then show "sorted (map (\<lambda>p. cpu_estimate (procs s p)) ((Q(q := remove1 p (Q q))) G3))"
      using sorted_remove1_map [of "\<lambda>p. cpu_estimate (procs s p)" "Q G3" p] by simp
  qed
  with t show ?thesis by blast
qed

end
