(* ===== verification/Kernel_Tick.thy ===== *)
theory Kernel_Tick
  imports Kernel_Sched_Inv
begin

text \<open>
  Rotation, aging and the clock tick under the invariant of the scheduler.
\<close>

section \<open>Changes the invariant does not see\<close>

lemma sched_ok_frame:
  assumes "nx t = nx s" "q_head t = q_head s" "q_tail t = q_tail s" "same_procs s t"
  shows "sched_ok cf t Q \<longleftrightarrow> sched_ok cf s Q"
proof -
  have "lists_ok t Q = lists_ok s Q" using assms by (simp add: lists_ok_def)
  moreover have "map (\<lambda>p. cpu_estimate (procs t p)) (Q G3) = map (\<lambda>p. cpu_estimate (procs s p)) (Q G3)"
    using assms(4) by (simp add: same_procs_def)
  ultimately show ?thesis using belongs_same [OF assms(4)] assms(4)
    unfolding sched_ok_def by (simp only: same_procs_def)
qed

lemma sched_ok_switching [simp]: "sched_ok cf (s\<lparr>switching := b\<rparr>) Q = sched_ok cf s Q"
  by (rule sched_ok_frame) (simp_all add: fun_eq_iff nx_def)

lemma sched_ok_aging_counter [simp]: "sched_ok cf (s\<lparr>aging_counter := b\<rparr>) Q = sched_ok cf s Q"
  by (rule sched_ok_frame) (simp_all add: fun_eq_iff nx_def same_procs_def)

lemma sched_ok_rr [simp]: "sched_ok cf (upd p (\<lambda>r. r\<lparr>rr_counter := f r\<rparr>) s) Q = sched_ok cf s Q"
  by (rule sched_ok_frame) (auto simp: fun_eq_iff nx_def same_procs_def)

section \<open>sched\<close>

definition is_g1 :: "proc \<Rightarrow> bool" where
  "is_g1 p \<longleftrightarrow> isuserp p \<and> sched_group p = 1"

definition rotated :: "kern \<Rightarrow> (queue \<Rightarrow> int list) \<Rightarrow> queue \<Rightarrow> int list" where
  "rotated s Q = (let q = if is_g1 (procs s (proc_ptr s)) then G1 else USER_Q in Q(q := rotate1 (Q q)))"

lemma sched_ok_sched:
  assumes ok: "sched_ok cf s Q" and r: "is_g1 (procs s (proc_ptr s)) \<Longrightarrow> Q G1 \<noteq> [] \<and> hd (Q G1) = proc_ptr s"
  shows "\<exists>t. sched cf s = Ok t \<and> sched_ok cf t (rotated s Q) \<and> same_procs s t
    \<and> (t = s \<or> choice s (rotated s Q) (proc_ptr t))"
proof -
  have l: "lists_ok s Q" using ok by (simp add: sched_ok_def)
  note len = sched_ok_length [OF ok, of G2]
  have so: "sorted (map (\<lambda>p. cpu_estimate (procs s p)) (Q G3))" using ok by (simp add: sched_ok_def)
  have sub: "p \<in> set (rotated s Q q) \<Longrightarrow> p \<in> set (Q q)" for p q
    by (auto simp: rotated_def Let_def split: if_splits)
  have "\<exists>t. sched cf s = Ok t \<and> lists_ok t (rotated s Q) \<and> same_procs s t \<and> (t = s \<or> choice s (rotated s Q) (proc_ptr t))"
  proof (cases "is_g1 (procs s (proc_ptr s))")
    case True
    then obtain xs where xs: "Q G1 = proc_ptr s # xs" using r by (cases "Q G1") auto
    from sched_group1_lists [OF l len _ _ refl xs] True xs show ?thesis
      by (auto simp: rotated_def is_g1_def split: if_splits)
  next
    case False
    then have nr: "rotated s Q = Q(USER_Q := rotate1 (Q USER_Q))" by (simp add: rotated_def)
    have "\<not> (isuserp (procs s (proc_ptr s)) \<and> sched_group (procs s (proc_ptr s)) = 1)"
      using False by (simp add: is_g1_def)
    from sched_user_lists [OF l len this] show ?thesis unfolding nr by (auto split: if_splits)
  qed
  then obtain t where t: "sched cf s = Ok t" "lists_ok t (rotated s Q)" "same_procs s t"
    "t = s \<or> choice s (rotated s Q) (proc_ptr t)" by blast
  have "sched_ok cf t (rotated s Q)"
    using ok t(2,3) by (rule sched_ok_step) (use sub so in \<open>auto simp: rotated_def Let_def\<close>)
  with t show ?thesis by blast
qed

section \<open>Aging\<close>

definition aged :: "proc \<Rightarrow> proc" where
  "aged p = p\<lparr>wait_ticks :=
     (if MAX_WAIT_TICKS < int32 (wait_ticks p + 1) then MAX_WAIT_TICKS else int32 (wait_ticks p + 1))\<rparr>"

definition age_set :: "int set \<Rightarrow> kern \<Rightarrow> kern" where
  "age_set A s = s\<lparr>procs := (\<lambda>p. if p \<in> A then aged (procs s p) else procs s p)\<rparr>"

lemma age_set_sel [simp]:
  "nx (age_set A s) = nx s" "proc_ptr (age_set A s) = proc_ptr s" "q_head (age_set A s) = q_head s"
  "q_tail (age_set A s) = q_tail s" "same_procs s (age_set A s)"
  by (auto simp: age_set_def nx_def fun_eq_iff aged_def same_procs_def)

lemma age_is_set: "age p s = age_set {p} s"
  unfolding age_def age_set_def upd_def
  by (rule arg_cong [where f = "\<lambda>x. s\<lparr>procs := x\<rparr>"]) (auto simp: fun_eq_iff aged_def)

lemma age_set_un: "A \<inter> B = {} \<Longrightarrow> age_set B (age_set A s) = age_set (A \<union> B) s"
  unfolding age_set_def
  by simp (rule arg_cong [where f = "\<lambda>x. s\<lparr>procs := x\<rparr>"], auto simp: fun_eq_iff)

lemma age_set_empty [simp]: "age_set {} s = s"
  by (simp add: age_set_def)

lemma age_queue_set:
  "linked (nx s) cur xs \<Longrightarrow> distinct xs \<Longrightarrow> length xs < n \<Longrightarrow>
   age_queue n cur s = Ok (age_set (set xs - {proc_ptr s}) s)"
proof (induction xs arbitrary: cur s n)
  case Nil
  then show ?case by (cases n) auto
next
  case (Cons x xs)
  then obtain m where n: "n = Suc m" "length xs < m" by (cases n) auto
  let ?A = "if x \<noteq> proc_ptr s then {x} else {}"
  let ?s = "if x \<noteq> proc_ptr s then age x s else s"
  have e: "?s = age_set ?A s" by (simp add: age_is_set)
  have c: "cur = Some x" "linked (nx ?s) (nx ?s x) xs" using Cons.prems(1) by (auto simp: e)
  have "age_queue n cur s = age_queue m (nx ?s x) ?s" using n c(1) by (simp add: Let_def next_nx)
  also have "\<dots> = Ok (age_set (set xs - {proc_ptr ?s}) ?s)"
    using Cons.prems(2) n(2) by (intro Cons.IH [OF c(2)]) auto
  also have "age_set (set xs - {proc_ptr ?s}) ?s = age_set (?A \<union> (set xs - {proc_ptr s})) s"
    using Cons.prems(2) unfolding e by (subst age_set_un) auto
  also have "?A \<union> (set xs - {proc_ptr s}) = set (x # xs) - {proc_ptr s}" by auto
  finally show ?case .
qed

definition blocked_g2 :: "proc \<Rightarrow> bool" where
  "blocked_g2 p \<longleftrightarrow> isuserp p \<and> sched_group p = 2 \<and> p_flags p \<inter> {SENDING, RECEIVING} \<noteq> {}"

lemma blocked_aged [simp]: "blocked_g2 (aged p) = blocked_g2 p"
  by (simp add: blocked_g2_def aged_def isuserp_def)

lemma fold_age:
  "distinct ps \<Longrightarrow> fold (\<lambda>rp s. if blocked_g2 (procs s rp) then age rp s else s) ps s
     = age_set {p \<in> set ps. blocked_g2 (procs s p)} s"
proof (induction ps arbitrary: s)
  case Nil
  then show ?case by simp
next
  case (Cons x ps)
  let ?s = "if blocked_g2 (procs s x) then age x s else s"
  have b: "blocked_g2 (procs ?s p) = blocked_g2 (procs s p)" for p
    by (auto simp: age_is_set age_set_def)
  have "fold (\<lambda>rp s. if blocked_g2 (procs s rp) then age rp s else s) (x # ps) s
      = age_set {p \<in> set ps. blocked_g2 (procs s p)} ?s"
    using Cons.IH [of ?s] Cons.prems by (simp only: b distinct.simps fold_simps simp_thms)
  also have "\<dots> = age_set {p \<in> set (x # ps). blocked_g2 (procs s p)} s"
  proof (cases "blocked_g2 (procs s x)")
    case True
    have "age_set {p \<in> set ps. blocked_g2 (procs s p)} (age_set {x} s)
        = age_set ({x} \<union> {p \<in> set ps. blocked_g2 (procs s p)}) s"
      using Cons.prems by (intro age_set_un) auto
    moreover have "{x} \<union> {p \<in> set ps. blocked_g2 (procs s p)} = {p \<in> set (x # ps). blocked_g2 (procs s p)}"
      using True by auto
    ultimately show ?thesis using True by (simp only: age_is_set if_True)
  next
    case False
    then have "{p \<in> set (x # ps). blocked_g2 (procs s p)} = {p \<in> set ps. blocked_g2 (procs s p)}" by auto
    with False show ?thesis by (simp only: if_False)
  qed
  finally show ?case .
qed

lemma all_procs_distinct: "distinct (all_procs cf)"
  by (simp add: all_procs_def distinct_map inj_on_def)

lemma age_blocked_set:
  "age_blocked cf s = age_set {p \<in> set (all_procs cf). blocked_g2 (procs s p)} s"
  using fold_age [OF all_procs_distinct] by (simp add: age_blocked_def blocked_g2_def)

text \<open>The processes that age: those queued in group 2 but not running, and those of group 2
  that are blocked on a message.\<close>

definition ageing :: "config \<Rightarrow> kern \<Rightarrow> (queue \<Rightarrow> int list) \<Rightarrow> int set" where
  "ageing cf s Q = (set (Q G2) - {proc_ptr s}) \<union> {p \<in> set (all_procs cf). blocked_g2 (procs s p)}"

lemma update_aging_set:
  assumes ok: "sched_ok cf s Q"
  shows "update_aging_for_group2 cf s = Ok (age_set (ageing cf s Q) s)"
proof -
  have l: "lists_ok s Q" using ok by (simp add: sched_ok_def)
  have len: "length (Q G2) < Suc (slots cf)" using sched_ok_length [OF ok, of G2] by simp
  have a: "age_queue (Suc (slots cf)) (q_head s G2) s = Ok (age_set (set (Q G2) - {proc_ptr s}) s)"
    by (rule age_queue_set [OF lists_linked [OF l] queues_distinct [OF l] len])
  let ?s = "age_set (set (Q G2) - {proc_ptr s}) s"
  have b: "blocked_g2 (procs ?s p) = blocked_g2 (procs s p)" for p by (simp add: age_set_def)
  have d: "(set (Q G2) - {proc_ptr s}) \<inter> {p \<in> set (all_procs cf). blocked_g2 (procs s p)} = {}"
    using ok by (auto simp: sched_ok_def blocked_g2_def)
  show ?thesis
    using a age_set_un [OF d] by (simp add: update_aging_for_group2_def age_blocked_set b ageing_def del: age_queue.simps)
qed

lemma sched_ok_age [simp]: "sched_ok cf (age_set A s) Q = sched_ok cf s Q"
  by (rule sched_ok_frame) simp_all

text \<open>The waiting times stay in their range.\<close>

definition waits_ok :: "kern \<Rightarrow> bool" where
  "waits_ok s \<longleftrightarrow> (\<forall>p. 0 \<le> wait_ticks (procs s p) \<and> wait_ticks (procs s p) \<le> MAX_WAIT_TICKS)"

lemma aged_wait:
  assumes "0 \<le> wait_ticks p" "wait_ticks p \<le> MAX_WAIT_TICKS"
  shows "wait_ticks (aged p) = min (wait_ticks p + 1) MAX_WAIT_TICKS"
proof -
  have "int32 (wait_ticks p + 1) = wait_ticks p + 1"
    using assms by (intro int32_id in_int32I) (auto simp: MAX_WAIT_TICKS_def)
  then show ?thesis by (simp add: aged_def)
qed

lemma waits_ok_age: "waits_ok s \<Longrightarrow> waits_ok (age_set A s)"
  by (auto simp: waits_ok_def age_set_def aged_wait)

lemma counter_sel [simp]:
  "aging_counter (set_head q v s) = aging_counter s" "aging_counter (set_tail q v s) = aging_counter s"
  "aging_counter (set_nextready p w s) = aging_counter s" "aging_counter (upd p f s) = aging_counter s"
  "aging_counter (age_set A s) = aging_counter s"
  by (simp_all add: set_head_def set_tail_def set_nextready_def upd_def age_set_def)

lemma waits_ok_sel [simp]:
  "waits_ok (set_head q v s) = waits_ok s" "waits_ok (set_tail q v s) = waits_ok s"
  "waits_ok (s\<lparr>proc_ptr := p\<rparr>) = waits_ok s" "waits_ok (s\<lparr>proc_ptr := p, bill_ptr := r\<rparr>) = waits_ok s"
  "waits_ok (s\<lparr>switching := b\<rparr>) = waits_ok s" "waits_ok (s\<lparr>aging_counter := c\<rparr>) = waits_ok s"
  by (simp_all add: waits_ok_def)

lemma waits_ok_upd: "waits_ok s \<Longrightarrow> (\<And>r. wait_ticks (f r) = wait_ticks r \<or> wait_ticks (f r) = 0) \<Longrightarrow> waits_ok (upd p f s)"
  by (auto simp: waits_ok_def) (metis MAX_WAIT_TICKS_def order_refl zero_le_numeral)+

lemma waits_ok_upd_same [simp]:
  "(\<And>r. wait_ticks (f r) = wait_ticks r) \<Longrightarrow> waits_ok (upd p f s) = waits_ok s"
  by (auto simp: waits_ok_def split: if_splits)

section \<open>The clock tick\<close>

text \<open>The two halves of \<open>handle_clock_tick\<close>.\<close>

definition quantum_part :: "config \<Rightarrow> kern \<Rightarrow> kern res" where
  "quantum_part cf s =
     (let rp = proc_ptr s
      in if isuserp (procs s rp) \<and> sched_group (procs s rp) = 1
         then (let s = upd rp (\<lambda>p. p\<lparr>rr_counter := int32 (rr_counter p + 1)\<rparr>) s
               in if RR_QUANTUM \<le> rr_counter (procs s rp) then lock_sched cf (upd rp (\<lambda>p. p\<lparr>rr_counter := 0\<rparr>) s) else Ok s)
         else Ok s)"

definition aging_part :: "config \<Rightarrow> kern \<Rightarrow> kern res" where
  "aging_part cf s =
     (let s = s\<lparr>aging_counter := int32 (aging_counter s + 1)\<rparr>
      in if AGING_TICK \<le> aging_counter s
         then bind_res (update_aging_for_group2 cf s) (\<lambda>s. Ok (s\<lparr>aging_counter := 0\<rparr>)) else Ok s)"

lemma handle_clock_tick_parts: "handle_clock_tick cf s = bind_res (quantum_part cf s) (aging_part cf)"
  unfolding handle_clock_tick_def quantum_part_def aging_part_def Let_def ..

lemma pick_proc_keeps:
  "pick_proc cf s = Ok t \<Longrightarrow> aging_counter t = aging_counter s
     \<and> (q_head s G1 \<noteq> None \<longrightarrow> wait_ticks (procs t p) = wait_ticks (procs s p))"
  by (auto simp: pick_proc_def bind_res_Ok_iff split: option.splits)

text \<open>A rotation of group 1 does not touch group 2: its waiting times stay, and the process that
  runs next is not one of it.\<close>

lemma sched_g1_waits:
  assumes "sched cf s = Ok t" and "is_g1 (procs s (proc_ptr s))"
  shows "wait_ticks (procs t p) = wait_ticks (procs s p) \<and> aging_counter t = aging_counter s"
  using assms
  by (auto simp: sched_def is_g1_def bind_res_Ok_iff Let_def split: option.splits if_splits
      dest!: pick_proc_keeps [where p = p])

lemma ageing_same:
  assumes "same_procs s t" "R G2 = Q G2" "proc_ptr s \<notin> set (Q G2)" "proc_ptr t \<notin> set (Q G2)"
  shows "ageing cf t R = ageing cf s Q"
  using assms by (auto simp: ageing_def blocked_g2_def same_procs_def isuserp_def)

lemma lock_sched_g1_ok:
  assumes ok: "sched_ok cf s Q" and g: "is_g1 (procs s (proc_ptr s))" and h: "Q G1 \<noteq> []" "hd (Q G1) = proc_ptr s"
  shows "\<exists>t. lock_sched cf s = Ok t \<and> sched_ok cf t (Q(G1 := rotate1 (Q G1))) \<and> aging_counter t = aging_counter s
    \<and> (\<forall>p. wait_ticks (procs t p) = wait_ticks (procs s p)) \<and> ageing cf t (Q(G1 := rotate1 (Q G1))) = ageing cf s Q"
proof -
  let ?s = "s\<lparr>switching := True\<rparr>" and ?R = "Q(G1 := rotate1 (Q G1))"
  have r: "rotated ?s Q = ?R" using g by (simp add: rotated_def)
  have g': "is_g1 (procs ?s (proc_ptr ?s))" using g by simp
  from sched_ok_sched [of cf ?s Q, unfolded r] ok h obtain t where t: "sched cf ?s = Ok t" "sched_ok cf t ?R"
    "same_procs ?s t" "t = ?s \<or> choice ?s ?R (proc_ptr t)" by auto
  have lt: "lists_ok t ?R" and ls: "lists_ok s Q" using t(2) ok by (simp_all only: sched_ok_def)
  have "proc_ptr s \<in> set (Q G1)" using h hd_in_set [of "Q G1"] by simp
  moreover have "set (Q G1) \<inter> set (Q G2) = {}" using ls unfolding lists_ok_def by (metis queue.distinct(25))
  ultimately have s2: "proc_ptr s \<notin> set (Q G2)" by blast
  have t2: "proc_ptr t \<notin> set (Q G2)"
  proof (cases "t = ?s")
    case True
    with s2 show ?thesis by simp
  next
    case False
    then have "choice ?s ?R (proc_ptr t)" using t(4) by blast
    moreover have "?R G1 \<noteq> []" using h(1) by simp
    ultimately obtain q where q: "proc_ptr t \<in> set (?R q)" "q \<le> G1" unfolding choice_def by blast
    then have "q \<noteq> G2" by (auto simp: less_eq_queue_def)
    then have "set (?R q) \<inter> set (?R G2) = {}" using lt unfolding lists_ok_def by blast
    with q(1) show ?thesis by auto
  qed
  have "same_procs s (t\<lparr>switching := False\<rparr>)" using t(3) by (simp add: same_procs_def)
  then have "ageing cf (t\<lparr>switching := False\<rparr>) ?R = ageing cf s Q" by (rule ageing_same) (use s2 t2 in simp_all)
  moreover have "lock_sched cf s = Ok (t\<lparr>switching := False\<rparr>)" using t(1) by (simp add: lock_sched_def gateway_def)
  ultimately show ?thesis using t(2) sched_g1_waits [OF t(1) g'] by simp
qed

text \<open>The first half: after the third tick of its quantum the running process of group 1 goes to
  the end of group 1.\<close>

definition rotates :: "kern \<Rightarrow> bool" where
  "rotates s \<longleftrightarrow> is_g1 (procs s (proc_ptr s)) \<and> rr_counter (procs s (proc_ptr s)) = RR_QUANTUM - 1"

lemma quantum_part_ok:
  assumes ok: "sched_ok cf s Q" and h: "is_g1 (procs s (proc_ptr s)) \<Longrightarrow> Q G1 \<noteq> [] \<and> hd (Q G1) = proc_ptr s"
    and c: "0 \<le> rr_counter (procs s (proc_ptr s))" "rr_counter (procs s (proc_ptr s)) < RR_QUANTUM"
    and R: "R = (if rotates s then Q(G1 := rotate1 (Q G1)) else Q)"
  shows "\<exists>u. quantum_part cf s = Ok u \<and> sched_ok cf u R \<and> aging_counter u = aging_counter s
    \<and> (\<forall>p. wait_ticks (procs u p) = wait_ticks (procs s p)) \<and> ageing cf u R = ageing cf s Q"
proof (cases "is_g1 (procs s (proc_ptr s))")
  case False
  with ok R show ?thesis by (auto simp: quantum_part_def is_g1_def rotates_def Let_def)
next
  case g: True
  let ?c = "proc_ptr s"
  let ?u = "upd ?c (\<lambda>p. p\<lparr>rr_counter := int32 (rr_counter p + 1)\<rparr>) s"
  let ?v = "upd ?c (\<lambda>p. p\<lparr>rr_counter := 0\<rparr>) ?u"
  have n: "int32 (rr_counter (procs s ?c) + 1) = rr_counter (procs s ?c) + 1"
    using c by (intro int32_id in_int32I) (auto simp: RR_QUANTUM_def)
  have sm: "same_procs s ?u" "same_procs s ?v" by (simp_all add: same_procs_def)
  have ag: "ageing cf ?u Q = ageing cf s Q" "ageing cf ?v Q = ageing cf s Q"
    using sm by (auto simp: ageing_def blocked_g2_def same_procs_def isuserp_def)
  have q: "quantum_part cf s = (if rotates s then lock_sched cf ?v else Ok ?u)"
    using g n c(2) by (auto simp: quantum_part_def is_g1_def rotates_def RR_QUANTUM_def Let_def)
  show ?thesis
  proof (cases "rotates s")
    case True
    have "sched_ok cf ?v Q" "is_g1 (procs ?v (proc_ptr ?v))" "Q G1 \<noteq> []" "hd (Q G1) = proc_ptr ?v"
      using ok g h by (simp_all add: is_g1_def isuserp_def)
    from lock_sched_g1_ok [OF this] obtain t where "lock_sched cf ?v = Ok t" "sched_ok cf t R"
      "aging_counter t = aging_counter ?v" "\<forall>p. wait_ticks (procs t p) = wait_ticks (procs ?v p)" "ageing cf t R = ageing cf ?v Q"
      using R True by auto
    moreover have "wait_ticks (procs ?v p) = wait_ticks (procs s p)" for p by simp
    ultimately show ?thesis using q True ag by simp
  next
    case False
    with q ok R ag show ?thesis by auto
  qed
qed

text \<open>The second half: at every fifth tick group 2 grows older.\<close>

lemma aging_part_ok:
  assumes ok: "sched_ok cf s Q" and c: "0 \<le> aging_counter s" "aging_counter s < AGING_TICK"
  shows "\<exists>t. aging_part cf s = Ok t \<and> sched_ok cf t Q \<and> aging_counter t = (aging_counter s + 1) mod AGING_TICK
    \<and> (\<forall>p. wait_ticks (procs t p) = wait_ticks (if aging_counter s + 1 = AGING_TICK \<and> p \<in> ageing cf s Q
          then aged (procs s p) else procs s p))"
proof -
  let ?s = "s\<lparr>aging_counter := aging_counter s + 1\<rparr>"
  have n: "int32 (aging_counter s + 1) = aging_counter s + 1"
    using c by (intro int32_id in_int32I) (auto simp: AGING_TICK_def)
  have a: "ageing cf (s\<lparr>aging_counter := k\<rparr>) Q = ageing cf s Q" for k by (simp add: ageing_def)
  show ?thesis
  proof (cases "aging_counter s + 1 = AGING_TICK")
    case True
    let ?t = "(age_set (ageing cf s Q) ?s)\<lparr>aging_counter := 0\<rparr>"
    have "sched_ok cf ?s Q" using ok by simp
    from update_aging_set [OF this] have "aging_part cf s = Ok ?t" using n True by (simp add: aging_part_def Let_def a)
    moreover have "procs ?t p = (if p \<in> ageing cf s Q then aged (procs s p) else procs s p)" for p
      by (simp add: age_set_def)
    ultimately show ?thesis using ok True by (intro exI [of _ ?t]) simp
  next
    case False
    then have "aging_part cf s = Ok ?s" using n c by (simp add: aging_part_def Let_def)
    with False ok c show ?thesis by simp
  qed
qed

end
