(* ===== verification/Kernel_Sched_Props.thy ===== *)
theory Kernel_Sched_Props
  imports Kernel_Tick
begin

text \<open>
  The properties of the scheduler.
\<close>

section \<open>A small kernel\<close>

definition blank_regs :: regs where
  "blank_regs = \<lparr>r_retreg = 0, r_pc = 0, r_sp = 0, r_fp = 0, r_psw = 0, r_cs = 0, r_ds = 0, r_es = 0,
     r_fs = 0, r_gs = 0, r_ss = 0\<rparr>"

definition blank_descriptor :: descriptor where
  "blank_descriptor = \<lparr>d_origin = 0, d_bytes = 0, d_privilege = 0\<rparr>"

definition blank_proc :: proc where
  "blank_proc = \<lparr>p_reg = blank_regs, p_ldt_sel = 0, p_ldt_code = blank_descriptor, p_ldt_data = blank_descriptor, p_stguard = STACK_GUARD,
     p_nr = 0, p_int_blocked = False, p_int_held = False, p_nextheld = None, p_flags = {},
     p_map = (\<lambda>_. \<lparr>mem_vir = 0, mem_phys = 0, mem_len = 16\<rparr>), p_pid = 0, p_priority = PPRI_NONE,
     user_time = 0, sys_time = 0, child_utime = 0, child_stime = 0, p_alarm = 0, p_callerq = None,
     p_sendlink = None, p_messbuf = 0, p_getfrom = 0, p_sendto = 0, p_nextready = None, p_pending = {},
     p_pendcount = 0, p_name = [], sched_group = 0, cpu_estimate = 0, wait_ticks = 0, rr_counter = 0\<rparr>"

definition user_proc :: "int \<Rightarrow> int \<Rightarrow> proc" where
  "user_proc g e = blank_proc\<lparr>p_priority := PPRI_USER, sched_group := g, cpu_estimate := e\<rparr>"

text \<open>Process 2 of group 1 runs, process 1 of group 1 waits behind it, process 3 of group 3 is
  about to become ready.\<close>

definition small_kern :: kern where
  "small_kern = \<lparr>procs = (\<lambda>_. blank_proc)(2 := (user_proc 1 100)\<lparr>p_nextready := Some 1\<rparr>, 1 := user_proc 1 100, 3 := user_proc 3 7),
     q_head = (\<lambda>_. None)(G1 := Some 2), q_tail = (\<lambda>_. None)(G1 := Some 1), proc_ptr = 2, bill_ptr = 2,
     held_head = None, held_tail = None, switching = False, k_reenter = 0, sig_procs = 0, aging_counter = 0,
     msgs = (\<lambda>_ _. \<lparr>m_source = 0, m_type = 0, m_field = (\<lambda>_. 0), m3_ca1 = [], sig_map = {}\<rparr>)\<rparr>"

definition small_lists :: "queue \<Rightarrow> int list" where
  "small_lists = (\<lambda>_. [])(G1 := [2, 1])"

lemma small_all: "p \<in> set (all_procs small_config) \<longleftrightarrow> - 9 \<le> p \<and> p < 4"
proof
  assume p: "- 9 \<le> p \<and> p < 4"
  have "p = int (nat (p + 9)) - int (NR_TASKS small_config)" "nat (p + 9) \<in> set [0 ..< slots small_config]"
    using p by (auto simp: slots_def small_config_def)
  then show "p \<in> set (all_procs small_config)" unfolding all_procs_def set_map by (rule image_eqI)
qed (auto simp: all_procs_def slots_def small_config_def)

lemma small_sched_ok: "sched_ok small_config small_kern small_lists"
proof -
  have "lists_ok small_kern small_lists"
    by (auto simp: lists_ok_def queue_list_def small_lists_def small_kern_def nx_def user_proc_def blank_proc_def)
  moreover have "set (small_lists q) \<subseteq> set (all_procs small_config)" for q
    by (auto simp: small_all small_lists_def)
  moreover have "belongs (procs small_kern p) = q \<and> p_flags (procs small_kern p) = {}" if "p \<in> set (small_lists q)" for p q
    using that by (auto simp: small_lists_def small_kern_def user_proc_def blank_proc_def belongs_def istaskp_def
        isservp_def isuserp_def in_group_def group_queue_def split: if_splits)
  ultimately show ?thesis by (simp add: sched_ok_def small_lists_def)
qed

lemma small_waits: "waits_ok small_kern"
  by (auto simp: waits_ok_def small_kern_def user_proc_def blank_proc_def MAX_WAIT_TICKS_def)

section \<open>Properties\<close>

text \<open>C24: \<open>pick_proc\<close> chooses by priority: tasks, servers, group 1, group 2, group 3, other
  users, and \<open>IDLE\<close> only if every queue is empty. From group 2 it takes a process that has
  waited longest, from every other queue the head. It leaves the queues as they are and
  always returns.\<close>
theorem pick_proc_priority:
  assumes "sched_ok cf s Q"
  shows "\<exists>t. pick_proc cf s = Ok t \<and> sched_ok cf t Q \<and>
    ((\<forall>q. Q q = []) \<and> proc_ptr t = IDLE \<or>
     (\<exists>q. proc_ptr t \<in> set (Q q) \<and> (\<forall>q'. Q q' \<noteq> [] \<longrightarrow> q \<le> q') \<and> (q \<noteq> G2 \<longrightarrow> proc_ptr t = hd (Q q))
       \<and> (q = G2 \<longrightarrow> (\<forall>r \<in> set (Q q). wait_ticks (procs s r) \<le> wait_ticks (procs s (proc_ptr t))))))"
proof -
  have l: "lists_ok s Q" using assms by (simp add: sched_ok_def)
  from pick_proc_lists [OF l sched_ok_length [OF assms]] obtain t where t: "pick_proc cf s = Ok t" "lists_ok t Q"
    "same_procs s t" "choice s Q (proc_ptr t)" by blast
  have "sched_ok cf t Q"
    using assms t(2,3) by (rule sched_ok_step) (use assms in \<open>auto simp: sched_ok_def\<close>)
  with t show ?thesis unfolding choice_def by blast
qed

theorem pick_proc_priority_witness:
  "\<exists>t. pick_proc small_config small_kern = Ok t \<and> sched_ok small_config t small_lists"
  using pick_proc_priority [OF small_sched_ok] by blast

text \<open>C23: \<open>ready\<close> puts a runnable process that is in no queue into the queue of its class or
  group and into no other: at the end for tasks, servers, group 1 and group 2, at the front
  for users outside the groups, and in group 3 before the first process whose estimate is
  not smaller, so that group 3 stays in the order of the estimates.\<close>
theorem ready_spec:
  assumes "sched_ok cf s Q" and "p \<in> set (all_procs cf)" and "\<forall>q. p \<notin> set (Q q)" and "p_flags (procs s p) = {}"
  shows "\<exists>t. ready cf p s = Ok t \<and>
    (let q = belongs (procs s p);
         R = (if q = USER_Q then p # Q q
              else if q = G3
                then takeWhile (\<lambda>r. cpu_estimate (procs s r) < cpu_estimate (procs s p)) (Q q) @
                     p # dropWhile (\<lambda>r. cpu_estimate (procs s r) < cpu_estimate (procs s p)) (Q q)
              else Q q @ [p])
     in sched_ok cf t (Q(q := R)) \<and> sorted (map (\<lambda>r. cpu_estimate (procs t r)) ((Q(q := R)) G3)))"
proof -
  from ready_ok [OF assms(1,2) _ assms(4) refl] assms(3) obtain t where t: "ready cf p s = Ok t"
    "sched_ok cf t (Q(belongs (procs s p) := ready_list s p (belongs (procs s p)) (Q (belongs (procs s p)))))" by blast
  have "sorted (map (\<lambda>r. cpu_estimate (procs t r))
      ((Q(belongs (procs s p) := ready_list s p (belongs (procs s p)) (Q (belongs (procs s p))))) G3))"
    using t(2) unfolding sched_ok_def by blast
  with t show ?thesis unfolding Let_def ready_list_def sjf_insert_def by blast
qed

theorem ready_spec_witness:
  "\<exists>t. ready small_config 3 small_kern = Ok t \<and> sched_ok small_config t (small_lists(G3 := [3]))"
proof -
  have b: "belongs (procs small_kern 3) = G3"
    by (simp add: small_kern_def user_proc_def blank_proc_def belongs_def istaskp_def isservp_def isuserp_def
        in_group_def group_queue_def)
  have "\<forall>q. 3 \<notin> set (small_lists q)" by (simp add: small_lists_def)
  moreover have "p_flags (procs small_kern 3) = {}" by (simp add: small_kern_def user_proc_def blank_proc_def)
  moreover have "3 \<in> set (all_procs small_config)" by (simp add: small_all)
  ultimately show ?thesis using ready_spec [OF small_sched_ok, of 3]
    by (auto simp: b small_lists_def Let_def)
qed

text \<open>C12: \<open>unready\<close> takes a process out of the queue of its class or group, wherever it stands
  in it, and leaves the order of the others. If it was running (at the head, or in a group),
  the next process is chosen from what is left.\<close>
theorem unready_spec:
  assumes "sched_ok cf s Q" and "istaskp (procs s p) \<longrightarrow> p_stguard (procs s p) = STACK_GUARD"
  shows "\<exists>t. unready cf p s = Ok t \<and>
    (let q = belongs (procs s p); R = Q(q := remove1 p (Q q))
     in sched_ok cf t R \<and> (p = proc_ptr s \<and> p \<in> set (Q q) \<and> (q \<in> {G1, G2, G3} \<or> p = hd (Q q)) \<longrightarrow> choice s R (proc_ptr t)))"
  using unready_ok [OF assms(1) _ refl, of p] assms(2) unfolding Let_def by blast

theorem unready_spec_witness:
  "\<exists>t. unready small_config 2 small_kern = Ok t \<and> sched_ok small_config t (small_lists(G1 := [1]))"
proof -
  have "belongs (procs small_kern 2) = G1" "\<not> istaskp (procs small_kern 2)"
    by (simp_all add: small_kern_def user_proc_def blank_proc_def belongs_def istaskp_def isservp_def isuserp_def
        in_group_def group_queue_def)
  then show ?thesis using unready_spec [OF small_sched_ok, of 2] by (auto simp: small_lists_def Let_def)
qed



text \<open>The aging pass, with waiting times in their range: each process queued in group 2 that
  is not running, and each process of group 2 blocked on a message, waits one tick longer, up
  to 1000; no other process and no queue changes.\<close>
lemma aging_spec:
  assumes "sched_ok cf s Q" and "waits_ok s"
  shows "\<exists>t. update_aging_for_group2 cf s = Ok t \<and> sched_ok cf t Q \<and> (\<forall>p. procs t p =
    (if p \<in> set (Q G2) \<and> p \<noteq> proc_ptr s \<or> p \<in> set (all_procs cf) \<and> blocked_g2 (procs s p)
     then (procs s p)\<lparr>wait_ticks := min (wait_ticks (procs s p) + 1) 1000\<rparr> else procs s p))"
proof -
  let ?t = "age_set (ageing cf s Q) s"
  have "aged (procs s p) = (procs s p)\<lparr>wait_ticks := min (wait_ticks (procs s p) + 1) 1000\<rparr>" for p
    using aged_wait [of "procs s p"] assms(2) by (simp add: waits_ok_def aged_def MAX_WAIT_TICKS_def)
  then have "\<forall>p. procs ?t p = (if p \<in> set (Q G2) \<and> p \<noteq> proc_ptr s \<or> p \<in> set (all_procs cf) \<and> blocked_g2 (procs s p)
     then (procs s p)\<lparr>wait_ticks := min (wait_ticks (procs s p) + 1) 1000\<rparr> else procs s p)"
    by (simp add: age_set_def ageing_def)
  with update_aging_set [OF assms(1)] assms(1) show ?thesis by (intro exI [of _ ?t]) simp
qed

end
