(* ===== verification/Kernel_Ipc.thy ===== *)
theory Kernel_Ipc
  imports Kernel_Queues
begin

text \<open>
  The message passing of \<^verbatim>\<open>kernel/proc.c\<close> (\<open>interrupt\<close>, \<open>sys_call\<close>, \<open>mini_send\<close>, \<open>mini_rec\<close>,
  \<open>unhold\<close>) and the two routines of \<^verbatim>\<open>kernel/system.c\<close> that it is entangled with, \<open>inform\<close>
  and \<open>cause_sig\<close>.
\<close>

section \<open>mini_send\<close>

text \<open>The check that a message buffer lies in the memory of the caller, in its two versions.\<close>

definition msg_in_range :: "config \<Rightarrow> proc \<Rightarrow> 32 word \<Rightarrow> bool" where
  "msg_in_range cf p vb =
     (let vlo = drop_bit (CLICK_SHIFT cf) vb;
          vhi = drop_bit (CLICK_SHIFT cf) (vb + of_nat (MESS_SIZE cf) - 1)
      in if ALLOW_GAP_MESSAGES cf
         then \<not> (vlo < mem_vir (p_map p D) \<or> vhi < vlo \<or> mem_vir (p_map p S) + mem_len (p_map p S) \<le> vhi)
         else \<not> (vhi < vlo \<or> mem_len (p_map p D) \<le> vhi - mem_vir (p_map p D)))"

text \<open>The walk along the processes a sender is blocked on: does it come back to the caller?\<close>

fun locked :: "nat \<Rightarrow> kern \<Rightarrow> int \<Rightarrow> int \<Rightarrow> bool res" where
  "locked 0 s caller next_ptr = Hang"
| "locked (Suc n) s caller next_ptr =
     (if next_ptr = caller then Ok True
      else if SENDING \<in> p_flags (procs s next_ptr) then locked n s caller (p_sendto (procs s next_ptr))
      else Ok False)"

text \<open>The end of a caller queue.\<close>

fun last_caller :: "nat \<Rightarrow> kern \<Rightarrow> int \<Rightarrow> int res" where
  "last_caller 0 s next_ptr = Hang"
| "last_caller (Suc n) s next_ptr =
     (case p_sendlink (procs s next_ptr) of None \<Rightarrow> Ok next_ptr | Some q \<Rightarrow> last_caller n s q)"

definition receiving_from :: "kern \<Rightarrow> int \<Rightarrow> int \<Rightarrow> bool" where
  "receiving_from s dest caller \<longleftrightarrow> p_flags (procs s dest) \<inter> {RECEIVING, SENDING} = {RECEIVING}
     \<and> (p_getfrom (procs s dest) = ANY \<or> p_getfrom (procs s dest) = caller)"

definition deliver :: "config \<Rightarrow> int \<Rightarrow> int \<Rightarrow> 32 word \<Rightarrow> kern \<Rightarrow> kern res" where
  "deliver cf caller dest m_ptr s =
     (let s = cp_mess caller caller m_ptr dest (p_messbuf (procs s dest)) s;
          s = set_flags dest (\<lambda>f. f - {RECEIVING}) s
      in if p_flags (procs s dest) = {} then ready cf dest s else Ok s)"

definition block_sender :: "config \<Rightarrow> int \<Rightarrow> int \<Rightarrow> 32 word \<Rightarrow> kern \<Rightarrow> kern res" where
  "block_sender cf caller dest m_ptr s =
     (let s = upd caller (\<lambda>p. p\<lparr>p_messbuf := m_ptr\<rparr>) s
      in bind_res (if p_flags (procs s caller) = {} then unready cf caller s else Ok s)
        (\<lambda>s. let s = upd caller (\<lambda>p. p\<lparr>p_flags := insert SENDING (p_flags p), p_sendto := dest\<rparr>) s
             in bind_res
               (case p_callerq (procs s dest) of
                  None \<Rightarrow> Ok (upd dest (\<lambda>p. p\<lparr>p_callerq := Some caller\<rparr>) s)
                | Some q \<Rightarrow> bind_res (last_caller (Suc (slots cf)) s q)
                    (\<lambda>q. Ok (upd q (\<lambda>p. p\<lparr>p_sendlink := Some caller\<rparr>) s)))
               (\<lambda>s. Ok (upd caller (\<lambda>p. p\<lparr>p_sendlink := None\<rparr>) s))))"

definition mini_send :: "config \<Rightarrow> int \<Rightarrow> int \<Rightarrow> 32 word \<Rightarrow> kern \<Rightarrow> (status \<times> kern) res" where
  "mini_send cf caller dest m_ptr s =
     (if isuserp (procs s caller) \<and> \<not> issysentn cf dest then Ok (E_BAD_DEST, s)
      else if isemptyp (procs s dest) then Ok (E_BAD_DEST, s)
      else if \<not> msg_in_range cf (procs s caller) m_ptr then Ok (EFAULT, s)
      else bind_res
        (if SENDING \<in> p_flags (procs s dest)
         then locked (Suc (slots cf)) s caller (p_sendto (procs s dest)) else Ok False)
        (\<lambda>l. if l then Ok (ELOCKED, s)
             else bind_res
               (if receiving_from s dest caller then deliver cf caller dest m_ptr s
                else block_sender cf caller dest m_ptr s)
               (\<lambda>s. Ok (OK, s))))"

definition lock_mini_send :: "config \<Rightarrow> int \<Rightarrow> int \<Rightarrow> 32 word \<Rightarrow> kern \<Rightarrow> (status \<times> kern) res" where
  "lock_mini_send cf caller dest m_ptr s =
     bind_res (mini_send cf caller dest m_ptr (s\<lparr>switching := True\<rparr>))
       (\<lambda>(r, s). Ok (r, s\<lparr>switching := False\<rparr>))"

section \<open>inform and cause_sig\<close>

text \<open>Servers and users in the order of the table; \<open>sys_m\<close> is the address of the message
  buffer of \<^verbatim>\<open>system.c\<close>.\<close>

definition serv_procs :: "config \<Rightarrow> int list" where
  "serv_procs cf = map int [0 ..< NR_PROCS cf]"

definition inform :: "config \<Rightarrow> 32 word \<Rightarrow> kern \<Rightarrow> kern res" where
  "inform cf sys_m s =
     (case find (\<lambda>p. PENDING \<in> p_flags (procs s p)) (serv_procs cf) of
        None \<Rightarrow> Ok s
      | Some rp \<Rightarrow>
          (let m = get_msg HARDWARE sys_m s;
               s = put_msg HARDWARE sys_m (m\<lparr>m_type := KSIG, m_field := (m_field m)(M2_i1 := rp),
                     sig_map := p_pending (procs s rp)\<rparr>) s;
               s = s\<lparr>sig_procs := sig_procs s - 1\<rparr>
           in bind_res (lock_mini_send cf HARDWARE (MM_PROC_NR cf) sys_m s)
             (\<lambda>(r, s). if r \<noteq> OK then Panic ''can't inform MM''
                else lock_pick_proc cf (upd rp (\<lambda>p. p\<lparr>p_pending := {}, p_flags := p_flags p - {PENDING}\<rparr>) s))))"

definition cause_sig :: "config \<Rightarrow> 32 word \<Rightarrow> int \<Rightarrow> nat \<Rightarrow> kern \<Rightarrow> kern res" where
  "cause_sig cf sys_m proc_nr sig_nr s =
     (if sig_nr \<in> p_pending (procs s proc_nr) then Ok s
      else let s = upd proc_nr (\<lambda>p. p\<lparr>p_pending := insert sig_nr (p_pending p), p_pendcount := p_pendcount p + 1\<rparr>) s
      in if PENDING \<in> p_flags (procs s proc_nr) then Ok s
      else bind_res (if p_flags (procs s proc_nr) = {} then lock_unready cf proc_nr s else Ok s)
        (\<lambda>s. let s = set_flags proc_nr (\<lambda>f. f \<union> {PENDING, SIG_PENDING}) s;
                 s = s\<lparr>sig_procs := sig_procs s + 1\<rparr>
             in if RECEIVING \<notin> p_flags (procs s (MM_PROC_NR cf)) \<or> p_getfrom (procs s (MM_PROC_NR cf)) \<noteq> ANY
                then Ok s else inform cf sys_m s))"

section \<open>mini_rec\<close>

text \<open>The loop over the caller queue: the first acceptable sender and its predecessor.\<close>

fun find_sender :: "nat \<Rightarrow> kern \<Rightarrow> int \<Rightarrow> int option \<Rightarrow> int option \<Rightarrow> (int option \<times> int) option res" where
  "find_sender 0 s src previous_ptr sender_ptr = Hang"
| "find_sender (Suc n) s src previous_ptr sender_ptr =
     (case sender_ptr of
        None \<Rightarrow> Ok None
      | Some q \<Rightarrow>
          if src = ANY \<or> src = q then Ok (Some (previous_ptr, q))
          else find_sender n s src (Some q) (p_sendlink (procs s q)))"

definition accept :: "config \<Rightarrow> int \<Rightarrow> int option \<Rightarrow> int \<Rightarrow> 32 word \<Rightarrow> kern \<Rightarrow> kern res" where
  "accept cf caller previous_ptr sender m_ptr s =
     (let s = cp_mess sender sender (p_messbuf (procs s sender)) caller m_ptr s
      in bind_res
        (if Some sender = p_callerq (procs s caller)
         then Ok (upd caller (\<lambda>p. p\<lparr>p_callerq := p_sendlink (procs s sender)\<rparr>) s)
         else case previous_ptr of
                None \<Rightarrow> Null_deref
              | Some q \<Rightarrow> Ok (upd q (\<lambda>p. p\<lparr>p_sendlink := p_sendlink (procs s sender)\<rparr>) s))
        (\<lambda>s. let s = set_flags sender (\<lambda>f. f - {SENDING}) s
             in if p_flags (procs s sender) = {} then ready cf sender s else Ok s))"

definition block_receiver :: "config \<Rightarrow> 32 word \<Rightarrow> int \<Rightarrow> int \<Rightarrow> 32 word \<Rightarrow> kern \<Rightarrow> kern res" where
  "block_receiver cf sys_m caller src m_ptr s =
     (let s = upd caller (\<lambda>p. p\<lparr>p_getfrom := src, p_messbuf := m_ptr\<rparr>) s
      in bind_res (if p_flags (procs s caller) = {} then unready cf caller s else Ok s)
        (\<lambda>s. let s = set_flags caller (insert RECEIVING) s
             in if 0 < sig_procs s \<and> caller = MM_PROC_NR cf \<and> src = ANY then inform cf sys_m s else Ok s))"

definition mini_rec :: "config \<Rightarrow> 32 word \<Rightarrow> int \<Rightarrow> int \<Rightarrow> 32 word \<Rightarrow> kern \<Rightarrow> (status \<times> kern) res" where
  "mini_rec cf sys_m caller src m_ptr s =
     bind_res
       (if SENDING \<notin> p_flags (procs s caller)
        then find_sender (Suc (slots cf)) s src None (p_callerq (procs s caller)) else Ok None)
       (\<lambda>found. case found of
           Some (previous_ptr, sender) \<Rightarrow>
             bind_res (accept cf caller previous_ptr sender m_ptr s) (\<lambda>s. Ok (OK, s))
         | None \<Rightarrow>
             if SENDING \<notin> p_flags (procs s caller) \<and> p_int_blocked (procs s caller) \<and> isrxhardware src
             then Ok (OK, upd caller (\<lambda>p. p\<lparr>p_int_blocked := False\<rparr>)
                   (put_msg caller m_ptr ((get_msg caller m_ptr s)\<lparr>m_source := HARDWARE, m_type := HARD_INT\<rparr>) s))
             else bind_res (block_receiver cf sys_m caller src m_ptr s) (\<lambda>s. Ok (OK, s)))"

section \<open>sys_call\<close>

definition sys_call :: "config \<Rightarrow> 32 word \<Rightarrow> sys_fun \<Rightarrow> int \<Rightarrow> 32 word \<Rightarrow> kern \<Rightarrow> (status \<times> kern) res" where
  "sys_call cf sys_m function src_dest m_ptr s =
     (let rp = proc_ptr s
      in if \<not> isoksrc_dest cf src_dest then Ok (E_BAD_SRC, s)
         else if isuserp (procs s rp) \<and> function \<noteq> BOTH then Ok (E_NO_PERM, s)
         else if function = SEND then mini_send cf rp src_dest m_ptr s
         else if function = BOTH
         then bind_res (mini_send cf rp src_dest m_ptr s)
                (\<lambda>(n, s). if n \<noteq> OK then Ok (n, s) else mini_rec cf sys_m rp src_dest m_ptr s)
         else mini_rec cf sys_m rp src_dest m_ptr s)"

section \<open>Interrupts\<close>

text \<open>Putting a task on the queue of held-up interrupts.\<close>

definition hold :: "int \<Rightarrow> kern \<Rightarrow> kern res" where
  "hold rp s =
     (if p_int_held (procs s rp) then Ok s
      else let s = upd rp (\<lambda>p. p\<lparr>p_int_held := True\<rparr>) s
        in bind_res
          (case held_head s of
             None \<Rightarrow> Ok (s\<lparr>held_head := Some rp\<rparr>)
           | Some _ \<Rightarrow> (case held_tail s of
                 None \<Rightarrow> Null_deref
               | Some t \<Rightarrow> Ok (upd t (\<lambda>p. p\<lparr>p_nextheld := Some rp\<rparr>) s)))
          (\<lambda>s. Ok (upd rp (\<lambda>p. p\<lparr>p_nextheld := None\<rparr>) (s\<lparr>held_tail := Some rp\<rparr>))))"

definition interrupt :: "int \<Rightarrow> kern \<Rightarrow> kern res" where
  "interrupt rp s =
     (if k_reenter s \<noteq> 0 \<or> switching s then hold rp s
      else if p_flags (procs s rp) \<inter> {RECEIVING, SENDING} \<noteq> {RECEIVING} \<or> \<not> isrxhardware (p_getfrom (procs s rp))
      then Ok (upd rp (\<lambda>p. p\<lparr>p_int_blocked := True\<rparr>) s)
      else let s = put_msg rp (p_messbuf (procs s rp))
                     ((get_msg rp (p_messbuf (procs s rp)) s)\<lparr>m_source := HARDWARE, m_type := HARD_INT\<rparr>) s;
               s = upd rp (\<lambda>p. p\<lparr>p_flags := p_flags p - {RECEIVING}, p_int_blocked := False\<rparr>) s
           in enqueue TASK_Q rp (if q_head s TASK_Q = None then s\<lparr>proc_ptr := rp\<rparr> else s))"

text \<open>Flushing the held-up interrupts.\<close>

fun unhold_loop :: "nat \<Rightarrow> int \<Rightarrow> kern \<Rightarrow> kern res" where
  "unhold_loop 0 rp s = Hang"
| "unhold_loop (Suc n) rp s =
     (let s = s\<lparr>held_head := p_nextheld (procs s rp)\<rparr>;
          s = (if held_head s = None then s\<lparr>held_tail := None\<rparr> else s);
          s = upd rp (\<lambda>p. p\<lparr>p_int_held := False\<rparr>) s
      in bind_res (interrupt rp s)
        (\<lambda>s. case held_head s of None \<Rightarrow> Ok s | Some rp \<Rightarrow> unhold_loop n rp s))"

definition unhold :: "config \<Rightarrow> kern \<Rightarrow> kern res" where
  "unhold cf s =
     (if switching s then Ok s
      else case held_head s of
             None \<Rightarrow> Null_deref
           | Some rp \<Rightarrow> unhold_loop (Suc (slots cf)) rp s)"

end
