(* ===== verification/Kernel_Ipc_Inv.thy ===== *)
theory Kernel_Ipc_Inv
  imports Kernel_Sched_Inv Kernel_Ipc
begin

text \<open>
  Message passing: the caller queues as lists, the graph of senders and the processes they
  wait for, and what \<open>mini_send\<close> and \<open>mini_rec\<close> do to both.
\<close>

section \<open>The graph of senders\<close>

definition waits_for :: "kern \<Rightarrow> int \<Rightarrow> int option" where
  "waits_for s p = (if SENDING \<in> p_flags (procs s p) then Some (p_sendto (procs s p)) else None)"

text \<open>Following the graph from any process comes to an end: nobody waits for itself.\<close>

definition no_deadlock :: "config \<Rightarrow> kern \<Rightarrow> bool" where
  "no_deadlock cf s \<longleftrightarrow> (\<forall>p. \<exists>xs. linked (waits_for s) (waits_for s p) xs)
     \<and> (\<forall>p. SENDING \<in> p_flags (procs s p) \<longrightarrow> p \<in> set (all_procs cf))"

lemma linked_init_sending:
  "linked (waits_for s) h xs \<Longrightarrow> \<forall>p \<in> set (butlast xs). SENDING \<in> p_flags (procs s p)"
proof (induction xs arbitrary: h)
  case (Cons x xs)
  then have l: "linked (waits_for s) (waits_for s x) xs" by simp
  show ?case
  proof (cases xs)
    case (Cons y ys)
    with l have "waits_for s x = Some y" by simp
    then have "SENDING \<in> p_flags (procs s x)" by (simp add: waits_for_def split: if_splits)
    with Cons.IH [OF l] show ?thesis by auto
  qed simp
qed simp

lemma chain_length:
  assumes n: "no_deadlock cf s" and l: "linked (waits_for s) h xs"
  shows "length xs \<le> Suc (slots cf)"
proof -
  have d: "distinct (butlast xs)" using linked_distinct [OF l] by (rule distinct_butlast)
  have "set (butlast xs) \<subseteq> set (all_procs cf)"
    using linked_init_sending [OF l] n unfolding no_deadlock_def by blast
  then have "card (set (butlast xs)) \<le> card (set (all_procs cf))" by (intro card_mono) auto
  also have "\<dots> \<le> length (all_procs cf)" by (rule card_length)
  finally show ?thesis using distinct_card [OF d] by (simp add: all_procs_def)
qed

lemma locked_chain:
  "linked (waits_for s) (Some x) xs \<Longrightarrow> length xs \<le> n \<Longrightarrow> locked n s c x = Ok (c \<in> set xs)"
proof (induction n arbitrary: x xs)
  case 0
  then show ?case by (cases xs) auto
next
  case (Suc n)
  then obtain ys where xs: "xs = x # ys" and l: "linked (waits_for s) (waits_for s x) ys"
    by (cases xs) auto
  show ?case
  proof (cases "x = c")
    case True
    with xs show ?thesis by simp
  next
    case ne: False
    show ?thesis
    proof (cases "SENDING \<in> p_flags (procs s x)")
      case True
      then have w: "waits_for s x = Some (p_sendto (procs s x))" by (simp add: waits_for_def)
      have "locked n s c (p_sendto (procs s x)) = Ok (c \<in> set ys)"
        by (rule Suc.IH) (use l w Suc.prems(2) xs in auto)
      with True ne xs show ?thesis by auto
    next
      case False
      then have "ys = []" using l by (simp add: waits_for_def)
      with False ne xs show ?thesis by simp
    qed
  qed
qed

text \<open>A new edge to a process from which the sender cannot be reached.\<close>

lemma no_deadlock_edge:
  assumes n: "no_deadlock cf s" and c: "c \<in> set (all_procs cf)" "waits_for s c = None"
    and x: "linked (waits_for s) (Some d) xs" "c \<notin> set xs"
    and t: "waits_for t = (waits_for s)(c := Some d)"
    and f: "\<forall>p. SENDING \<in> p_flags (procs t p) \<longrightarrow> p = c \<or> SENDING \<in> p_flags (procs s p)"
  shows "no_deadlock cf t"
proof -
  have lx: "linked (waits_for t) (Some d) xs" unfolding t using x by simp
  have "\<exists>ys. linked (waits_for t) (waits_for t p) ys" for p
  proof (cases "p = c")
    case True
    with lx t show ?thesis by auto
  next
    case False
    from n obtain ys where ys: "linked (waits_for s) (waits_for s p) ys" by (auto simp: no_deadlock_def)
    have wp: "waits_for t p = waits_for s p" using t False by simp
    show ?thesis
    proof (cases "c \<in> set ys")
      case no: False
      then have "linked (waits_for t) (waits_for t p) ys" unfolding wp unfolding t using ys by simp
      then show ?thesis by blast
    next
      case True
      then obtain us vs where e: "ys = us @ c # vs" "c \<notin> set us" by (metis split_list_first)
      with ys have ch: "chain (waits_for s) (waits_for s p) us (Some c)" by (auto simp: chain_append)
      then have "chain (waits_for t) (waits_for t p) us (Some c)" unfolding wp unfolding t using e(2) by simp
      moreover have "linked (waits_for t) (Some c) (c # xs)" using lx t by simp
      ultimately have "linked (waits_for t) (waits_for t p) (us @ c # xs)" by (auto simp: chain_append)
      then show ?thesis by blast
    qed
  qed
  with n c(1) f show ?thesis unfolding no_deadlock_def by blast
qed

text \<open>Fewer senders.\<close>

lemma no_deadlock_less:
  assumes n: "no_deadlock cf s" and t: "waits_for t = (waits_for s)(q := None)"
    and f: "\<forall>p. SENDING \<in> p_flags (procs t p) \<longrightarrow> SENDING \<in> p_flags (procs s p)"
  shows "no_deadlock cf t"
proof -
  have "\<exists>ys. linked (waits_for t) (waits_for t p) ys" for p
  proof (cases "p = q")
    case True
    with t have "linked (waits_for t) (waits_for t p) []" by simp
    then show ?thesis by blast
  next
    case False
    from n obtain ys where ys: "linked (waits_for s) (waits_for s p) ys" by (auto simp: no_deadlock_def)
    have wp: "waits_for t p = waits_for s p" using t False by simp
    show ?thesis
    proof (cases "q \<in> set ys")
      case no: False
      then have "linked (waits_for t) (waits_for t p) ys" unfolding wp unfolding t using ys by simp
      then show ?thesis by blast
    next
      case True
      then obtain us vs where e: "ys = us @ q # vs" "q \<notin> set us" by (metis split_list_first)
      with ys have ch: "chain (waits_for s) (waits_for s p) us (Some q)" by (auto simp: chain_append)
      then have "chain (waits_for t) (waits_for t p) us (Some q)" unfolding wp unfolding t using e(2) by simp
      then have "linked (waits_for t) (waits_for t p) (us @ [q])" using t by (simp add: chain_append)
      then show ?thesis by blast
    qed
  qed
  with n f show ?thesis unfolding no_deadlock_def by blast
qed

section \<open>Caller queues\<close>

definition link_of :: "kern \<Rightarrow> int \<Rightarrow> int option" where
  "link_of s p = p_sendlink (procs s p)"

definition callers_ok :: "kern \<Rightarrow> (int \<Rightarrow> int list) \<Rightarrow> bool" where
  "callers_ok s C \<longleftrightarrow> (\<forall>d. linked (link_of s) (p_callerq (procs s d)) (C d))
     \<and> (\<forall>d p. p \<in> set (C d) \<longleftrightarrow> waits_for s p = Some d)"

text \<open>The state of the kernel: ready queues \<open>Q\<close>, caller queues \<open>C\<close>, no deadlock.\<close>

definition ipc_ok :: "config \<Rightarrow> kern \<Rightarrow> (queue \<Rightarrow> int list) \<Rightarrow> (int \<Rightarrow> int list) \<Rightarrow> bool" where
  "ipc_ok cf s Q C \<longleftrightarrow> sched_ok cf s Q \<and> callers_ok s C \<and> no_deadlock cf s"

lemma callers_length:
  assumes "callers_ok s C" and "no_deadlock cf s"
  shows "length (C d) \<le> slots cf"
proof -
  have d: "distinct (C d)" using assms(1) linked_distinct by (auto simp: callers_ok_def)
  have "set (C d) \<subseteq> set (all_procs cf)"
  proof
    fix p assume "p \<in> set (C d)"
    then have "waits_for s p = Some d" using assms(1) by (simp add: callers_ok_def)
    then have "SENDING \<in> p_flags (procs s p)" by (simp add: waits_for_def split: if_splits)
    then show "p \<in> set (all_procs cf)" using assms(2) by (simp add: no_deadlock_def)
  qed
  then have "card (set (C d)) \<le> card (set (all_procs cf))" by (intro card_mono) auto
  also have "\<dots> \<le> length (all_procs cf)" by (rule card_length)
  finally show ?thesis using distinct_card [OF d] by (simp add: all_procs_def)
qed

lemma same_ipc:
  assumes "same_procs s t"
  shows "waits_for t = waits_for s" "link_of t = link_of s" "callers_ok t C = callers_ok s C"
    "no_deadlock cf t = no_deadlock cf s"
proof -
  show w: "waits_for t = waits_for s" "link_of t = link_of s"
    using assms by (auto simp: same_procs_def waits_for_def link_of_def fun_eq_iff)
  with assms show "callers_ok t C = callers_ok s C" "no_deadlock cf t = no_deadlock cf s"
    by (simp_all add: callers_ok_def no_deadlock_def same_procs_def)
qed

lemma last_caller_last:
  "linked (link_of s) (Some x) xs \<Longrightarrow> length xs \<le> n \<Longrightarrow> last_caller n s x = Ok (last xs)"
proof (induction n arbitrary: x xs)
  case 0
  then show ?case by (cases xs) auto
next
  case (Suc n)
  then obtain ys where xs: "xs = x # ys" and l: "linked (link_of s) (link_of s x) ys" by (cases xs) auto
  show ?case
  proof (cases ys)
    case Nil
    with l xs show ?thesis by (simp add: link_of_def)
  next
    case (Cons y zs)
    with l have "p_sendlink (procs s x) = Some y" by (simp add: link_of_def)
    moreover have "last_caller n s y = Ok (last ys)" by (rule Suc.IH) (use l Cons Suc.prems(2) xs in auto)
    ultimately show ?thesis using xs Cons by simp
  qed
qed

text \<open>The caller at the end of the queue of \<open>d\<close>.\<close>

lemma callers_append:
  assumes c: "callers_ok s C" and w: "waits_for s p = None"
    and t: "link_of t = (if C d = [] then (link_of s)(p := None) else (link_of s)(last (C d) := Some p, p := None))"
    and q: "\<And>e. p_callerq (procs t e) = (if e = d \<and> C d = [] then Some p else p_callerq (procs s e))"
    and wt: "waits_for t = (waits_for s)(p := Some d)"
  shows "callers_ok t (C(d := C d @ [p]))"
proof -
  have np: "p \<notin> set (C e)" for e using c w by (auto simp: callers_ok_def)
  have dj: "x \<in> set (C e) \<Longrightarrow> x \<in> set (C d) \<Longrightarrow> e = d" for x e
    using c unfolding callers_ok_def by (metis option.inject)
  have l: "linked (link_of s) (p_callerq (procs s e)) (C e)" for e using c by (simp add: callers_ok_def)
  have "linked (link_of t) (p_callerq (procs t e)) ((C(d := C d @ [p])) e)" for e
  proof (cases "e = d")
    case False
    have "linked (link_of t) (p_callerq (procs s e)) (C e)"
    proof (cases "C d = []")
      case True
      then show ?thesis unfolding t using l [of e] np [of e] by simp
    next
      case ne: False
      have "last (C d) \<notin> set (C e)" using dj [of "last (C d)" e] False ne by auto
      with ne show ?thesis unfolding t using l [of e] np [of e] by simp
    qed
    with False q show ?thesis by simp
  next
    case True
    show ?thesis
    proof (cases "C d = []")
      case nil: True
      with True q t show ?thesis by simp
    next
      case False
      have "linked (link_of s) (p_callerq (procs s d)) (butlast (C d) @ [last (C d)])" using l [of d] False by simp
      moreover have "p \<notin> set (butlast (C d) @ [last (C d)])" using np [of d] False by simp
      ultimately have "linked ((link_of s)(last (C d) := Some p, p := None)) (p_callerq (procs s d)) (butlast (C d) @ [last (C d), p])"
        by (rule linked_snoc)
      moreover have "butlast (C d) @ [last (C d), p] = C d @ [p]"
        using False by (metis append.assoc append_butlast_last_id append_Cons append_Nil)
      ultimately show ?thesis using True False q t by simp
    qed
  qed
  moreover have "x \<in> set ((C(d := C d @ [p])) e) \<longleftrightarrow> waits_for t x = Some e" for x e
    using c w unfolding wt callers_ok_def by auto
  ultimately show ?thesis by (simp add: callers_ok_def)
qed

text \<open>Taking a caller out of the queue of \<open>d\<close>.\<close>

lemma callers_remove:
  assumes c: "callers_ok s C" and e: "C d = us @ p # vs"
    and t: "link_of t = (if us = [] then link_of s else (link_of s)(last us := link_of s p))"
    and q: "\<And>e. p_callerq (procs t e) = (if e = d \<and> us = [] then link_of s p else p_callerq (procs s e))"
    and wt: "waits_for t = (waits_for s)(p := None)"
  shows "callers_ok t (C(d := us @ vs))"
proof -
  have l: "linked (link_of s) (p_callerq (procs s e)) (C e)" for e using c by (simp add: callers_ok_def)
  have ds: "distinct (us @ p # vs)" using linked_distinct [OF l [of d]] e by simp
  have dj: "x \<in> set (C e) \<Longrightarrow> x \<in> set (C d) \<Longrightarrow> e = d" for x e
    using c unfolding callers_ok_def by (metis option.inject)
  have "linked (link_of t) (p_callerq (procs t f)) ((C(d := us @ vs)) f)" for f
  proof (cases "f = d")
    case False
    show ?thesis
    proof (cases "us = []")
      case True
      with False l [of f] q t show ?thesis by simp
    next
      case ne: False
      have "last us \<notin> set (C f)" using dj [of "last us" f] False ne e by auto
      with False ne l [of f] q t show ?thesis by simp
    qed
  next
    case True
    show ?thesis
    proof (cases us rule: rev_cases)
      case Nil
      with True l [of d] e q t show ?thesis by simp
    next
      case (snoc ws w)
      have "linked (link_of s) (p_callerq (procs s d)) (ws @ w # p # vs)" using l [of d] e snoc by simp
      then have "linked ((link_of s)(w := link_of s p)) (p_callerq (procs s d)) (ws @ w # vs)" by (rule linked_unlink)
      with True snoc q t show ?thesis by simp
    qed
  qed
  moreover have "x \<in> set ((C(d := us @ vs)) f) \<longleftrightarrow> waits_for t x = Some f" for x f
  proof -
    have m: "y \<in> set (C g) \<longleftrightarrow> waits_for s y = Some g" for y g using c by (simp add: callers_ok_def)
    have "p \<in> set (C d)" using e by simp
    then have "waits_for s p = Some d" using m by blast
    then show ?thesis using m [of x f] e ds unfolding wt by auto
  qed
  ultimately show ?thesis by (simp add: callers_ok_def)
qed

end
