(* ===== verification/Kernel_Send.thy ===== *)
theory Kernel_Send
  imports Kernel_Ipc_Inv
begin

text \<open>
  \<open>mini_send\<close> and \<open>mini_rec\<close> keep the state of the kernel in order.
\<close>

section \<open>Updates of one process\<close>

lemma nx_upd_other: "(\<And>r. p_nextready (f r) = p_nextready r) \<Longrightarrow> nx (upd p f s) = nx s"
  by (auto simp: nx_def fun_eq_iff)

lemma sched_ok_upd_same:
  assumes "\<And>r. p_nextready (f r) = p_nextready r \<and> p_flags (f r) = p_flags r \<and> p_priority (f r) = p_priority r
    \<and> sched_group (f r) = sched_group r \<and> cpu_estimate (f r) = cpu_estimate r"
  shows "sched_ok cf (upd p f s) Q = sched_ok cf s Q"
proof -
  have "lists_ok (upd p f s) Q = lists_ok s Q"
    using assms nx_upd_other [of f p s] by (simp add: lists_ok_def)
  moreover have "belongs (procs (upd p f s) r) = belongs (procs s r)" "p_flags (procs (upd p f s) r) = p_flags (procs s r)"
    "cpu_estimate (procs (upd p f s) r) = cpu_estimate (procs s r)" for r
    using assms by (auto simp: belongs_def in_group_def istaskp_def isservp_def isuserp_def)
  ultimately show ?thesis by (simp add: sched_ok_def del: upd_sel)
qed

lemma sched_ok_upd_other:
  assumes "\<And>q. p \<notin> set (Q q)"
  shows "sched_ok cf (upd p f s) Q = sched_ok cf s Q"
proof -
  have c: "procs (upd p f s) r = procs s r" if "r \<in> set (Q q)" for r q using that assms by auto
  have "linked (nx (upd p f s)) h (Q q) = linked (nx s) h (Q q)" for h q
    by (rule chain_cong) (simp only: nx_def c)
  then have "lists_ok (upd p f s) Q = lists_ok s Q" by (simp add: lists_ok_def queue_list_def)
  moreover have "map (\<lambda>r. cpu_estimate (procs (upd p f s) r)) (Q G3) = map (\<lambda>r. cpu_estimate (procs s r)) (Q G3)"
    by (rule map_cong [OF refl]) (simp only: c)
  ultimately show ?thesis unfolding sched_ok_def using c by metis
qed

lemma sched_ok_msgs [simp]:
  "sched_ok cf (put_msg p a m s) Q = sched_ok cf s Q"
proof -
  have "nx (put_msg p a m s) = nx s" by (simp add: nx_def fun_eq_iff)
  then show ?thesis by (simp add: sched_ok_def lists_ok_def)
qed

lemma not_queued: "sched_ok cf s Q \<Longrightarrow> p_flags (procs s p) \<noteq> {} \<Longrightarrow> p \<notin> set (Q q)"
  by (auto simp: sched_ok_def)

lemma callers_ok_frame:
  assumes "waits_for t = waits_for s" "link_of t = link_of s" "\<And>d. p_callerq (procs t d) = p_callerq (procs s d)"
  shows "callers_ok t C = callers_ok s C"
  using assms by (simp add: callers_ok_def)

lemma waits_SENDING: "SENDING \<in> p_flags (procs s p) \<longleftrightarrow> waits_for s p \<noteq> None"
  by (simp add: waits_for_def)

lemma no_deadlock_frame:
  assumes "waits_for t = waits_for s"
  shows "no_deadlock cf t = no_deadlock cf s"
  using assms by (simp add: no_deadlock_def waits_SENDING)

section \<open>Delivering\<close>

lemma ready_ipc:
  assumes ok: "ipc_ok cf s Q C" and p: "p \<in> set (all_procs cf)" "\<And>q. p \<notin> set (Q q)"
  shows "\<exists>t Q'. (if p_flags (procs s p) = {} then ready cf p s else Ok s) = Ok t \<and> ipc_ok cf t Q' C \<and> msgs t = msgs s
    \<and> same_procs s t"
proof (cases "p_flags (procs s p) = {}")
  case False
  with ok show ?thesis by (simp add: exI [of _ Q])
next
  case True
  have sk: "sched_ok cf s Q" using ok by (simp add: ipc_ok_def)
  from ready_ok [OF sk p True refl] obtain t Q' where t: "ready cf p s = Ok t" "sched_ok cf t Q'" "only_links s t" by blast
  note sp = only_links_same [OF t(3)]
  have "ipc_ok cf t Q' C" using ok t(2) same_ipc [OF sp] by (simp add: ipc_ok_def)
  with t(1) True sp show ?thesis by (auto simp: same_procs_def)
qed

lemma deliver_ok:
  assumes ok: "ipc_ok cf s Q C" and d: "d \<in> set (all_procs cf)" and r: "receiving_from s d c"
  shows "\<exists>t Q'. deliver cf c d m s = Ok t \<and> ipc_ok cf t Q' C
    \<and> get_msg d (p_messbuf (procs s d)) t = (get_msg c m s)\<lparr>m_source := c\<rparr>"
proof -
  let ?u = "cp_mess c c m d (p_messbuf (procs s d)) s"
  let ?v = "set_flags d (\<lambda>f. f - {RECEIVING}) ?u"
  have rec: "RECEIVING \<in> p_flags (procs s d)" using r by (auto simp: receiving_from_def)
  have sk: "sched_ok cf s Q" using ok by (simp add: ipc_ok_def)
  have nq: "d \<notin> set (Q q)" for q using not_queued [OF sk, of d] rec by auto
  have "sched_ok cf ?v Q" using sk sched_ok_upd_other [of d Q cf _ ?u] nq by (simp add: set_flags_def cp_mess_def)
  moreover have w: "waits_for ?v = waits_for s" "link_of ?v = link_of s"
    by (auto simp: waits_for_def link_of_def fun_eq_iff)
  moreover have "callers_ok ?v C = callers_ok s C" by (rule callers_ok_frame) (use w in auto)
  moreover have "no_deadlock cf ?v = no_deadlock cf s" by (rule no_deadlock_frame) (rule w)
  ultimately have "ipc_ok cf ?v Q C" using ok by (simp add: ipc_ok_def)
  from ready_ipc [OF this d nq] obtain t Q' where t: "(if p_flags (procs ?v d) = {} then ready cf d ?v else Ok ?v) = Ok t"
    "ipc_ok cf t Q' C" "msgs t = msgs ?v" by blast
  have "deliver cf c d m s = Ok t" using t(1) by (simp add: deliver_def Let_def)
  moreover have "get_msg d (p_messbuf (procs s d)) t = (get_msg c m s)\<lparr>m_source := c\<rparr>"
    by (simp add: get_msg_def t(3) cp_mess_def put_msg_def)
  ultimately show ?thesis using t(2) by blast
qed

section \<open>Blocking a sender\<close>

lemma unready_ipc:
  assumes sk: "sched_ok cf s Q" and g: "istaskp (procs s p) \<Longrightarrow> p_stguard (procs s p) = STACK_GUARD"
  shows "\<exists>t Q'. (if p_flags (procs s p) = {} then unready cf p s else Ok s) = Ok t \<and> sched_ok cf t Q'
    \<and> same_procs s t \<and> (\<forall>q. p \<notin> set (Q' q))"
proof (cases "p_flags (procs s p) = {}")
  case False
  with sk not_queued [OF sk False] show ?thesis by (auto intro: exI [of _ Q])
next
  case True
  let ?q = "belongs (procs s p)"
  from unready_ok [OF sk g refl] obtain t where t: "unready cf p s = Ok t"
    "sched_ok cf t (Q(?q := remove1 p (Q ?q)))" "same_procs s t" by blast
  have "p \<notin> set ((Q(?q := remove1 p (Q ?q))) q)" for q
  proof (cases "q = ?q")
    case True
    have "distinct (Q ?q)" using sk queues_distinct by (auto simp: sched_ok_def)
    with True show ?thesis by simp
  next
    case False
    with sk show ?thesis by (auto simp: sched_ok_def)
  qed
  with t True show ?thesis by auto
qed

text \<open>The walk to the end of the queue of callers.\<close>

lemma append_caller:
  assumes cok: "callers_ok s C" and nd: "no_deadlock cf s" and l: "link_of u = link_of s"
    and q: "p_callerq (procs u d) = p_callerq (procs s d)"
  shows "(case p_callerq (procs u d) of
        None \<Rightarrow> Ok (upd d (\<lambda>p. p\<lparr>p_callerq := Some c\<rparr>) u)
      | Some q \<Rightarrow> bind_res (last_caller (Suc (slots cf)) u q) (\<lambda>q. Ok (upd q (\<lambda>p. p\<lparr>p_sendlink := Some c\<rparr>) u)))
    = Ok (if C d = [] then upd d (\<lambda>p. p\<lparr>p_callerq := Some c\<rparr>) u else upd (last (C d)) (\<lambda>p. p\<lparr>p_sendlink := Some c\<rparr>) u)"
proof -
  have hd: "p_callerq (procs s d) = (case C d of [] \<Rightarrow> None | y # _ \<Rightarrow> Some y)"
    using cok unfolding callers_ok_def by (cases "C d") (metis chain.simps(1) list.simps(4), metis chain.simps(2) list.simps(5))
  show ?thesis
  proof (cases "C d")
    case Nil
    then show ?thesis using hd q by simp
  next
    case (Cons y ys)
    have "linked (link_of s) (p_callerq (procs s d)) (C d)" using cok by (simp add: callers_ok_def)
    then have "linked (link_of u) (Some y) (C d)" unfolding l using hd Cons by simp
    moreover have "length (C d) \<le> Suc (slots cf)" using callers_length [OF cok nd, of d] by simp
    ultimately have "last_caller (Suc (slots cf)) u y = Ok (last (C d))" by (rule last_caller_last)
    then show ?thesis using hd q Cons by (simp del: last_caller.simps)
  qed
qed

lemma block_sender_ok:
  assumes ok: "ipc_ok cf s Q C" and c: "c \<in> set (all_procs cf)" "SENDING \<notin> p_flags (procs s c)"
    and g: "istaskp (procs s c) \<Longrightarrow> p_stguard (procs s c) = STACK_GUARD"
    and x: "linked (waits_for s) (Some d) xs" "c \<notin> set xs"
  shows "\<exists>t Q'. block_sender cf c d m s = Ok t \<and> ipc_ok cf t Q' (C(d := C d @ [c]))"
proof -
  let ?s1 = "upd c (\<lambda>p. p\<lparr>p_messbuf := m\<rparr>) s"
  have cd: "c \<noteq> d" using x by (cases xs) auto
  have sk: "sched_ok cf ?s1 Q" using ok by (simp add: ipc_ok_def sched_ok_upd_same)
  have g1: "istaskp (procs ?s1 c) \<Longrightarrow> p_stguard (procs ?s1 c) = STACK_GUARD" using g by (simp add: istaskp_def)
  from unready_ipc [OF sk g1] obtain u Q' where u: "(if p_flags (procs ?s1 c) = {} then unready cf c ?s1 else Ok ?s1) = Ok u"
    "sched_ok cf u Q'" "same_procs ?s1 u" "\<forall>q. c \<notin> set (Q' q)" by blast
  have w1: "waits_for u = waits_for s" "link_of u = link_of s"
    using same_ipc(1,2) [OF u(3)] by (auto simp: waits_for_def link_of_def fun_eq_iff)
  have cq: "p_callerq (procs u e) = p_callerq (procs s e)" for e using u(3) by (simp add: same_procs_def)
  let ?s2 = "upd c (\<lambda>p. p\<lparr>p_flags := insert SENDING (p_flags p), p_sendto := d\<rparr>) u"
  have s2: "sched_ok cf ?s2 Q'" using sched_ok_upd_other [of c Q' cf _ u] u(2,4) by blast
  have "waits_for ?s2 = (waits_for u)(c := Some d)" by (auto simp: waits_for_def fun_eq_iff)
  then have w2: "waits_for ?s2 = (waits_for s)(c := Some d)" by (simp only: w1)
  have "link_of ?s2 = link_of u" by (auto simp: link_of_def fun_eq_iff)
  then have l2: "link_of ?s2 = link_of s" by (simp only: w1)
  have cok: "callers_ok s C" and nd: "no_deadlock cf s" using ok by (simp_all add: ipc_ok_def)
  have wc: "waits_for s c = None" using c(2) by (simp add: waits_for_def)
  let ?s3 = "if C d = [] then upd d (\<lambda>p. p\<lparr>p_callerq := Some c\<rparr>) ?s2
             else upd (last (C d)) (\<lambda>p. p\<lparr>p_sendlink := Some c\<rparr>) ?s2"
  let ?t = "upd c (\<lambda>p. p\<lparr>p_sendlink := None\<rparr>) ?s3"
  have "p_callerq (procs ?s2 d) = p_callerq (procs s d)" using cq cd by simp
  note e3 = append_caller [OF cok nd l2 this, of c]
  have e: "block_sender cf c d m s = Ok ?t"
    unfolding block_sender_def Let_def u(1) bind_res.simps(1) e3 ..
  have lc: "last (C d) \<noteq> c" if "C d \<noteq> []"
    using cok wc last_in_set [OF that] unfolding callers_ok_def by auto
  have "waits_for ?t = waits_for ?s2" by (auto simp: waits_for_def fun_eq_iff)
  then have wt: "waits_for ?t = (waits_for s)(c := Some d)" by (simp only: w2)
  have lt: "link_of ?t = (if C d = [] then (link_of ?s2)(c := None) else (link_of ?s2)(last (C d) := Some c, c := None))"
    by (auto simp: link_of_def fun_eq_iff)
  have "callers_ok ?t (C(d := C d @ [c]))"
  proof (rule callers_append [OF cok wc _ _ wt])
    show "link_of ?t = (if C d = [] then (link_of s)(c := None) else (link_of s)(last (C d) := Some c, c := None))"
      unfolding lt l2 ..
    show "p_callerq (procs ?t e) = (if e = d \<and> C d = [] then Some c else p_callerq (procs s e))" for e
      using cq cd by auto
  qed
  moreover have "no_deadlock cf ?t"
    by (rule no_deadlock_edge [OF nd c(1) wc x wt]) (simp only: waits_SENDING wt fun_upd_apply, simp)
  moreover have "sched_ok cf ?t Q'"
    using s2 by (auto simp: sched_ok_upd_same)
  ultimately show ?thesis using e by (auto simp: ipc_ok_def)
qed

text \<open>The test for a cycle, with the chain that starts at the receiver.\<close>

lemma cycle_test:
  assumes nd: "no_deadlock cf s" and ys: "linked (waits_for s) (waits_for s d) ys"
  shows "(if SENDING \<in> p_flags (procs s d) then locked (Suc (slots cf)) s c (p_sendto (procs s d)) else Ok False) = Ok (c \<in> set ys)"
proof (cases "SENDING \<in> p_flags (procs s d)")
  case True
  then have w: "waits_for s d = Some (p_sendto (procs s d))" by (simp add: waits_for_def)
  have "locked (Suc (slots cf)) s c (p_sendto (procs s d)) = Ok (c \<in> set ys)"
    by (rule locked_chain) (use ys w chain_length [OF nd ys] in auto)
  with True show ?thesis by simp
next
  case False
  with ys show ?thesis by (simp add: waits_for_def)
qed

lemma mini_send_ok:
  assumes ok: "ipc_ok cf s Q C" and c: "c \<in> set (all_procs cf)" "SENDING \<notin> p_flags (procs s c)"
    and d: "d \<in> set (all_procs cf)" "d \<noteq> c"
    and g: "istaskp (procs s c) \<Longrightarrow> p_stguard (procs s c) = STACK_GUARD"
  shows "\<exists>r t. mini_send cf c d m s = Ok (r, t) \<and> (r \<noteq> OK \<longrightarrow> t = s)
    \<and> (r = ELOCKED \<longrightarrow> (\<exists>xs. linked (waits_for s) (Some d) xs \<and> c \<in> set xs))
    \<and> (r = OK \<longrightarrow> (\<forall>xs. linked (waits_for s) (Some d) xs \<longrightarrow> c \<notin> set xs))
    \<and> (r = OK \<longrightarrow> (\<exists>Q'. ipc_ok cf t Q' (if receiving_from s d c then C else C(d := C d @ [c])))
        \<and> (receiving_from s d c \<longrightarrow> get_msg d (p_messbuf (procs s d)) t = (get_msg c m s)\<lparr>m_source := c\<rparr>))"
proof -
  have nd: "no_deadlock cf s" using ok by (simp add: ipc_ok_def)
  then obtain ys where ys: "linked (waits_for s) (waits_for s d) ys" by (auto simp: no_deadlock_def)
  then have ch: "linked (waits_for s) (Some d) (d # ys)" by simp
  have uniq: "xs = d # ys" if "linked (waits_for s) (Some d) xs" for xs using linked_unique [OF that ch] .
  note lk = cycle_test [OF nd ys]
  consider "isuserp (procs s c) \<and> \<not> issysentn cf d \<or> isemptyp (procs s d)"
    | "\<not> (isuserp (procs s c) \<and> \<not> issysentn cf d)" "\<not> isemptyp (procs s d)" "\<not> msg_in_range cf (procs s c) m"
    | "\<not> (isuserp (procs s c) \<and> \<not> issysentn cf d)" "\<not> isemptyp (procs s d)" "msg_in_range cf (procs s c) m" by blast
  then show ?thesis
  proof cases
    case 1
    then have "mini_send cf c d m s = Ok (E_BAD_DEST, s)" by (auto simp: mini_send_def)
    then show ?thesis by simp
  next
    case 2
    then have "mini_send cf c d m s = Ok (EFAULT, s)" by (auto simp: mini_send_def)
    then show ?thesis by simp
  next
    case 3
    then have e: "mini_send cf c d m s = bind_res (Ok (c \<in> set ys))
        (\<lambda>l. if l then Ok (ELOCKED, s)
             else bind_res (if receiving_from s d c then deliver cf c d m s else block_sender cf c d m s)
               (\<lambda>s. Ok (OK, s)))"
      unfolding mini_send_def lk if_not_P [OF 3(1)] if_not_P [OF 3(2)] by (simp only: 3(3) not_not if_False simp_thms)
    show ?thesis
    proof (cases "c \<in> set ys")
      case True
      then have "mini_send cf c d m s = Ok (ELOCKED, s)" unfolding e by simp
      with True ch show ?thesis by (auto intro: exI [of _ "d # ys"])
    next
      case False
      then have no: "\<forall>xs. linked (waits_for s) (Some d) xs \<longrightarrow> c \<notin> set xs" using d(2) by (auto dest!: uniq)
      show ?thesis
      proof (cases "receiving_from s d c")
        case True
        from deliver_ok [OF ok d(1) True, of m] e False True no show ?thesis by auto
      next
        case rf: False
        have "c \<notin> set (d # ys)" using False d(2) by simp
        from block_sender_ok [OF ok c g ch this, of m] e False rf no show ?thesis by auto
      qed
    qed
  qed
qed

end
