(* ===== verification/Kernel_Receive.thy ===== *)
theory Kernel_Receive
  imports Kernel_Send Kernel_Sched_Props
begin

text \<open>
  \<open>mini_rec\<close>, and the properties of message passing.
\<close>

section \<open>Finding a sender\<close>

definition acceptable :: "int \<Rightarrow> int \<Rightarrow> bool" where
  "acceptable src q \<longleftrightarrow> src = ANY \<or> src = q"

lemma find_sender_find:
  "linked (link_of s) h xs \<Longrightarrow> length xs < n \<Longrightarrow>
   (\<forall>q \<in> set xs. \<not> acceptable src q) \<and> find_sender n s src (opt_last us) h = Ok None \<or>
   (\<exists>ys q zs. xs = ys @ q # zs \<and> (\<forall>y \<in> set ys. \<not> acceptable src y) \<and> acceptable src q
     \<and> find_sender n s src (opt_last us) h = Ok (Some (opt_last (us @ ys), q)))"
proof (induction xs arbitrary: h us n)
  case Nil
  then show ?case by (cases n) auto
next
  case (Cons x xs)
  then obtain m where n: "n = Suc m" "length xs < m" by (cases n) auto
  have h: "h = Some x" "linked (link_of s) (link_of s x) xs" using Cons.prems(1) by auto
  show ?case
  proof (cases "acceptable src x")
    case True
    then show ?thesis using n h
      by (intro disjI2 exI [of _ "[]"] exI [of _ x] exI [of _ xs]) (auto simp: acceptable_def)
  next
    case False
    have ol: "opt_last (us @ [x]) = Some x" by (simp add: opt_last_def)
    have e: "find_sender n s src (opt_last us) h = find_sender m s src (opt_last (us @ [x])) (link_of s x)"
      using False n h by (simp add: acceptable_def ol link_of_def)
    from Cons.IH [OF h(2) n(2), of "us @ [x]"] show ?thesis
    proof (elim disjE exE conjE)
      fix ys q zs
      assume "xs = ys @ q # zs" "\<forall>y \<in> set ys. \<not> acceptable src y" "acceptable src q"
        "find_sender m s src (opt_last (us @ [x])) (link_of s x) = Ok (Some (opt_last ((us @ [x]) @ ys), q))"
      with e False show ?thesis
        by (intro disjI2 exI [of _ "x # ys"] exI [of _ q] exI [of _ zs]) simp
    qed (use e False in auto)
  qed
qed

lemma accept_ok:
  assumes ok: "ipc_ok cf s Q C" and C: "C c = us @ q # vs"
  shows "\<exists>t Q'. accept cf c (opt_last us) q m s = Ok t \<and> ipc_ok cf t Q' (C(c := us @ vs))
    \<and> get_msg c m t = (get_msg q (p_messbuf (procs s q)) s)\<lparr>m_source := q\<rparr>"
proof -
  have cok: "callers_ok s C" and nd: "no_deadlock cf s" and sk: "sched_ok cf s Q" using ok by (simp_all add: ipc_ok_def)
  have l: "linked (link_of s) (p_callerq (procs s c)) (us @ q # vs)" using cok C unfolding callers_ok_def by metis
  have ds: "distinct (us @ q # vs)" using l by (rule linked_distinct)
  have "q \<in> set (C c)" using C by simp
  then have wq: "waits_for s q = Some c" using cok by (simp add: callers_ok_def)
  then have sq: "SENDING \<in> p_flags (procs s q)" by (simp add: waits_SENDING)
  have aq: "q \<in> set (all_procs cf)" using nd sq by (simp add: no_deadlock_def)
  have nq: "q \<notin> set (Q f)" for f using not_queued [OF sk, of q] sq by auto
  let ?u = "cp_mess q q (p_messbuf (procs s q)) c m s"
  let ?v = "if us = [] then upd c (\<lambda>p. p\<lparr>p_callerq := p_sendlink (procs s q)\<rparr>) ?u
            else upd (last us) (\<lambda>p. p\<lparr>p_sendlink := p_sendlink (procs s q)\<rparr>) ?u"
  let ?w = "set_flags q (\<lambda>f. f - {SENDING}) ?v"
  have hd: "Some q = p_callerq (procs s c) \<longleftrightarrow> us = []" using l ds by (cases us) auto
  have su: "sched_ok cf ?u Q" using sk by (simp add: cp_mess_def)
  then have "sched_ok cf ?v Q" by (simp add: sched_ok_upd_same)
  then have "sched_ok cf ?w Q" unfolding set_flags_def using sched_ok_upd_other [of q Q cf _ ?v] nq by blast
  moreover have wv: "waits_for ?v = waits_for s"
    by (cases "us = []") (auto simp: waits_for_def fun_eq_iff)
  have "waits_for ?w = (waits_for ?v)(q := None)" by (auto simp: waits_for_def fun_eq_iff simp del: upd_sel put_msg_sel)
  then have ww: "waits_for ?w = (waits_for s)(q := None)" by (simp only: wv)
  have lv: "link_of ?v = (if us = [] then link_of s else (link_of s)(last us := link_of s q))"
    by (cases "us = []") (auto simp: link_of_def fun_eq_iff)
  have "link_of ?w = link_of ?v" by (auto simp: link_of_def fun_eq_iff simp del: upd_sel put_msg_sel)
  then have lw: "link_of ?w = (if us = [] then link_of s else (link_of s)(last us := link_of s q))" by (simp only: lv)
  have cw: "p_callerq (procs ?w e) = (if e = c \<and> us = [] then link_of s q else p_callerq (procs s e))" for e
    by (cases "us = []") (auto simp: link_of_def)
  have "callers_ok ?w (C(c := us @ vs))"
    by (rule callers_remove [OF cok C lw cw ww])
  moreover have "no_deadlock cf ?w"
    by (rule no_deadlock_less [OF nd ww]) (simp only: waits_SENDING ww fun_upd_apply, simp)
  ultimately have "ipc_ok cf ?w Q (C(c := us @ vs))" by (simp add: ipc_ok_def)
  from ready_ipc [OF this aq nq] obtain t Q' where t: "(if p_flags (procs ?w q) = {} then ready cf q ?w else Ok ?w) = Ok t"
    "ipc_ok cf t Q' (C(c := us @ vs))" "msgs t = msgs ?w" by blast
  have pu: "procs (cp_mess a b x e y s) = procs s" for a b x e y by (simp add: cp_mess_def)
  have "accept cf c (opt_last us) q m s = (if p_flags (procs ?w q) = {} then ready cf q ?w else Ok ?w)"
  proof (cases "us = []")
    case True
    with hd have "Some q = p_callerq (procs s c)" by simp
    with True show ?thesis unfolding accept_def Let_def by (simp only: pu if_True refl bind_res.simps)
  next
    case False
    with hd have n: "(Some q = p_callerq (procs s c)) = False" by simp
    have ol: "opt_last us = Some (last us)" using False by (simp add: opt_last_def)
    from False show ?thesis unfolding accept_def Let_def by (simp only: pu n ol if_False bind_res.simps option.case)
  qed
  then have "accept cf c (opt_last us) q m s = Ok t" unfolding t(1) .
  moreover have "get_msg c m t = (get_msg q (p_messbuf (procs s q)) s)\<lparr>m_source := q\<rparr>"
    by (simp add: get_msg_def t(3) cp_mess_def put_msg_def)
  ultimately show ?thesis using t(2) by blast
qed

lemma block_receiver_ok:
  assumes ok: "ipc_ok cf s Q C" and g: "istaskp (procs s c) \<Longrightarrow> p_stguard (procs s c) = STACK_GUARD"
    and i0: "c = MM_PROC_NR cf \<and> src = ANY \<Longrightarrow> False"
  shows "\<exists>t Q'. block_receiver cf sys_m c src m s = Ok t \<and> ipc_ok cf t Q' C
    \<and> RECEIVING \<in> p_flags (procs t c) \<and> p_getfrom (procs t c) = src \<and> p_messbuf (procs t c) = m"
proof -
  let ?s1 = "upd c (\<lambda>p. p\<lparr>p_getfrom := src, p_messbuf := m\<rparr>) s"
  have sk: "sched_ok cf ?s1 Q" using ok by (simp add: ipc_ok_def sched_ok_upd_same)
  have g1: "istaskp (procs ?s1 c) \<Longrightarrow> p_stguard (procs ?s1 c) = STACK_GUARD" using g by (simp add: istaskp_def)
  from unready_ipc [OF sk g1] obtain u Q' where u: "(if p_flags (procs ?s1 c) = {} then unready cf c ?s1 else Ok ?s1) = Ok u"
    "sched_ok cf u Q'" "same_procs ?s1 u" "\<forall>q. c \<notin> set (Q' q)" by blast
  let ?t = "set_flags c (insert RECEIVING) u"
  have "block_receiver cf sys_m c src m s = Ok ?t"
    unfolding block_receiver_def Let_def u(1) using i0 by auto
  moreover have w1: "waits_for ?s1 = waits_for s" "link_of ?s1 = link_of s"
    by (auto simp: waits_for_def link_of_def fun_eq_iff)
  have w: "waits_for ?t = waits_for u" "link_of ?t = link_of u" by (auto simp: waits_for_def link_of_def fun_eq_iff)
  note w2 = w [unfolded same_ipc(1,2) [OF u(3)] w1]
  have "callers_ok ?t C = callers_ok s C"
    by (rule callers_ok_frame) (use w2 u(3) in \<open>auto simp: same_procs_def\<close>)
  moreover have "no_deadlock cf ?t = no_deadlock cf s" by (rule no_deadlock_frame) (rule w2)
  moreover have "sched_ok cf ?t Q'" unfolding set_flags_def using sched_ok_upd_other [of c Q' cf _ u] u(2,4) by blast
  moreover have "p_getfrom (procs ?t c) = src" "p_messbuf (procs ?t c) = m" using u(3) by (simp_all add: same_procs_def)
  ultimately show ?thesis using ok by (auto simp: ipc_ok_def)
qed

lemma take_interrupt_ok:
  assumes ok: "ipc_ok cf s Q C"
    and t: "t = upd c (\<lambda>p. p\<lparr>p_int_blocked := False\<rparr>)
          (put_msg c m ((get_msg c m s)\<lparr>m_source := HARDWARE, m_type := HARD_INT\<rparr>) s)"
  shows "ipc_ok cf t Q C" and "get_msg c m t = (get_msg c m s)\<lparr>m_source := HARDWARE, m_type := HARD_INT\<rparr>"
proof -
  have "waits_for t = waits_for s" "link_of t = link_of s" unfolding t by (auto simp: waits_for_def link_of_def fun_eq_iff)
  then have "callers_ok t C" "no_deadlock cf t"
    using callers_ok_frame [of t s C] no_deadlock_frame [of t s cf] ok by (auto simp: t ipc_ok_def)
  moreover have "sched_ok cf t Q" using ok by (simp add: t ipc_ok_def sched_ok_upd_same)
  ultimately show "ipc_ok cf t Q C" by (simp add: ipc_ok_def)
  show "get_msg c m t = (get_msg c m s)\<lparr>m_source := HARDWARE, m_type := HARD_INT\<rparr>"
    by (simp add: t get_msg_def put_msg_def)
qed

lemma find_first:
  assumes "C = ys @ q # zs" and "\<forall>y \<in> set ys. \<not> acceptable src y" and "acceptable src q"
  shows "find (\<lambda>q. src = ANY \<or> src = q) C = Some q" and "remove1 q C = ys @ zs"
proof -
  have "find (acceptable src) (ys @ q # zs) = Some q" using assms(2,3) by (induction ys) auto
  then show "find (\<lambda>q. src = ANY \<or> src = q) C = Some q" unfolding assms(1) acceptable_def .
  have "q \<notin> set ys" using assms(2,3) by blast
  then show "remove1 q C = ys @ zs" using assms(1) by (simp add: remove1_append)
qed

section \<open>Properties\<close>


lemma small_no_waits: "waits_for small_kern = (\<lambda>_. None)"
  by (auto simp: waits_for_def small_kern_def user_proc_def blank_proc_def fun_eq_iff)

lemma small_ipc_ok: "ipc_ok small_config small_kern small_lists (\<lambda>_. [])"
proof -
  have "p_callerq (procs small_kern d) = None" for d by (simp add: small_kern_def user_proc_def blank_proc_def)
  then have "callers_ok small_kern (\<lambda>_. [])" by (simp add: callers_ok_def small_no_waits)
  moreover have "no_deadlock small_config small_kern"
    by (auto simp: no_deadlock_def waits_SENDING small_no_waits)
  ultimately show ?thesis using small_sched_ok by (simp add: ipc_ok_def)
qed

lemma small_idle: "SENDING \<notin> p_flags (procs small_kern p)" "\<not> istaskp (procs small_kern p)"
  by (auto simp: small_kern_def user_proc_def blank_proc_def istaskp_def)




text \<open>The check for deadlock does not cover a process that sends to itself: the call succeeds
  and blocks it, and from then on no send to it returns that gets past the other checks: the
  walk along the blocked senders goes round for ever.\<close>
lemma self_send_hangs:
  assumes "sched_ok cf s Q" and "\<not> isuserp (procs s d)" "\<not> isemptyp (procs s d)" "msg_in_range cf (procs s d) m"
    and "p_flags (procs s d) \<inter> {SENDING, RECEIVING} = {}" and "p_callerq (procs s d) = None"
    and "istaskp (procs s d) \<longrightarrow> p_stguard (procs s d) = STACK_GUARD"
  shows "\<exists>t. mini_send cf d d m s = Ok (OK, t) \<and> (\<forall>c m'. c \<noteq> d \<longrightarrow> (\<forall>n. locked n t c d = Hang) \<and>
    (\<not> (isuserp (procs t c) \<and> \<not> issysentn cf d) \<and> \<not> isemptyp (procs t d) \<and> msg_in_range cf (procs t c) m'
       \<longrightarrow> mini_send cf c d m' t = Hang))"
proof -
  let ?s1 = "upd d (\<lambda>p. p\<lparr>p_messbuf := m\<rparr>) s"
  have sk: "sched_ok cf ?s1 Q" using assms(1) by (simp add: sched_ok_upd_same)
  have g1: "istaskp (procs ?s1 d) \<Longrightarrow> p_stguard (procs ?s1 d) = STACK_GUARD" using assms(7) by (simp add: istaskp_def)
  from unready_ipc [OF sk g1] obtain u where u: "(if p_flags (procs ?s1 d) = {} then unready cf d ?s1 else Ok ?s1) = Ok u"
    "same_procs ?s1 u" by blast
  let ?t = "upd d (\<lambda>p. p\<lparr>p_sendlink := None\<rparr>) (upd d (\<lambda>p. p\<lparr>p_callerq := Some d\<rparr>)
      (upd d (\<lambda>p. p\<lparr>p_flags := insert SENDING (p_flags p), p_sendto := d\<rparr>) u))"
  have "p_callerq (procs u d) = None" using u(2) assms(6) by (simp add: same_procs_def)
  then have "block_sender cf d d m s = Ok ?t"
    unfolding block_sender_def Let_def u(1) by simp
  moreover have "\<not> receiving_from s d d" "SENDING \<notin> p_flags (procs s d)"
    using assms(5) by (auto simp: receiving_from_def)
  ultimately have "mini_send cf d d m s = Ok (OK, ?t)" using assms(2-4) by (simp add: mini_send_def)
  moreover have l: "locked n ?t c d = Hang" if "c \<noteq> d" for n c
    using that by (induction n) auto
  moreover have "mini_send cf c d m' ?t = Hang"
    if "c \<noteq> d" "\<not> (isuserp (procs ?t c) \<and> \<not> issysentn cf d)" "\<not> isemptyp (procs ?t d)" "msg_in_range cf (procs ?t c) m'" for c m'
  proof -
    have "SENDING \<in> p_flags (procs ?t d)" "p_sendto (procs ?t d) = d" by simp_all
    then show ?thesis
      unfolding mini_send_def if_not_P [OF that(2)] if_not_P [OF that(3)]
      using that(4) l [OF that(1)] by (simp del: locked.simps upd_sel)
  qed
  ultimately show ?thesis by blast
qed

text \<open>The clock task of the small kernel sends to itself.\<close>

definition task_kern :: kern where
  "task_kern = upd (- 3) (\<lambda>p. p\<lparr>p_priority := PPRI_TASK, p_flags := {P_STOP}\<rparr>) small_kern"

lemma self_send_hangs_witness:
  "\<exists>t. mini_send small_config (- 3) (- 3) 64 task_kern = Ok (OK, t) \<and> (\<forall>c n. c \<noteq> - 3 \<longrightarrow> locked n t c (- 3) = Hang)"
proof -
  have "\<And>q. - 3 \<notin> set (small_lists q)" by (simp add: small_lists_def)
  then have "sched_ok small_config task_kern small_lists"
    unfolding task_kern_def using sched_ok_upd_other [of "- 3" small_lists] small_sched_ok by blast
  moreover have "msg_in_range small_config (procs task_kern (- 3)) 64"
    by (simp add: msg_in_range_def task_kern_def small_kern_def blank_proc_def small_config_def)
  ultimately show ?thesis
    using self_send_hangs [of small_config task_kern small_lists "- 3" 64]
    by (auto simp: task_kern_def small_kern_def blank_proc_def isuserp_def isemptyp_def istaskp_def)
qed

end
