(* ===== verification/Kernel_Held.thy ===== *)
theory Kernel_Held
  imports Kernel_Receive
begin

text \<open>
  Interrupts that came while the kernel was switching: the queue of held-up tasks and \<open>unhold\<close>.
\<close>

section \<open>One interrupt\<close>

definition accepts :: "kern \<Rightarrow> int \<Rightarrow> bool" where
  "accepts s p \<longleftrightarrow> p_flags (procs s p) \<inter> {RECEIVING, SENDING} = {RECEIVING} \<and> isrxhardware (p_getfrom (procs s p))"

definition hard_int :: "message \<Rightarrow> bool" where
  "hard_int m \<longleftrightarrow> m_source m = HARDWARE \<and> m_type m = HARD_INT"

definition held_link :: "kern \<Rightarrow> int \<Rightarrow> int option" where
  "held_link s p = p_nextheld (procs s p)"

text \<open>A task that may be interrupted now.\<close>

definition held_task :: "config \<Rightarrow> kern \<Rightarrow> int \<Rightarrow> bool" where
  "held_task cf s p \<longleftrightarrow> p \<in> set (all_procs cf) \<and> istaskp (procs s p) \<and> p_flags (procs s p) \<subseteq> {RECEIVING, SENDING}"

text \<open>What delivering to \<open>p\<close> leaves alone.\<close>

definition others_same :: "int set \<Rightarrow> kern \<Rightarrow> kern \<Rightarrow> bool" where
  "others_same P s t \<longleftrightarrow> (\<forall>r. r \<notin> P \<longrightarrow> procs t r = (procs s r)\<lparr>p_nextready := p_nextready (procs t r)\<rparr>)
     \<and> (\<forall>a b. hard_int (msgs s a b) \<longrightarrow> hard_int (msgs t a b))"

lemma others_sameD:
  assumes "others_same P s t" and "r \<notin> P"
  shows "p_flags (procs t r) = p_flags (procs s r)" "p_getfrom (procs t r) = p_getfrom (procs s r)"
    "p_priority (procs t r) = p_priority (procs s r)" "p_nextheld (procs t r) = p_nextheld (procs s r)"
    "p_int_held (procs t r) = p_int_held (procs s r)" "p_int_blocked (procs t r) = p_int_blocked (procs s r)"
    "p_messbuf (procs t r) = p_messbuf (procs s r)"
proof -
  obtain v where v: "procs t r = (procs s r)\<lparr>p_nextready := v\<rparr>" using assms unfolding others_same_def by blast
  show "p_flags (procs t r) = p_flags (procs s r)" "p_getfrom (procs t r) = p_getfrom (procs s r)"
    "p_priority (procs t r) = p_priority (procs s r)" "p_nextheld (procs t r) = p_nextheld (procs s r)"
    "p_int_held (procs t r) = p_int_held (procs s r)" "p_int_blocked (procs t r) = p_int_blocked (procs s r)"
    "p_messbuf (procs t r) = p_messbuf (procs s r)"
    by (simp_all add: v)
qed

lemma others_same_trans:
  assumes st: "others_same P s t" and tu: "others_same R t u"
  shows "others_same (P \<union> R) s u"
proof -
  have "procs u r = (procs s r)\<lparr>p_nextready := p_nextready (procs u r)\<rparr>" if r: "r \<notin> P" "r \<notin> R" for r
  proof -
    have s: "procs t r = (procs s r)\<lparr>p_nextready := p_nextready (procs t r)\<rparr>" using st r unfolding others_same_def by blast
    have "procs u r = (procs t r)\<lparr>p_nextready := p_nextready (procs u r)\<rparr>" using tu r unfolding others_same_def by blast
    then show ?thesis by (subst (asm) s) simp
  qed
  with st tu show ?thesis by (auto simp: others_same_def)
qed

lemma enqueue_held:
  assumes "enqueue q p s = Ok t"
  shows "held_head t = held_head s \<and> held_tail t = held_tail s \<and> k_reenter t = k_reenter s \<and> switching t = switching s"
  using assms by (auto simp: enqueue_def set_head_def set_tail_def set_nextready_def upd_def bind_res_Ok_iff split: option.splits)

text \<open>An interrupt at task level is delivered at once if its task waits for it: the task has the
  message and is the last of the ready tasks. Otherwise the task is marked as blocked.\<close>

lemma interrupt_ok:
  assumes sk: "sched_ok cf s Q" and p: "held_task cf s p" and k: "k_reenter s = 0" "\<not> switching s"
  shows "\<exists>t. interrupt p s = Ok t \<and> sched_ok cf t (Q(TASK_Q := Q TASK_Q @ (if accepts s p then [p] else [])))
    \<and> others_same {p} s t \<and> held_head t = held_head s \<and> held_tail t = held_tail s \<and> k_reenter t = 0 \<and> \<not> switching t
    \<and> p_int_held (procs t p) = p_int_held (procs s p) \<and> p_int_blocked (procs t p) = (\<not> accepts s p)
    \<and> p_flags (procs t p) = (if accepts s p then {} else p_flags (procs s p))
    \<and> (accepts s p \<longrightarrow> hard_int (get_msg p (p_messbuf (procs t p)) t))"
proof (cases "accepts s p")
  case False
  let ?t = "upd p (\<lambda>r. r\<lparr>p_int_blocked := True\<rparr>) s"
  have "interrupt p s = Ok ?t" using False k by (auto simp: interrupt_def accepts_def)
  moreover have "sched_ok cf ?t Q" using sk by (simp add: sched_ok_upd_same)
  moreover have "others_same {p} s ?t" by (simp add: others_same_def)
  ultimately show ?thesis using False k by (simp add: upd_def)
next
  case True
  then have rec: "RECEIVING \<in> p_flags (procs s p)" "SENDING \<notin> p_flags (procs s p)" by (auto simp: accepts_def)
  then have fl: "p_flags (procs s p) = {RECEIVING}" using p by (auto simp: held_task_def)
  have nq: "p \<notin> set (Q q)" for q using not_queued [OF sk, of p] rec by auto
  let ?m = "(get_msg p (p_messbuf (procs s p)) s)\<lparr>m_source := HARDWARE, m_type := HARD_INT\<rparr>"
  let ?u = "put_msg p (p_messbuf (procs s p)) ?m s"
  let ?v = "upd p (\<lambda>r. r\<lparr>p_flags := p_flags r - {RECEIVING}, p_int_blocked := False\<rparr>) ?u"
  have sv: "sched_ok cf ?v Q" using sk sched_ok_upd_other [of p Q cf _ ?u] nq by simp
  have pa: "p \<in> set (all_procs cf)" and pt: "istaskp (procs ?v p)" using p by (auto simp: held_task_def istaskp_def)
  have fv: "p_flags (procs ?v p) = {}" using fl by simp
  have bv: "belongs (procs ?v p) = TASK_Q" using pt by (simp add: belongs_def)
  from ready_ok [OF sv pa nq fv bv] obtain t where t: "ready cf p ?v = Ok t" "sched_ok cf t (Q(TASK_Q := Q TASK_Q @ [p]))" "only_links ?v t"
    by (auto simp: ready_list_def)
  have e: "interrupt p s = ready cf p ?v" using True k pt by (simp add: interrupt_def accepts_def ready_def Let_def)
  have ne: "accepts s p" by (rule True)
  have pr: "procs t r = (procs ?v r)\<lparr>p_nextready := p_nextready (procs t r)\<rparr>" for r
    using t(3) unfolding only_links_def by blast
  have ms: "msgs t = msgs ?u" using t(3) by (simp add: only_links_def)
  obtain w where w: "procs t p = (procs ?v p)\<lparr>p_nextready := w\<rparr>" using pr by blast
  have "held_head t = held_head ?v \<and> held_tail t = held_tail ?v \<and> k_reenter t = k_reenter ?v \<and> switching t = switching ?v"
    using t(1) enqueue_held pt by (fastforce simp: ready_def split: if_splits)
  moreover have "procs t r = (procs s r)\<lparr>p_nextready := p_nextready (procs t r)\<rparr>" if "r \<noteq> p" for r
    using pr [of r] that by simp
  then have "others_same {p} s t"
    unfolding others_same_def ms by (auto simp: put_msg_def hard_int_def)
  moreover have "hard_int (get_msg p (p_messbuf (procs t p)) t)"
    by (simp add: w get_msg_def ms put_msg_def hard_int_def)
  ultimately show ?thesis using e t ne k fl w by (auto simp: upd_def put_msg_def)
qed

section \<open>unhold\<close>

definition delivered :: "kern \<Rightarrow> kern \<Rightarrow> int \<Rightarrow> bool" where
  "delivered s t p \<longleftrightarrow> \<not> p_int_held (procs t p) \<and> p_int_blocked (procs t p) = (\<not> accepts s p)
     \<and> p_flags (procs t p) = (if accepts s p then {} else p_flags (procs s p))
     \<and> (accepts s p \<longrightarrow> hard_int (get_msg p (p_messbuf (procs t p)) t))"

lemma delivered_later:
  assumes "delivered s t p" and "others_same P t u" and "p \<notin> P"
  shows "delivered s u p"
  using assms(1,2) others_sameD [OF assms(2,3)] by (auto simp: delivered_def others_same_def get_msg_def)

lemma accepts_same: "others_same P s t \<Longrightarrow> p \<notin> P \<Longrightarrow> accepts t p = accepts s p"
  by (simp add: accepts_def others_sameD)

lemma held_task_same: "others_same P s t \<Longrightarrow> p \<notin> P \<Longrightarrow> held_task cf t p = held_task cf s p"
  by (simp add: held_task_def istaskp_def others_sameD)

lemma delivered_earlier:
  assumes "delivered t u p" and "others_same P s t" and "p \<notin> P"
  shows "delivered s u p"
  using assms by (simp add: delivered_def accepts_same others_sameD)

text \<open>The first of the held interrupts.\<close>

definition unhold_one :: "int \<Rightarrow> kern \<Rightarrow> kern" where
  "unhold_one p s =
     (let s0 = s\<lparr>held_head := p_nextheld (procs s p)\<rparr>;
          s1 = if held_head s0 = None then s0\<lparr>held_tail := None\<rparr> else s0
      in upd p (\<lambda>r. r\<lparr>p_int_held := False\<rparr>) s1)"

lemma unhold_first:
  assumes "sched_ok cf s Q" and "held_task cf s p" and "k_reenter s = 0" "\<not> switching s"
  shows "\<exists>t. interrupt p (unhold_one p s) = Ok t \<and> sched_ok cf t (Q(TASK_Q := Q TASK_Q @ (if accepts s p then [p] else [])))
    \<and> others_same {p} s t \<and> delivered s t p \<and> held_head t = held_link s p
    \<and> held_tail t = (if held_link s p = None then None else held_tail s) \<and> k_reenter t = 0 \<and> \<not> switching t"
proof -
  let ?s0 = "s\<lparr>held_head := p_nextheld (procs s p)\<rparr>"
  let ?s1 = "if held_head ?s0 = None then ?s0\<lparr>held_tail := None\<rparr> else ?s0"
  let ?s2 = "upd p (\<lambda>r. r\<lparr>p_int_held := False\<rparr>) ?s1"
  have e: "unhold_one p s = ?s2" by (simp add: unhold_one_def Let_def)
  have same: "procs ?s1 = procs s" "msgs ?s1 = msgs s" "q_head ?s1 = q_head s" "q_tail ?s1 = q_tail s" by simp_all
  have "sched_ok cf ?s1 Q = sched_ok cf s Q"
    unfolding sched_ok_def lists_ok_def nx_def same ..
  then have s2: "sched_ok cf ?s2 Q" using assms(1) by (simp add: sched_ok_upd_same)
  have h2: "held_task cf ?s2 p" using assms(2) by (simp add: held_task_def istaskp_def)
  have a2: "accepts ?s2 r = accepts s r" for r by (simp add: accepts_def)
  have k2: "k_reenter ?s2 = 0" "\<not> switching ?s2" using assms(3,4) by (auto simp: upd_def)
  have o2: "others_same {p} s ?s2" by (simp add: others_same_def)
  from interrupt_ok [OF s2 h2 k2] obtain t where t: "interrupt p ?s2 = Ok t"
    "sched_ok cf t (Q(TASK_Q := Q TASK_Q @ (if accepts s p then [p] else [])))" "others_same {p} ?s2 t"
    "held_head t = held_head ?s2" "held_tail t = held_tail ?s2" "k_reenter t = 0" "\<not> switching t" "delivered ?s2 t p"
    unfolding a2 delivered_def by (auto simp: upd_def)
  have dp: "delivered s t p" using t(8) unfolding delivered_def a2 by auto
  have ot: "others_same {p} s t" using others_same_trans [OF o2 t(3)] by simp
  have hh: "held_head t = held_link s p" "held_tail t = (if held_link s p = None then None else held_tail s)"
    using t(4,5) by (simp_all add: held_link_def upd_def)
  show ?thesis unfolding e using t(1,2,6,7) dp ot hh by blast
qed

lemma unhold_loop_ok:
  assumes "sched_ok cf s Q" and "linked (held_link s) (Some p) ps" and "\<forall>r \<in> set ps. held_task cf s r"
    and "k_reenter s = 0" "\<not> switching s" and "length ps \<le> n"
  shows "\<exists>t. unhold_loop n p s = Ok t \<and> sched_ok cf t (Q(TASK_Q := Q TASK_Q @ filter (accepts s) ps))
    \<and> held_head t = None \<and> held_tail t = None \<and> others_same (set ps) s t \<and> (\<forall>r \<in> set ps. delivered s t r)"
  using assms
proof (induction n arbitrary: s Q p ps)
  case 0
  then show ?case by (cases ps) auto
next
  case (Suc n)
  then obtain xs where ps: "ps = p # xs" and lx: "linked (held_link s) (held_link s p) xs" by (cases ps) auto
  have d: "distinct (p # xs)" using linked_distinct [OF Suc.prems(2)] ps by simp
  have "held_task cf s p" using Suc.prems(3) ps by simp
  from unhold_first [OF Suc.prems(1) this Suc.prems(4,5)] obtain t where t: "interrupt p (unhold_one p s) = Ok t"
    "sched_ok cf t (Q(TASK_Q := Q TASK_Q @ (if accepts s p then [p] else [])))" and ot: "others_same {p} s t" and dp: "delivered s t p"
    and hh: "held_head t = held_link s p" "held_tail t = (if held_link s p = None then None else held_tail s)"
    and tr: "k_reenter t = 0" "\<not> switching t" by blast
  note t1 = t(1) [unfolded unhold_one_def Let_def]
  show ?case
  proof (cases xs)
    case Nil
    then have "held_link s p = None" using lx by simp
    then have "held_head t = None" "held_tail t = None" using hh by simp_all
    moreover from this have "unhold_loop (Suc n) p s = Ok t" using t1 by (simp add: Let_def)
    moreover have "(if accepts s p then [p] else []) = filter (accepts s) ps" using ps Nil by simp
    then have "sched_ok cf t (Q(TASK_Q := Q TASK_Q @ filter (accepts s) ps))" using t(2) by metis
    moreover have "others_same (set ps) s t" "\<forall>r \<in> set ps. delivered s t r" using ot dp ps Nil by simp_all
    ultimately show ?thesis by blast
  next
    case (Cons y ys)
    then have y: "held_link s p = Some y" "linked (held_link s) (Some y) xs" using lx by auto
    have np: "r \<noteq> p" if "r \<in> set xs" for r using d that by auto
    have "linked (held_link t) (Some y) xs = linked (held_link s) (Some y) xs"
      by (rule chain_cong) (use np others_sameD(4) [OF ot] in \<open>auto simp: held_link_def\<close>)
    then have l: "linked (held_link t) (Some y) xs" using y(2) by simp
    have hx: "\<forall>r \<in> set xs. held_task cf t r" using Suc.prems(3) ps np held_task_same [OF ot] by auto
    have lnx: "length xs \<le> n" using Suc.prems(6) ps by simp
    from Suc.IH [OF t(2) l hx tr lnx] obtain u where u: "unhold_loop n y t = Ok u"
      "sched_ok cf u (Q(TASK_Q := Q TASK_Q @ (if accepts s p then [p] else []) @ filter (accepts t) xs))"
      "held_head u = None" "held_tail u = None" "others_same (set xs) t u" "\<forall>r \<in> set xs. delivered t u r"
      unfolding fun_upd_upd fun_upd_same append_assoc by blast
    have "filter (accepts t) xs = filter (accepts s) xs"
      by (rule filter_cong) (use np accepts_same [OF ot] in auto)
    then have q: "(if accepts s p then [p] else []) @ filter (accepts t) xs = filter (accepts s) ps" using ps by simp
    have "unhold_loop (Suc n) p s = Ok u" using t1 hh(1) y(1) u(1) by (simp add: Let_def)
    moreover have "sched_ok cf u (Q(TASK_Q := Q TASK_Q @ filter (accepts s) ps))" using u(2) unfolding q .
    moreover have "others_same (set ps) s u" using others_same_trans [OF ot u(5)] ps by simp
    moreover have "delivered s u r" if "r \<in> set ps" for r
    proof (cases "r = p")
      case True
      with delivered_later [OF dp u(5)] d show ?thesis by simp
    next
      case False
      with that ps have "delivered t u r" using u(6) by simp
      with delivered_earlier [OF _ ot] False show ?thesis by simp
    qed
    ultimately show ?thesis using u(3,4) by blast
  qed
qed

text \<open>C22: No interrupt is lost. \<open>unhold\<close> at task level goes through the whole queue of held-up
  tasks and ends, with the queue empty. Every task of it that waits for an interrupt has got
  the interrupt message and is runnable, behind the tasks that were ready, in the order in
  which the interrupts came; every other task is marked so that its next receive takes the
  interrupt. No other process changes.\<close>
theorem unhold_delivers_all:
  assumes "sched_ok cf s Q" and "linked (held_link s) (held_head s) ps" and "ps \<noteq> []"
    and "\<forall>r \<in> set ps. held_task cf s r" and "k_reenter s = 0" and "\<not> switching s"
  shows "\<exists>t. unhold cf s = Ok t \<and> sched_ok cf t (Q(TASK_Q := Q TASK_Q @ filter (accepts s) ps))
    \<and> held_head t = None \<and> held_tail t = None \<and> others_same (set ps) s t
    \<and> (\<forall>r \<in> set ps. \<not> p_int_held (procs t r) \<and>
        (if accepts s r then p_flags (procs t r) = {} \<and> hard_int (get_msg r (p_messbuf (procs t r)) t)
         else p_int_blocked (procs t r)))"
proof -
  obtain p xs where ps: "ps = p # xs" using assms(3) by (cases ps) auto
  then have h: "held_head s = Some p" using assms(2) by simp
  have "set ps \<subseteq> set (all_procs cf)" using assms(4) by (auto simp: held_task_def)
  then have "card (set ps) \<le> card (set (all_procs cf))" by (intro card_mono) auto
  also have "\<dots> \<le> slots cf" using card_length [of "all_procs cf"] by (simp add: all_procs_def)
  finally have "length ps \<le> Suc (slots cf)" using linked_distinct [OF assms(2)] by (simp add: distinct_card)
  from unhold_loop_ok [OF assms(1) assms(2) [unfolded h] assms(4-6) this] show ?thesis
    using h assms(6) unfolding unhold_def delivered_def by (auto simp del: unhold_loop.simps)
qed

text \<open>The clock task, which waits for an interrupt, is held up behind the synchronous alarm
  task, which does not.\<close>

definition held_kern :: kern where
  "held_kern = upd (- 3) (\<lambda>p. p\<lparr>p_priority := PPRI_TASK, p_flags := {RECEIVING}, p_getfrom := ANY, p_int_held := True\<rparr>)
     (upd (- 7) (\<lambda>p. p\<lparr>p_priority := PPRI_TASK, p_flags := {SENDING}, p_int_held := True, p_nextheld := Some (- 3)\<rparr>)
        (small_kern\<lparr>held_head := Some (- 7), held_tail := Some (- 3)\<rparr>))"

theorem unhold_delivers_all_witness:
  "\<exists>t. unhold small_config held_kern = Ok t \<and> held_head t = None \<and> sched_ok small_config t (small_lists(TASK_Q := [- 3]))
     \<and> p_int_blocked (procs t (- 7))"
proof -
  have s: "sched_ok small_config (small_kern\<lparr>held_head := a, held_tail := b\<rparr>) small_lists" for a b
    using small_sched_ok unfolding sched_ok_def lists_ok_def nx_def by simp
  have "- 3 \<notin> set (small_lists q)" "- 7 \<notin> set (small_lists q)" for q by (auto simp: small_lists_def)
  then have ok: "sched_ok small_config held_kern small_lists"
    unfolding held_kern_def using s sched_ok_upd_other [of _ small_lists small_config] by metis
  have l: "linked (held_link held_kern) (held_head held_kern) [- 7, - 3]"
    by (simp add: held_kern_def held_link_def small_kern_def blank_proc_def upd_def)
  have a: "accepts held_kern (- 3)" "\<not> accepts held_kern (- 7)"
    by (auto simp: accepts_def held_kern_def isrxhardware_def)
  have h: "\<forall>r \<in> set [- 7, - 3]. held_task small_config held_kern r"
    by (auto simp: held_task_def held_kern_def istaskp_def small_all)
  have k: "k_reenter held_kern = 0" "\<not> switching held_kern" by (simp_all add: held_kern_def upd_def small_kern_def)
  from unhold_delivers_all [OF ok l _ h k] a show ?thesis by (auto simp: small_lists_def)
qed

end
