(* ===== verification/Kernel_Frame.thy ===== *)
theory Kernel_Frame
  imports Kernel_Held
begin

text \<open>
  What the routines of the kernel leave alone, whatever they are called with: the fields of a
  process that message passing and scheduling never write, and the variables of the kernel
  that only interrupts and the clock change.
\<close>

section \<open>Fields that stay\<close>

definition static :: "proc \<Rightarrow> proc \<Rightarrow> bool" where
  "static p r \<longleftrightarrow> p_priority r = p_priority p \<and> sched_group r = sched_group p \<and> p_map r = p_map p
     \<and> p_stguard r = p_stguard p \<and> p_int_held r = p_int_held p \<and> p_nextheld r = p_nextheld p
     \<and> cpu_estimate r = cpu_estimate p \<and> rr_counter r \<in> {rr_counter p, 0} \<and> wait_ticks r \<in> {wait_ticks p, 0}
     \<and> p_alarm r = p_alarm p"

definition frame :: "kern \<Rightarrow> kern \<Rightarrow> bool" where
  "frame s t \<longleftrightarrow> (\<forall>p. static (procs s p) (procs t p)) \<and> held_head t = held_head s \<and> held_tail t = held_tail s
     \<and> k_reenter t = k_reenter s \<and> (\<not> switching s \<longrightarrow> \<not> switching t) \<and> aging_counter t = aging_counter s"

lemma static_refl [simp]: "static p p"
  by (simp add: static_def)

lemma static_trans: "static p q \<Longrightarrow> static q r \<Longrightarrow> static p r"
  by (auto simp: static_def)

lemma frame_refl [simp]: "frame s s"
  by (simp add: frame_def)

lemma frame_trans [trans]: "frame s t \<Longrightarrow> frame t u \<Longrightarrow> frame s u"
  unfolding frame_def using static_trans by metis

lemma frame_upd:
  assumes "frame s t" and "\<And>r. static r (f r)"
  shows "frame s (upd p f t)"
proof -
  have "static (procs s r) (procs (upd p f t) r)" for r
    using assms static_trans [of "procs s r" "procs t r"] by (simp add: frame_def)
  with assms(1) show ?thesis by (simp add: frame_def upd_def)
qed

lemma frame_sets:
  "frame s t \<Longrightarrow> frame s (set_head q v t)" "frame s t \<Longrightarrow> frame s (set_tail q v t)"
  "frame s t \<Longrightarrow> frame s (t\<lparr>proc_ptr := p\<rparr>)" "frame s t \<Longrightarrow> frame s (t\<lparr>proc_ptr := p, bill_ptr := r\<rparr>)"
  "frame s t \<Longrightarrow> frame s (put_msg c a m t)" "frame s t \<Longrightarrow> frame s (t\<lparr>sig_procs := n\<rparr>)"
  "frame s t \<Longrightarrow> frame s (t\<lparr>q_head := h\<rparr>)" "frame s t \<Longrightarrow> frame s (t\<lparr>q_tail := h\<rparr>)"
  by (simp_all add: frame_def set_head_def set_tail_def put_msg_def)

lemma frame_updates:
  "frame s t \<Longrightarrow> frame s (set_nextready p v t)" "frame s t \<Longrightarrow> frame s (set_flags p g t)"
  "frame s t \<Longrightarrow> frame s (cp_mess c d a e b t)"
  unfolding set_nextready_def set_flags_def cp_mess_def
  by (auto intro!: frame_upd frame_sets simp: static_def)

section \<open>Routines\<close>

text \<open>What holds of the value of a routine, if it gives one. The rules follow the code.\<close>

definition on_Ok :: "'a res \<Rightarrow> ('a \<Rightarrow> bool) \<Rightarrow> bool" where
  "on_Ok m P \<longleftrightarrow> (\<forall>x. m = Ok x \<longrightarrow> P x)"

lemma on_Ok_simps [simp]: "on_Ok (Ok x) P = P x" "on_Ok (Panic e) P" "on_Ok Null_deref P" "on_Ok Hang P"
  by (simp_all add: on_Ok_def)

lemma on_OkI: "(\<And>x. m = Ok x \<Longrightarrow> P x) \<Longrightarrow> on_Ok m P"
  by (simp add: on_Ok_def)

lemma on_OkD: "on_Ok m P \<Longrightarrow> m = Ok x \<Longrightarrow> P x"
  by (simp add: on_Ok_def)

lemma on_Ok_mono: "on_Ok m P \<Longrightarrow> (\<And>x. P x \<Longrightarrow> Q x) \<Longrightarrow> on_Ok m Q"
  by (simp add: on_Ok_def)

lemma on_Ok_bind: "on_Ok m (\<lambda>x. on_Ok (f x) P) \<Longrightarrow> on_Ok (bind_res m f) P"
  unfolding on_Ok_def bind_res_Ok_iff by blast

lemma on_Ok_Ok: "P x \<Longrightarrow> on_Ok (Ok x) P"
  by simp

lemma on_Ok_if: "(b \<Longrightarrow> on_Ok m P) \<Longrightarrow> (\<not> b \<Longrightarrow> on_Ok n P) \<Longrightarrow> on_Ok (if b then m else n) P"
  by simp

lemma on_Ok_option: "(x = None \<Longrightarrow> on_Ok m P) \<Longrightarrow> (\<And>y. x = Some y \<Longrightarrow> on_Ok (f y) P)
    \<Longrightarrow> on_Ok (case x of None \<Rightarrow> m | Some y \<Rightarrow> f y) P"
  by (cases x) simp_all

lemma on_Ok_let: "on_Ok (f x) P \<Longrightarrow> on_Ok (Let x f) P"
  by simp

lemma on_Ok_prod: "on_Ok (f (fst x) (snd x)) P \<Longrightarrow> on_Ok (case x of (a, b) \<Rightarrow> f a b) P"
  by (cases x) simp

lemmas on_Ok_rules = on_Ok_bind on_Ok_Ok on_Ok_if on_Ok_option on_Ok_let on_Ok_prod

lemma frame_if: "(b \<Longrightarrow> frame s t) \<Longrightarrow> (\<not> b \<Longrightarrow> frame s u) \<Longrightarrow> frame s (if b then t else u)"
  by simp

lemma frame_let: "frame s (f x) \<Longrightarrow> frame s (Let x f)"
  by simp

lemmas frame_intros = frame_refl frame_sets frame_updates frame_if frame_let

lemma static_sets [simp]:
  "static r (r\<lparr>wait_ticks := 0\<rparr>)" "static r (r\<lparr>p_nextready := v, rr_counter := 0\<rparr>)"
  by (simp_all add: static_def)

text \<open>A routine is framed if it ends in a state with the same frame.\<close>

definition framed :: "(kern \<Rightarrow> kern res) \<Rightarrow> bool" where
  "framed f \<longleftrightarrow> (\<forall>s. on_Ok (f s) (frame s))"

lemma framedI: "(\<And>s. on_Ok (f s) (frame s)) \<Longrightarrow> framed f"
  by (simp add: framed_def)

lemma framed_call: "framed f \<Longrightarrow> frame s u \<Longrightarrow> (\<And>t. frame s t \<Longrightarrow> P t) \<Longrightarrow> on_Ok (f u) P"
  unfolding framed_def using frame_trans by (metis on_Ok_mono)

lemma framedD: "framed f \<Longrightarrow> f s = Ok t \<Longrightarrow> frame s t"
  by (simp add: framed_def on_Ok_def)

section \<open>The scheduler\<close>

lemma frame_pick_proc: "framed (pick_proc cf)"
  unfolding pick_proc_def
  by (intro framedI on_Ok_rules frame_intros on_OkI [of "max_wait _ _ _ _"] frame_upd static_sets; simp)

lemma frame_enqueue: "framed (enqueue q p)"
  unfolding enqueue_def by (intro framedI on_Ok_rules frame_intros; simp)

lemma frame_insert_sjf: "framed (insert_sjf cf p)"
  unfolding insert_sjf_def
  by (intro framedI on_Ok_rules frame_intros on_OkI [of "find_place _ _ _ _ _"]; simp)

lemma frame_ready: "framed (ready cf p)"
  unfolding ready_def ready_with_group_def
  by (intro framedI on_Ok_rules framed_call [OF frame_enqueue] framed_call [OF frame_insert_sjf] frame_intros; simp)

lemma frame_unlink: "framed (unlink cf q p x)"
  unfolding unlink_def
  by (intro framedI on_Ok_rules frame_intros on_OkI [of "find_pred _ _ _ _"]; simp)

lemma frame_unready_from_group: "framed (unready_from_group cf q p)"
  unfolding unready_from_group_def
  by (intro framedI on_Ok_rules framed_call [OF frame_unlink] frame_intros; simp)

lemma frame_leave:
  "framed (\<lambda>s. case q_head s q of None \<Rightarrow> Ok s
     | Some xp \<Rightarrow> if xp = p then pick_proc cf (set_head q (p_nextready (procs s xp)) s) else unlink cf q p xp s)"
  by (intro framedI on_Ok_rules framed_call [OF frame_unlink] framed_call [OF frame_pick_proc] frame_intros; simp)

lemma frame_leave_task:
  "framed (\<lambda>s. case q_head s TASK_Q of None \<Rightarrow> Ok s
     | Some xp \<Rightarrow> if xp = rp
         then (let s = set_head TASK_Q (p_nextready (procs s xp)) s in if rp = proc_ptr s then pick_proc cf s else Ok s)
         else unlink cf TASK_Q rp xp s)"
proof (rule framedI)
  fix s
  have "on_Ok (if rp = proc_ptr s then pick_proc cf u else Ok u) (frame s)" if "frame s u" for u
    using that by (intro on_Ok_rules framed_call [OF frame_pick_proc]; simp)
  moreover have "on_Ok (unlink cf TASK_Q rp xp s) (frame s)" for xp
    using frame_unlink by (simp add: framed_def)
  ultimately show "on_Ok (case q_head s TASK_Q of None \<Rightarrow> Ok s
     | Some xp \<Rightarrow> if xp = rp
         then (let s = set_head TASK_Q (p_nextready (procs s xp)) s in if rp = proc_ptr s then pick_proc cf s else Ok s)
         else unlink cf TASK_Q rp xp s) (frame s)"
    by (auto simp: Let_def frame_sets split: option.split)
qed

lemma frame_leave_group:
  "framed (\<lambda>s. bind_res (unready_from_group cf q rp s) (\<lambda>s. if rp = proc_ptr s then pick_proc cf s else Ok s))"
  by (intro framedI on_Ok_rules framed_call [OF frame_unready_from_group] framed_call [OF frame_pick_proc] frame_intros; simp)

lemma frame_unready: "framed (unready cf p)"
proof (rule framedI)
  fix s
  show "on_Ok (unready cf p s) (frame s)"
    unfolding unready_def
    using frame_leave [where q = SERVER_Q and p = p and cf = cf] frame_leave [where q = USER_Q and p = p and cf = cf] frame_leave_task [where rp = p and cf = cf]
      frame_leave_group [where q = "group_queue (sched_group (procs s p))" and rp = p and cf = cf]
    unfolding framed_def by (simp del: option.case)
qed

lemma frame_sched: "framed (sched cf)"
  unfolding sched_def
  by (intro framedI on_Ok_rules framed_call [OF frame_pick_proc] frame_intros frame_upd static_sets; simp)

lemma frame_gateway:
  assumes "framed f" shows "framed (gateway f)"
proof (rule framedI, unfold gateway_def, rule on_Ok_bind, rule on_OkI)
  fix s t
  assume "f (s\<lparr>switching := True\<rparr>) = Ok t"
  with assms have "frame (s\<lparr>switching := True\<rparr>) t" by (rule framedD)
  then show "on_Ok (Ok (t\<lparr>switching := False\<rparr>)) (frame s)" by (simp add: frame_def)
qed

lemma frame_lock_pick_proc: "framed (lock_pick_proc cf)"
  unfolding lock_pick_proc_def by (rule frame_gateway) (rule frame_pick_proc)

section \<open>Message passing\<close>

lemma frame_deliver: "framed (deliver cf c d m)"
  unfolding deliver_def
  by (intro framedI on_Ok_rules framed_call [OF frame_ready] frame_intros; simp)

lemma frame_block_sender: "framed (block_sender cf c d m)"
  unfolding block_sender_def
  by (intro framedI on_Ok_rules framed_call [OF frame_unready] frame_intros frame_upd
      on_OkI [of "last_caller _ _ _"]; simp add: static_def)

lemma frame_accept: "framed (accept cf c prv q m)"
  unfolding accept_def
  by (intro framedI on_Ok_rules framed_call [OF frame_ready] frame_intros frame_upd; simp add: static_def)

end
