(* ===== verification/Kernel_Steps.thy ===== *)
theory Kernel_Steps
  imports Kernel_Frame
begin

text \<open>
  The invariant of the running kernel and its single steps: every runnable process is in a
  ready queue, and the processor belongs to a process of the first queue that is not empty.
\<close>

section \<open>Who is queued, who runs\<close>

definition occupied :: "config \<Rightarrow> kern \<Rightarrow> int \<Rightarrow> bool" where
  "occupied cf s p \<longleftrightarrow> p \<in> set (all_procs cf) \<and> \<not> isemptyp (procs s p) \<and> p \<notin> {IDLE, HARDWARE}"

definition queued :: "(queue \<Rightarrow> int list) \<Rightarrow> int \<Rightarrow> bool" where
  "queued Q p \<longleftrightarrow> (\<exists>q. p \<in> set (Q q))"

text \<open>Every runnable process is queued, except perhaps those of \<open>X\<close>; the idle task, the hardware and empty
  slots are not.\<close>

definition cpu_inv :: "config \<Rightarrow> int set \<Rightarrow> kern \<Rightarrow> (queue \<Rightarrow> int list) \<Rightarrow> bool" where
  "cpu_inv cf X s Q \<longleftrightarrow> sched_ok cf s Q
     \<and> (\<forall>p. occupied cf s p \<and> p_flags (procs s p) = {} \<longrightarrow> queued Q p \<or> p \<in> X)
     \<and> (\<forall>p. p \<in> {IDLE, HARDWARE} \<or> isemptyp (procs s p) \<longrightarrow> p_flags (procs s p) = {} \<and> \<not> queued Q p)"

text \<open>The process that should run.\<close>

definition best :: "(queue \<Rightarrow> int list) \<Rightarrow> int \<Rightarrow> bool" where
  "best Q p \<longleftrightarrow> (\<forall>q. Q q = []) \<and> p = IDLE \<or>
     (\<exists>q. p \<in> set (Q q) \<and> (\<forall>q'. Q q' \<noteq> [] \<longrightarrow> q \<le> q') \<and> (q \<noteq> G2 \<longrightarrow> p = hd (Q q)))"

lemma choice_best: "choice s Q p \<Longrightarrow> best Q p"
  unfolding choice_def best_def by blast

lemma lists_unique: "lists_ok s Q \<Longrightarrow> lists_ok s R \<Longrightarrow> Q = R"
  by (rule ext) (rule linked_unique [OF lists_linked lists_linked])

lemma lists_ok_same:
  "nx t = nx s \<Longrightarrow> q_head t = q_head s \<Longrightarrow> q_tail t = q_tail s \<Longrightarrow> lists_ok t Q = lists_ok s Q"
  by (simp add: lists_ok_def)

lemma cpu_invD:
  assumes "cpu_inv cf X s Q"
  shows "sched_ok cf s Q" "lists_ok s Q" "p \<in> {IDLE, HARDWARE} \<Longrightarrow> p_flags (procs s p) = {}"
    "p \<in> {IDLE, HARDWARE} \<Longrightarrow> \<not> queued Q p"
    "p_flags (procs s p) \<noteq> {} \<Longrightarrow> \<not> isemptyp (procs s p)" "queued Q p \<Longrightarrow> \<not> isemptyp (procs s p)"
  using assms by (auto simp: cpu_inv_def sched_ok_def)

lemma occupied_same: "p_priority (procs t p) = p_priority (procs s p) \<Longrightarrow> occupied cf t p = occupied cf s p"
  by (simp add: occupied_def isemptyp_def)

section \<open>Waking up\<close>

definition woken :: "kern \<Rightarrow> int \<Rightarrow> (queue \<Rightarrow> int list) \<Rightarrow> queue \<Rightarrow> int list" where
  "woken s p Q = (let q = belongs (procs s p)
     in if p_flags (procs s p) = {} then Q(q := ready_list s p q (Q q)) else Q)"

lemma set_ready_list: "set (ready_list s p q xs) = insert p (set xs)"
  by (auto simp: ready_list_def sjf_insert_set)

lemma queued_woken: "queued (woken s p Q) r \<longleftrightarrow> queued Q r \<or> r = p \<and> p_flags (procs s p) = {}"
proof -
  have "r \<in> set (woken s p Q q) \<longleftrightarrow> r \<in> set (Q q) \<or> q = belongs (procs s p) \<and> r = p \<and> p_flags (procs s p) = {}" for q
    by (simp add: woken_def Let_def set_ready_list) blast
  then show ?thesis unfolding queued_def by blast
qed

lemma wake_step:
  assumes "cpu_inv cf {p} s Q" and p: "p \<in> set (all_procs cf)" "\<not> queued Q p" "p \<notin> {IDLE, HARDWARE}"
    and e: "\<not> isemptyp (procs s p)"
  shows "\<exists>t. (if p_flags (procs s p) = {} then ready cf p s else Ok s) = Ok t \<and> cpu_inv cf {} t (woken s p Q)
    \<and> only_links s t \<and> proc_ptr t = (if p_flags (procs s p) = {} \<and> istaskp (procs s p) \<and> Q TASK_Q = [] then p else proc_ptr s)"
proof (cases "p_flags (procs s p) = {}")
  case False
  with assms show ?thesis by (auto simp: cpu_inv_def woken_def)
next
  case True
  note sk = cpu_invD(1) [OF assms(1)]
  have nq: "\<And>q. p \<notin> set (Q q)" using p(2) by (auto simp: queued_def)
  have b: "belongs (procs s p) = TASK_Q \<longleftrightarrow> istaskp (procs s p)"
    by (auto simp: belongs_def group_queue_def split: if_splits)
  have w: "woken s p Q = Q(belongs (procs s p) := ready_list s p (belongs (procs s p)) (Q (belongs (procs s p))))"
    using True by (simp add: woken_def Let_def)
  from ready_ok [OF sk p(1) nq True refl] obtain t where t: "ready cf p s = Ok t" "sched_ok cf t (woken s p Q)" "only_links s t"
    "proc_ptr t = (if belongs (procs s p) = TASK_Q \<and> Q (belongs (procs s p)) = [] then p else proc_ptr s)"
    unfolding w by blast
  note sp = only_links_same [OF t(3)]
  have "occupied cf t r = occupied cf s r" "p_flags (procs t r) = p_flags (procs s r)" "isemptyp (procs t r) = isemptyp (procs s r)" for r
    using sp occupied_same [of t r s cf] by (simp_all add: same_procs_def isemptyp_def)
  then have "cpu_inv cf {} t (woken s p Q)"
    using t(2) assms True by (auto simp: cpu_inv_def queued_woken)
  moreover have "proc_ptr t = (if p_flags (procs s p) = {} \<and> istaskp (procs s p) \<and> Q TASK_Q = [] then p else proc_ptr s)"
    unfolding t(4) using b True by (cases "istaskp (procs s p)") simp_all
  ultimately show ?thesis using t(1,3) True by (intro exI [of _ t]) simp
qed

text \<open>Waking a process keeps the best one running, if a task or server runs or the new one is a task.\<close>

lemma woken_nonempty: "p_flags (procs s p) = {} \<Longrightarrow> woken s p Q q = (if q = belongs (procs s p) then ready_list s p q (Q q) else Q q)"
  by (simp add: woken_def Let_def)

lemma task_first: "TASK_Q \<le> q" "SERVER_Q \<le> q \<longleftrightarrow> q \<noteq> TASK_Q"
  by (cases q; simp add: less_eq_queue_def)+

lemma best_first:
  assumes "best Q c"
  shows "Q TASK_Q \<noteq> [] \<Longrightarrow> c = hd (Q TASK_Q) \<and> c \<in> set (Q TASK_Q)"
    and "Q TASK_Q = [] \<Longrightarrow> Q SERVER_Q \<noteq> [] \<Longrightarrow> c = hd (Q SERVER_Q) \<and> c \<in> set (Q SERVER_Q)"
proof -
  assume n: "Q TASK_Q \<noteq> []"
  with assms obtain q where q: "c \<in> set (Q q)" "q \<le> TASK_Q" "q \<noteq> G2 \<longrightarrow> c = hd (Q q)" unfolding best_def by blast
  then have "q = TASK_Q" by (cases q) (simp_all add: less_eq_queue_def)
  with q show "c = hd (Q TASK_Q) \<and> c \<in> set (Q TASK_Q)" by simp
next
  assume e: "Q TASK_Q = []" and n: "Q SERVER_Q \<noteq> []"
  with assms obtain q where q: "c \<in> set (Q q)" "q \<le> SERVER_Q" "q \<noteq> G2 \<longrightarrow> c = hd (Q q)" unfolding best_def by blast
  then have "q = SERVER_Q" using e by (cases q) (auto simp: less_eq_queue_def)
  with q show "c = hd (Q SERVER_Q) \<and> c \<in> set (Q SERVER_Q)" by simp
qed

lemma best_woken:
  assumes b: "best Q c" and c: "c \<in> set (Q TASK_Q) \<or> c \<in> set (Q SERVER_Q) \<or> istaskp (procs s p)"
  shows "best (woken s p Q) (if p_flags (procs s p) = {} \<and> istaskp (procs s p) \<and> Q TASK_Q = [] then p else c)"
proof (cases "p_flags (procs s p) = {}")
  case False
  with b show ?thesis by (simp add: woken_def)
next
  case True
  note w = woken_nonempty [where s = s and p = p, OF True]
  have bt: "belongs (procs s p) = TASK_Q \<longleftrightarrow> istaskp (procs s p)"
    by (auto simp: belongs_def group_queue_def split: if_splits)
  consider (new) "istaskp (procs s p)" "Q TASK_Q = []" | (task) "Q TASK_Q \<noteq> []"
    | (server) "\<not> istaskp (procs s p)" "Q TASK_Q = []" "c \<in> set (Q SERVER_Q)"
    using c by (cases "Q TASK_Q") auto
  then show ?thesis
  proof cases
    case new
    then have "woken s p Q TASK_Q = [p]" using bt w by (simp add: ready_list_def)
    then show ?thesis unfolding best_def using new True
      by (intro disjI2 exI [of _ TASK_Q]) (simp add: task_first)
  next
    case task
    then have "c = hd (Q TASK_Q)" "c \<in> set (Q TASK_Q)" using best_first [OF b] by auto
    moreover have "woken s p Q TASK_Q = Q TASK_Q \<or> woken s p Q TASK_Q = Q TASK_Q @ [p]"
      by (simp add: w ready_list_def)
    ultimately show ?thesis unfolding best_def using task
      by (intro disjI2 exI [of _ TASK_Q]) (auto simp: task_first)
  next
    case server
    then have "c = hd (Q SERVER_Q)" using best_first [OF b] by fastforce
    moreover have "woken s p Q SERVER_Q = Q SERVER_Q \<or> woken s p Q SERVER_Q = Q SERVER_Q @ [p]"
      by (simp add: w ready_list_def)
    moreover have "woken s p Q TASK_Q = []" using server bt w by simp
    ultimately show ?thesis unfolding best_def using server
      by (intro disjI2 exI [of _ SERVER_Q]) (auto simp: task_first hd_append)
  qed
qed

section \<open>Going to sleep\<close>

definition asleep :: "kern \<Rightarrow> int \<Rightarrow> (queue \<Rightarrow> int list) \<Rightarrow> queue \<Rightarrow> int list" where
  "asleep s p Q = (let q = belongs (procs s p) in if p_flags (procs s p) = {} then Q(q := remove1 p (Q q)) else Q)"

lemma belongs_queue: "sched_ok cf s Q \<Longrightarrow> p \<in> set (Q q) \<Longrightarrow> belongs (procs s p) = q"
  by (auto simp: sched_ok_def)

lemma queued_flags: "sched_ok cf s Q \<Longrightarrow> queued Q p \<Longrightarrow> p_flags (procs s p) = {}"
  by (auto simp: sched_ok_def queued_def)

lemma in_asleep:
  assumes "sched_ok cf s Q"
  shows "r \<in> set (asleep s p Q q) \<longleftrightarrow> r \<in> set (Q q) \<and> r \<noteq> p"
proof -
  have d: "distinct (Q q)" using assms queues_distinct by (auto simp: sched_ok_def)
  have "p \<in> set (Q q) \<Longrightarrow> belongs (procs s p) = q \<and> p_flags (procs s p) = {}"
    using assms by (auto simp: sched_ok_def)
  with d show ?thesis by (auto simp: asleep_def Let_def set_remove1_eq)
qed

lemma queued_asleep: "sched_ok cf s Q \<Longrightarrow> queued (asleep s p Q) r \<longleftrightarrow> queued Q r \<and> r \<noteq> p"
  by (simp add: queued_def in_asleep)

text \<open>If the best process is not the one that goes, it stays the best.\<close>

lemma best_asleep:
  assumes sk: "sched_ok cf s Q" and b: "best Q c" and n: "c \<noteq> p"
  shows "best (asleep s p Q) c"
proof (cases "\<forall>q. Q q = []")
  case True
  then have "asleep s p Q = Q" by (auto simp: asleep_def Let_def fun_eq_iff)
  with b show ?thesis by simp
next
  case False
  with b obtain q where q: "c \<in> set (Q q)" "\<forall>q'. Q q' \<noteq> [] \<longrightarrow> q \<le> q'" "q \<noteq> G2 \<longrightarrow> c = hd (Q q)"
    unfolding best_def by blast
  have "c \<in> set (asleep s p Q q)" using q(1) n in_asleep [OF sk] by blast
  moreover have "asleep s p Q q' \<noteq> [] \<longrightarrow> Q q' \<noteq> []" for q'
    by (auto simp: asleep_def Let_def)
  moreover have "c = hd (asleep s p Q q)" if "q \<noteq> G2"
  proof -
    have "c = hd (Q q)" using q(3) that by blast
    then obtain xs where "Q q = c # xs" using q(1) by (cases "Q q") auto
    then show ?thesis using n by (cases "q = belongs (procs s p)") (auto simp: asleep_def Let_def)
  qed
  ultimately show ?thesis unfolding best_def using q(2) by blast
qed

text \<open>Is \<open>p\<close> where \<open>unready\<close> chooses another process for it?\<close>

definition in_front :: "(queue \<Rightarrow> int list) \<Rightarrow> int \<Rightarrow> bool" where
  "in_front Q p \<longleftrightarrow> (\<exists>q. p \<in> set (Q q) \<and> (q \<noteq> G2 \<longrightarrow> p = hd (Q q)))"

lemma best_in_front: "best Q p \<Longrightarrow> queued Q p \<Longrightarrow> in_front Q p"
  unfolding best_def in_front_def queued_def by auto

lemma sleep_step:
  assumes iv: "cpu_inv cf X s Q" and g: "istaskp (procs s p) \<Longrightarrow> p_stguard (procs s p) = STACK_GUARD"
  shows "\<exists>t. (if p_flags (procs s p) = {} then unready cf p s else Ok s) = Ok t \<and> cpu_inv cf (insert p X) t (asleep s p Q)
    \<and> same_procs s t \<and> frame s t \<and> (best Q (proc_ptr s) \<longrightarrow> best (asleep s p Q) (proc_ptr t))
    \<and> (p = proc_ptr s \<and> in_front Q p \<longrightarrow> best (asleep s p Q) (proc_ptr t))"
proof (cases "p_flags (procs s p) = {}")
  case False
  then have "asleep s p Q = Q" by (simp add: asleep_def Let_def)
  moreover have "\<not> in_front Q p" using False queued_flags [OF cpu_invD(1) [OF iv], of p]
    unfolding in_front_def queued_def by blast
  ultimately show ?thesis using False iv by (auto simp: cpu_inv_def)
next
  case True
  note sk = cpu_invD(1) [OF iv]
  let ?q = "belongs (procs s p)"
  have a: "asleep s p Q = Q(?q := remove1 p (Q ?q))" using True by (simp add: asleep_def Let_def)
  from unready_ok [OF sk g refl] obtain t where t: "unready cf p s = Ok t" "sched_ok cf t (asleep s p Q)" "same_procs s t"
    "proc_ptr t = proc_ptr s \<or> choice s (asleep s p Q) (proc_ptr t)"
    "p = proc_ptr s \<and> p \<in> set (Q ?q) \<and> (?q \<in> {G1, G2, G3} \<or> p = hd (Q ?q)) \<longrightarrow> choice s (asleep s p Q) (proc_ptr t)"
    unfolding a by blast
  have r: "occupied cf t r = occupied cf s r" "p_flags (procs t r) = p_flags (procs s r)" "isemptyp (procs t r) = isemptyp (procs s r)" for r
    using t(3) occupied_same [of t r s cf] by (simp_all add: same_procs_def isemptyp_def)
  have "cpu_inv cf (insert p X) t (asleep s p Q)"
    using iv t(2) unfolding cpu_inv_def r queued_asleep [OF sk] by blast
  moreover have front: "best (asleep s p Q) (proc_ptr t)" if cur: "p = proc_ptr s" and fr: "in_front Q p"
  proof -
    obtain q where q: "p \<in> set (Q q)" "q \<noteq> G2 \<longrightarrow> p = hd (Q q)" using fr by (auto simp: in_front_def)
    then have "q = ?q" using belongs_queue [OF sk] by simp
    then have "choice s (asleep s p Q) (proc_ptr t)" using t(5) q cur by blast
    then show ?thesis by (rule choice_best)
  qed
  moreover have "best (asleep s p Q) (proc_ptr t)" if b: "best Q (proc_ptr s)"
  proof (cases "p = proc_ptr s \<and> queued Q p")
    case True
    then have "in_front Q p" using b best_in_front by blast
    with True front show ?thesis by blast
  next
    case False
    have "best (asleep s p Q) (proc_ptr s)"
    proof (cases "p = proc_ptr s")
      case True
      with False have "asleep s p Q = Q" unfolding a queued_def by (simp add: fun_eq_iff remove1_idem)
      with b show ?thesis by simp
    next
      case False
      with best_asleep [OF sk b, of p] show ?thesis by simp
    qed
    with t(4) choice_best show ?thesis by auto
  qed
  ultimately show ?thesis using t(1,3) True framedD [OF frame_unready t(1)] by auto
qed

text \<open>Writing to a process that is in no queue.\<close>

lemma cpu_inv_upd:
  assumes "cpu_inv cf X s Q" and "\<not> queued Q p" and "p \<notin> {IDLE, HARDWARE}" and "\<And>r. p_priority (f r) = p_priority r"
    and "p_flags (f (procs s p)) \<noteq> {} \<or> p \<in> Y" and "X \<subseteq> insert p Y" and "\<not> isemptyp (procs s p)"
  shows "cpu_inv cf Y (upd p f s) Q"
proof -
  have "\<And>q. p \<notin> set (Q q)" using assms(2) by (simp add: queued_def)
  then have "sched_ok cf (upd p f s) Q = sched_ok cf s Q" by (rule sched_ok_upd_other)
  moreover have "occupied cf (upd p f s) r = occupied cf s r" for r
    using assms(4) occupied_same [of "upd p f s" r s cf] by simp
  moreover have "isemptyp (procs (upd p f s) r) = isemptyp (procs s r)" for r using assms(4) by (simp add: isemptyp_def)
  ultimately show ?thesis using assms unfolding cpu_inv_def by (auto split: if_splits)
qed

lemma cpu_inv_upd_same:
  assumes "\<And>r. p_nextready (f r) = p_nextready r \<and> p_flags (f r) = p_flags r \<and> p_priority (f r) = p_priority r
    \<and> sched_group (f r) = sched_group r \<and> cpu_estimate (f r) = cpu_estimate r"
  shows "cpu_inv cf X (upd p f s) Q = cpu_inv cf X s Q"
proof -
  have "sched_ok cf (upd p f s) Q = sched_ok cf s Q" using assms by (rule sched_ok_upd_same)
  moreover have "occupied cf (upd p f s) r = occupied cf s r" "p_flags (procs (upd p f s) r) = p_flags (procs s r)"
    "isemptyp (procs (upd p f s) r) = isemptyp (procs s r)" for r
    using assms occupied_same [of "upd p f s" r s cf] by (simp_all add: isemptyp_def)
  ultimately show ?thesis unfolding cpu_inv_def by presburger
qed

lemma cpu_inv_msgs [simp]: "cpu_inv cf X (put_msg c a m s) Q = cpu_inv cf X s Q"
  by (simp add: cpu_inv_def occupied_def)

end
