(* ===== verification/Kernel_Calls.thy ===== *)
theory Kernel_Calls
  imports Kernel_Steps
begin

text \<open>
  System calls keep the invariant of the running kernel: the queues, the absence of deadlock,
  and that the processor goes to the right process.
\<close>

section \<open>The invariant\<close>

text \<open>What is fixed when the system starts: the two servers, the clock task, the stack guards of the tasks, and that the
  buffer \<open>sm\<close> of the system task lies in the memory of the kernel.\<close>

definition roles :: "config \<Rightarrow> 32 word \<Rightarrow> kern \<Rightarrow> bool" where
  "roles cf sm s \<longleftrightarrow> MM_PROC_NR cf \<in> set (all_procs cf) \<and> FS_PROC_NR cf \<in> set (all_procs cf) \<and> ANY \<notin> set (all_procs cf)
     \<and> isservp (procs s (MM_PROC_NR cf)) \<and> isservp (procs s (FS_PROC_NR cf))
     \<and> MM_PROC_NR cf \<notin> {IDLE, HARDWARE} \<and> FS_PROC_NR cf \<notin> {IDLE, HARDWARE} \<and> {IDLE, HARDWARE} \<subseteq> set (all_procs cf)
     \<and> CLOCK \<in> set (all_procs cf) \<and> istaskp (procs s CLOCK)
     \<and> \<not> isuserp (procs s IDLE) \<and> \<not> isuserp (procs s HARDWARE) \<and> \<not> istaskp (procs s IDLE)
     \<and> (\<forall>p. istaskp (procs s p) \<longrightarrow> p_stguard (procs s p) = STACK_GUARD) \<and> msg_in_range cf (procs s HARDWARE) sm"

text \<open>Tasks are only blocked on messages, the memory manager does not wait for messages from all while it
  sends, and a process with a signal to be told of is not runnable.\<close>

definition flags_ok :: "config \<Rightarrow> kern \<Rightarrow> bool" where
  "flags_ok cf s \<longleftrightarrow> (\<forall>p. istaskp (procs s p) \<longrightarrow> p_flags (procs s p) \<subseteq> {SENDING, RECEIVING})
     \<and> (RECEIVING \<in> p_flags (procs s (MM_PROC_NR cf)) \<and> p_getfrom (procs s (MM_PROC_NR cf)) = ANY
          \<longrightarrow> SENDING \<notin> p_flags (procs s (MM_PROC_NR cf)))
     \<and> (\<forall>p. PENDING \<in> p_flags (procs s p) \<longrightarrow> SIG_PENDING \<in> p_flags (procs s p))"

definition kinv :: "config \<Rightarrow> 32 word \<Rightarrow> kern \<Rightarrow> (queue \<Rightarrow> int list) \<Rightarrow> (int \<Rightarrow> int list) \<Rightarrow> bool" where
  "kinv cf sm s Q C \<longleftrightarrow> ipc_ok cf s Q C \<and> cpu_inv cf {} s Q \<and> flags_ok cf s \<and> roles cf sm s"

lemma roles_frame:
  assumes "frame s t" shows "roles cf sm t = roles cf sm s"
proof -
  have "p_priority (procs t p) = p_priority (procs s p) \<and> p_stguard (procs t p) = p_stguard (procs s p)
      \<and> p_map (procs t p) = p_map (procs s p)" for p
    using assms by (simp add: frame_def static_def)
  then show ?thesis
    by (simp add: roles_def isservp_def isuserp_def istaskp_def msg_in_range_def)
qed

lemma flags_ok_change:
  assumes "flags_ok cf s" and "frame s t"
    and "\<And>p. p_flags (procs t p) = (if p = d then F else p_flags (procs s p))"
    and "\<And>p. p \<noteq> d \<or> F \<subseteq> p_flags (procs s d) \<Longrightarrow> p_getfrom (procs t p) = p_getfrom (procs s p)"
    and "istaskp (procs s d) \<Longrightarrow> F \<subseteq> {SENDING, RECEIVING}"
    and "d = MM_PROC_NR cf \<Longrightarrow> RECEIVING \<in> F \<Longrightarrow> p_getfrom (procs t d) = ANY \<Longrightarrow> SENDING \<notin> F"
    and "PENDING \<in> F \<Longrightarrow> SIG_PENDING \<in> F"
  shows "flags_ok cf t"
proof -
  have k: "istaskp (procs t p) = istaskp (procs s p)" for p
    using assms(2) by (simp add: frame_def static_def istaskp_def)
  show ?thesis using assms(1,3-7) unfolding flags_ok_def k by auto
qed

text \<open>The process runs at the level of tasks or servers.\<close>

definition heavy :: "(queue \<Rightarrow> int list) \<Rightarrow> int \<Rightarrow> bool" where
  "heavy Q c \<longleftrightarrow> c \<in> set (Q TASK_Q) \<or> c \<in> set (Q SERVER_Q)"

section \<open>Sending\<close>

lemma deliver_step:
  assumes iv: "kinv cf sm s Q C" and d: "d \<in> set (all_procs cf)" and r: "receiving_from s d c"
  shows "\<exists>t R. deliver cf c d m s = Ok t \<and> kinv cf sm t R C \<and> frame s t
    \<and> (best Q (proc_ptr s) \<and> heavy Q (proc_ptr s) \<longrightarrow> best R (proc_ptr t))
    \<and> (\<not> istaskp (procs s d) \<longrightarrow> proc_ptr t = proc_ptr s) \<and> (\<forall>q. q \<noteq> belongs (procs s d) \<longrightarrow> R q = Q q)
    \<and> (\<forall>p. queued Q p \<longrightarrow> queued R p)
    \<and> (\<forall>p. p_flags (procs t p) = (if p = d then p_flags (procs s d) - {RECEIVING} else p_flags (procs s p)))
    \<and> (\<forall>p. p_getfrom (procs t p) = p_getfrom (procs s p)) \<and> (\<forall>p. p_pending (procs t p) = p_pending (procs s p))"
proof -
  let ?v = "set_flags d (\<lambda>f. f - {RECEIVING}) (cp_mess c c m d (p_messbuf (procs s d)) s)"
  have rec: "RECEIVING \<in> p_flags (procs s d)" using r by (auto simp: receiving_from_def)
  have ok: "ipc_ok cf s Q C" and ci: "cpu_inv cf {} s Q" and fo: "flags_ok cf s" and ro: "roles cf sm s"
    using iv by (simp_all add: kinv_def)
  have nq: "\<not> queued Q d" using queued_flags [OF cpu_invD(1) [OF ci], of d] rec by auto
  have nd: "d \<notin> {IDLE, HARDWARE}" using cpu_invD(3) [OF ci, of d] rec by auto
  have ne: "\<not> isemptyp (procs s d)" by (rule cpu_invD(5) [OF ci]) (use rec in auto)
  have cv: "cpu_inv cf {d} ?v Q" unfolding set_flags_def
    by (rule cpu_inv_upd [where X = "{}"]) (use ci nq nd ne in \<open>simp_all add: cp_mess_def isemptyp_def\<close>)
  have "\<not> isemptyp (procs ?v d)" using ne by (simp add: isemptyp_def)
  from wake_step [OF cv d nq nd this] obtain t where t: "(if p_flags (procs ?v d) = {} then ready cf d ?v else Ok ?v) = Ok t"
    "cpu_inv cf {} t (woken ?v d Q)" "only_links ?v t"
    "proc_ptr t = (if p_flags (procs ?v d) = {} \<and> istaskp (procs ?v d) \<and> Q TASK_Q = [] then d else proc_ptr ?v)" by blast
  have e: "deliver cf c d m s = Ok t" using t(1) by (simp add: deliver_def Let_def)
  from deliver_ok [OF ok d r, of m] e obtain Q' where q': "ipc_ok cf t Q' C" by auto
  then have "Q' = woken ?v d Q" using lists_unique cpu_invD(2) [OF t(2)] by (auto simp: ipc_ok_def sched_ok_def)
  with q' have ti: "ipc_ok cf t (woken ?v d Q) C" by simp
  have fr: "frame s t" by (rule framedD [OF frame_deliver e])
  have fl: "p_flags (procs t p) = (if p = d then p_flags (procs s d) - {RECEIVING} else p_flags (procs s p))"
    "p_getfrom (procs t p) = p_getfrom (procs s p)" "p_pending (procs t p) = p_pending (procs s p)" for p
    using only_links_same [OF t(3)] by (simp_all add: same_procs_def)
  have "flags_ok cf t"
    by (rule flags_ok_change [OF fo fr fl(1)]) (use fl(2) fo in \<open>auto simp: flags_ok_def\<close>)
  then have kt: "kinv cf sm t (woken ?v d Q) C" using ti t(2) roles_frame [OF fr] ro by (simp add: kinv_def)
  have bd: "belongs (procs ?v d) = belongs (procs s d)"
    by (simp add: belongs_def istaskp_def isservp_def in_group_def isuserp_def)
  have "best (woken ?v d Q) (proc_ptr t)" if "best Q (proc_ptr s)" "heavy Q (proc_ptr s)"
    unfolding t(4) by (rule best_woken) (use that in \<open>auto simp: heavy_def\<close>)
  moreover have "\<forall>q. q \<noteq> belongs (procs s d) \<longrightarrow> woken ?v d Q q = Q q"
    unfolding woken_def Let_def bd by simp
  moreover have "\<not> istaskp (procs s d) \<longrightarrow> proc_ptr t = proc_ptr s" using t(4) by (simp add: istaskp_def)
  moreover have "\<forall>p. queued Q p \<longrightarrow> queued (woken ?v d Q) p" by (simp add: queued_woken)
  ultimately show ?thesis using e kt fr fl by blast
qed

lemma field_upd:
  "(\<And>r. p_flags (f r) = p_flags r) \<Longrightarrow> p_flags (procs (upd p f s) r) = p_flags (procs s r)"
  "(\<And>r. p_getfrom (f r) = p_getfrom r) \<Longrightarrow> p_getfrom (procs (upd p f s) r) = p_getfrom (procs s r)"
  "(\<And>r. p_sendto (f r) = p_sendto r) \<Longrightarrow> p_sendto (procs (upd p f s) r) = p_sendto (procs s r)"
  by simp_all

text \<open>What blocking a sender does to the processor.\<close>

lemma block_sender_cpu:
  assumes iv: "kinv cf sm s Q C" and f: "p_flags (procs s c) = {}" and n: "c \<notin> {IDLE, HARDWARE}"
    and e0: "\<not> isemptyp (procs s c)" and e: "block_sender cf c d m s = Ok t"
  shows "cpu_inv cf {} t (asleep s c Q) \<and> (best Q (proc_ptr s) \<longrightarrow> best (asleep s c Q) (proc_ptr t))
    \<and> (\<forall>p. p_flags (procs t p) = (if p = c then {SENDING} else p_flags (procs s p)))
    \<and> (\<forall>p. p_getfrom (procs t p) = p_getfrom (procs s p))"
proof -
  let ?s1 = "upd c (\<lambda>p. p\<lparr>p_messbuf := m\<rparr>) s"
  have ci: "cpu_inv cf {} s Q" and ro: "roles cf sm s" using iv by (simp_all add: kinv_def)
  have c1: "cpu_inv cf {} ?s1 Q" using ci by (simp add: cpu_inv_upd_same)
  have g: "istaskp (procs ?s1 c) \<Longrightarrow> p_stguard (procs ?s1 c) = STACK_GUARD" using ro by (simp add: roles_def istaskp_def)
  have a: "asleep ?s1 c Q = asleep s c Q"
    by (simp add: asleep_def belongs_def istaskp_def isservp_def in_group_def isuserp_def)
  from sleep_step [OF c1 g] obtain u where u: "(if p_flags (procs ?s1 c) = {} then unready cf c ?s1 else Ok ?s1) = Ok u"
    "cpu_inv cf {c} u (asleep s c Q)" "same_procs ?s1 u" "best Q (proc_ptr s) \<longrightarrow> best (asleep s c Q) (proc_ptr u)"
    unfolding a by auto
  let ?s2 = "upd c (\<lambda>p. p\<lparr>p_flags := insert SENDING (p_flags p), p_sendto := d\<rparr>) u"
  have nq: "\<not> queued (asleep s c Q) c" using queued_asleep [OF cpu_invD(1) [OF ci]] by blast
  have ne: "\<not> isemptyp (procs u c)" using u(3) e0 by (simp add: same_procs_def isemptyp_def)
  have c2: "cpu_inv cf {} ?s2 (asleep s c Q)"
    by (rule cpu_inv_upd [OF u(2) nq n _ _ _ ne]) simp_all
  define head where "head = (\<lambda>p :: proc. p\<lparr>p_callerq := Some c\<rparr>)"
  define link where "link = (\<lambda>p :: proc. p\<lparr>p_sendlink := Some c\<rparr>)"
  define last where "last = (\<lambda>p :: proc. p\<lparr>p_sendlink := None\<rparr>)"
  have "bind_res (case p_callerq (procs ?s2 d) of None \<Rightarrow> Ok (upd d head ?s2)
      | Some q \<Rightarrow> bind_res (last_caller (Suc (slots cf)) ?s2 q) (\<lambda>q. Ok (upd q link ?s2))) (\<lambda>s. Ok (upd c last s)) = Ok t"
    using e unfolding block_sender_def Let_def u(1) bind_res.simps(1) head_def link_def last_def .
  then obtain q where q: "t = upd c last (upd d head ?s2) \<or> t = upd c last (upd q link ?s2)"
    by (cases "p_callerq (procs ?s2 d)") (auto simp only: option.case bind_res.simps bind_res_Ok_iff res.inject)
  note fld = head_def link_def last_def
  have fs: "p_flags (procs u p) = p_flags (procs s p)" "p_getfrom (procs u p) = p_getfrom (procs s p)" for p
    using u(3) by (simp_all add: same_procs_def)
  have "cpu_inv cf {} t (asleep s c Q)" using q c2 by (auto simp: cpu_inv_upd_same fld)
  moreover have "proc_ptr t = proc_ptr u" using q by auto
  moreover have "p_flags (procs t p) = p_flags (procs ?s2 p)" "p_getfrom (procs t p) = p_getfrom (procs ?s2 p)" for p
    using q by (auto simp: field_upd fld simp del: upd_sel)
  then have "p_flags (procs t p) = (if p = c then {SENDING} else p_flags (procs s p))"
    "p_getfrom (procs t p) = p_getfrom (procs s p)" for p
    using fs f by simp_all
  ultimately show ?thesis using u(4) by simp
qed

lemma block_step:
  assumes iv: "kinv cf sm s Q C" and c: "c \<in> set (all_procs cf)" "p_flags (procs s c) = {}" "c \<notin> {IDLE, HARDWARE}"
    "\<not> isemptyp (procs s c)" and x: "linked (waits_for s) (Some d) xs" "c \<notin> set xs"
  shows "\<exists>t R. block_sender cf c d m s = Ok t \<and> kinv cf sm t R (C(d := C d @ [c])) \<and> frame s t
    \<and> (best Q (proc_ptr s) \<longrightarrow> best R (proc_ptr t))
    \<and> (\<forall>p. p_flags (procs t p) = (if p = c then {SENDING} else p_flags (procs s p)))
    \<and> (\<forall>p. p_getfrom (procs t p) = p_getfrom (procs s p))"
proof -
  have ok: "ipc_ok cf s Q C" and fo: "flags_ok cf s" and ro: "roles cf sm s" using iv by (simp_all add: kinv_def)
  have g: "istaskp (procs s c) \<Longrightarrow> p_stguard (procs s c) = STACK_GUARD" using ro by (simp add: roles_def)
  from block_sender_ok [OF ok c(1) _ g x, of m] c(2) obtain t Q' where t: "block_sender cf c d m s = Ok t"
    "ipc_ok cf t Q' (C(d := C d @ [c]))" by auto
  note b = block_sender_cpu [OF iv c(2-4) t(1)]
  have l: "lists_ok t Q'" using t(2) by (simp add: ipc_ok_def sched_ok_def)
  have ct: "cpu_inv cf {} t (asleep s c Q)" using b by blast
  have "Q' = asleep s c Q" by (rule lists_unique [OF l cpu_invD(2) [OF ct]])
  moreover have fr: "frame s t" by (rule framedD [OF frame_block_sender t(1)])
  moreover have "flags_ok cf t"
    by (rule flags_ok_change [OF fo fr, of c "{SENDING}"]) (use b in blast)+
  ultimately have "kinv cf sm t (asleep s c Q) (C(d := C d @ [c]))"
    using t(2) b roles_frame [OF fr] ro by (simp add: kinv_def)
  with t(1) fr b show ?thesis by blast
qed

lemma ipc_keep:
  assumes "ipc_ok cf s Q C" and "sched_ok cf t R" and "\<And>p. p_flags (procs t p) \<inter> {SENDING} = p_flags (procs s p) \<inter> {SENDING}"
    and "\<And>p. p_sendto (procs t p) = p_sendto (procs s p) \<and> p_sendlink (procs t p) = p_sendlink (procs s p)
      \<and> p_callerq (procs t p) = p_callerq (procs s p)"
  shows "ipc_ok cf t R C"
proof -
  have "SENDING \<in> p_flags (procs t p) \<longleftrightarrow> SENDING \<in> p_flags (procs s p)" for p using assms(3) [of p] by blast
  then have "waits_for t = waits_for s" "link_of t = link_of s"
    using assms(4) by (auto simp: waits_for_def link_of_def fun_eq_iff)
  then show ?thesis using assms(1,2,4) callers_ok_frame [of t s C] no_deadlock_frame [of t s cf] by (simp add: ipc_ok_def)
qed

text \<open>A step of the scheduler that only moves processes within their queues.\<close>

lemma kinv_sched:
  assumes iv: "kinv cf sm s Q C" and t: "sched_ok cf t R" "same_procs s t" "frame s t" and q: "\<And>p. queued R p = queued Q p"
  shows "kinv cf sm t R C"
proof -
  have k: "p_flags (procs t p) = p_flags (procs s p)" "p_getfrom (procs t p) = p_getfrom (procs s p)"
    "p_sendto (procs t p) = p_sendto (procs s p) \<and> p_sendlink (procs t p) = p_sendlink (procs s p)
      \<and> p_callerq (procs t p) = p_callerq (procs s p)" "p_priority (procs t p) = p_priority (procs s p)" for p
    using t(2) by (simp_all add: same_procs_def)
  have "ipc_ok cf t R C" by (rule ipc_keep [OF _ t(1)]) (use iv k in \<open>auto simp: kinv_def\<close>)
  moreover have "cpu_inv cf {} t R"
    using iv t(1) unfolding kinv_def cpu_inv_def k q occupied_def isemptyp_def by blast
  moreover have "flags_ok cf t" using iv unfolding kinv_def flags_ok_def k istaskp_def by blast
  ultimately show ?thesis using iv roles_frame [OF t(3)] by (simp add: kinv_def)
qed

lemma kinv_vars [simp]:
  "kinv cf sm (put_msg c a m s) Q C = kinv cf sm s Q C" "kinv cf sm (s\<lparr>sig_procs := n\<rparr>) Q C = kinv cf sm s Q C"
  "kinv cf sm (s\<lparr>switching := b\<rparr>) Q C = kinv cf sm s Q C"
proof -
  have v: "kinv cf sm t Q C = kinv cf sm s Q C"
    if "procs t = procs s" "q_head t = q_head s" "q_tail t = q_tail s" for t
  proof -
    have "sched_ok cf t Q = sched_ok cf s Q" unfolding sched_ok_def lists_ok_def nx_def that ..
    moreover have "callers_ok t C = callers_ok s C" "no_deadlock cf t = no_deadlock cf s"
      unfolding callers_ok_def no_deadlock_def waits_for_def [abs_def] link_of_def [abs_def] that by (rule refl)+
    ultimately show ?thesis
      unfolding kinv_def ipc_ok_def cpu_inv_def flags_ok_def roles_def occupied_def that by simp
  qed
  show "kinv cf sm (put_msg c a m s) Q C = kinv cf sm s Q C" "kinv cf sm (s\<lparr>sig_procs := n\<rparr>) Q C = kinv cf sm s Q C"
    "kinv cf sm (s\<lparr>switching := b\<rparr>) Q C = kinv cf sm s Q C"
    by (rule v; simp)+
qed

text \<open>The scheduler chooses the best process.\<close>

lemma pick_step:
  assumes iv: "kinv cf sm s Q C"
  shows "\<exists>t. lock_pick_proc cf s = Ok t \<and> kinv cf sm t Q C \<and> frame s t \<and> best Q (proc_ptr t)
    \<and> (\<forall>p. p_flags (procs t p) = p_flags (procs s p) \<and> p_pending (procs t p) = p_pending (procs s p))"
proof -
  let ?s = "s\<lparr>switching := True\<rparr>"
  have iv': "kinv cf sm ?s Q C" using iv by simp
  then have sk: "sched_ok cf ?s Q" by (simp add: kinv_def ipc_ok_def)
  then have l: "lists_ok ?s Q" by (simp add: sched_ok_def)
  from pick_proc_lists [OF l sched_ok_length [OF sk]] obtain t where t: "pick_proc cf ?s = Ok t" "lists_ok t Q"
    "same_procs ?s t" "choice ?s Q (proc_ptr t)" by blast
  have so: "sched_ok cf t Q"
    using sk t(2,3) by (rule sched_ok_step) (use sk in \<open>auto simp: sched_ok_def\<close>)
  have "kinv cf sm t Q C" by (rule kinv_sched [OF iv' so t(3) framedD [OF frame_pick_proc t(1)]]) simp
  moreover have "lock_pick_proc cf s = Ok (t\<lparr>switching := False\<rparr>)"
    using t(1) by (simp add: lock_pick_proc_def gateway_def)
  moreover have "p_flags (procs t p) = p_flags (procs s p) \<and> p_pending (procs t p) = p_pending (procs s p)" for p
    using t(3) by (simp add: same_procs_def)
  ultimately show ?thesis using choice_best [OF t(4)] framedD [OF frame_lock_pick_proc] by fastforce
qed

end
