(* ===== verification/Kernel_Inform.thy ===== *)
theory Kernel_Inform
  imports Kernel_Calls
begin

text \<open>
  Receiving, telling the memory manager about signals, and causing them: they keep the
  invariant of the running kernel.
\<close>

section \<open>Telling the memory manager\<close>

text \<open>The message from the hardware to the memory manager that waits for any message is delivered.\<close>

lemma inform_send:
  assumes iv: "kinv cf sm s Q C" and w: "RECEIVING \<in> p_flags (procs s (MM_PROC_NR cf))" "p_getfrom (procs s (MM_PROC_NR cf)) = ANY"
  shows "\<exists>t R. lock_mini_send cf HARDWARE (MM_PROC_NR cf) sm s = Ok (OK, t) \<and> kinv cf sm t R C \<and> frame s t
    \<and> (\<forall>p. p \<noteq> MM_PROC_NR cf \<longrightarrow> p_flags (procs t p) = p_flags (procs s p))
    \<and> p_flags (procs t (MM_PROC_NR cf)) = p_flags (procs s (MM_PROC_NR cf)) - {RECEIVING}
    \<and> (\<forall>p. p_pending (procs t p) = p_pending (procs s p))"
proof -
  let ?mm = "MM_PROC_NR cf" and ?s = "s\<lparr>switching := True\<rparr>"
  have iv': "kinv cf sm ?s Q C" using iv by simp
  have fo: "flags_ok cf s" and ro: "roles cf sm s" using iv by (simp_all add: kinv_def)
  have ns: "SENDING \<notin> p_flags (procs s ?mm)" using fo w by (simp add: flags_ok_def)
  have rf: "receiving_from ?s ?mm HARDWARE" using w ns by (auto simp: receiving_from_def)
  have mm: "?mm \<in> set (all_procs cf)" using ro by (simp add: roles_def)
  have sel: "procs ?s = procs s" by simp
  from deliver_step [OF iv' mm rf, of sm, unfolded sel] obtain t R where t: "deliver cf HARDWARE ?mm sm ?s = Ok t"
    "kinv cf sm t R C" "frame ?s t"
    "\<forall>p. p_flags (procs t p) = (if p = ?mm then p_flags (procs s ?mm) - {RECEIVING} else p_flags (procs s p))"
    "\<forall>p. p_pending (procs t p) = p_pending (procs s p)" by blast
  have "\<not> isuserp (procs s HARDWARE)" "\<not> isemptyp (procs s ?mm)" "msg_in_range cf (procs s HARDWARE) sm"
    using ro by (auto simp: roles_def isservp_def isemptyp_def)
  then have "mini_send cf HARDWARE ?mm sm ?s = Ok (OK, t)"
    using t(1) rf ns by (simp add: mini_send_def)
  then have "lock_mini_send cf HARDWARE ?mm sm s = Ok (OK, t\<lparr>switching := False\<rparr>)" by (simp add: lock_mini_send_def)
  moreover have "frame s (t\<lparr>switching := False\<rparr>)" using t(3) by (simp add: frame_def)
  ultimately show ?thesis using t(2,4,5) by (intro exI [of _ "t\<lparr>switching := False\<rparr>"] exI [of _ R]) simp
qed

text \<open>The same processes wait for a message, apart from the memory manager; no process but \<open>c\<close> is stopped
  or has new signals; processes with a signal keep their mark.\<close>

definition same_waiting :: "config \<Rightarrow> int \<Rightarrow> kern \<Rightarrow> kern \<Rightarrow> bool" where
  "same_waiting cf c s t \<longleftrightarrow> (\<forall>p. p \<noteq> MM_PROC_NR cf \<longrightarrow> (RECEIVING \<in> p_flags (procs t p) \<longleftrightarrow> RECEIVING \<in> p_flags (procs s p)))
     \<and> (\<forall>p. p \<noteq> c \<and> p_flags (procs s p) = {} \<longrightarrow> p_flags (procs t p) = {})
     \<and> (\<forall>p. p \<noteq> c \<longrightarrow> p_pending (procs t p) \<subseteq> p_pending (procs s p))
     \<and> (\<forall>p. SIG_PENDING \<in> p_flags (procs s p) \<longrightarrow> SIG_PENDING \<in> p_flags (procs t p))"

lemma same_waiting_trans: "same_waiting cf c s t \<Longrightarrow> same_waiting cf c t u \<Longrightarrow> same_waiting cf c s u"
  unfolding same_waiting_def by blast

text \<open>Flags of a process that stays blocked.\<close>

lemma kinv_flags:
  assumes iv: "kinv cf sm s Q C" and f: "\<And>r. static r (f r) \<and> p_sendto (f r) = p_sendto r \<and> p_sendlink (f r) = p_sendlink r
      \<and> p_callerq (f r) = p_callerq r \<and> p_getfrom (f r) = p_getfrom r"
    and F: "p_flags (f (procs s p)) = F" "F \<noteq> {}" "F \<inter> {SENDING, RECEIVING} = p_flags (procs s p) \<inter> {SENDING, RECEIVING}"
    and pre: "p_flags (procs s p) \<noteq> {}" "istaskp (procs s p) \<Longrightarrow> F \<subseteq> {SENDING, RECEIVING}" "PENDING \<in> F \<Longrightarrow> SIG_PENDING \<in> F"
  shows "kinv cf sm (upd p f s) Q C"
proof -
  have ok: "ipc_ok cf s Q C" and ci: "cpu_inv cf {} s Q" and fo: "flags_ok cf s" and ro: "roles cf sm s"
    using iv by (simp_all add: kinv_def)
  have nq: "\<not> queued Q p" using queued_flags [OF cpu_invD(1) [OF ci], of p] pre(1) by auto
  have np: "p \<notin> {IDLE, HARDWARE}" using cpu_invD(3) [OF ci, of p] pre(1) by auto
  have ne: "\<not> isemptyp (procs s p)" by (rule cpu_invD(5) [OF ci pre(1)])
  have pr: "p_priority (f r) = p_priority r" for r using f [of r] by (simp add: static_def)
  have c: "cpu_inv cf {} (upd p f s) Q"
    by (rule cpu_inv_upd [OF ci nq np pr]) (use F ne in auto)
  have fr: "frame s (upd p f s)" by (rule frame_upd) (use f in auto)
  have "SENDING \<in> F \<longleftrightarrow> SENDING \<in> p_flags (procs s p)" using F(3) by blast
  then have fs: "p_flags (procs (upd p f s) r) \<inter> {SENDING} = p_flags (procs s r) \<inter> {SENDING}" for r
    using F(1) by auto
  have "ipc_ok cf (upd p f s) Q C"
    by (rule ipc_keep [OF ok cpu_invD(1) [OF c] fs]) (use f in auto)
  moreover have "flags_ok cf (upd p f s)"
    by (rule flags_ok_change [OF fo fr, of p F]) (use F pre f fo in \<open>auto simp: flags_ok_def\<close>)
  ultimately show ?thesis using c roles_frame [OF fr] ro by (simp add: kinv_def)
qed

lemma sig_procs_put [simp]: "sig_procs (put_msg c a m s) = sig_procs s"
  by (simp add: put_msg_def)

lemma inform_step:
  assumes iv: "kinv cf sm s Q C" and w: "RECEIVING \<in> p_flags (procs s (MM_PROC_NR cf))" "p_getfrom (procs s (MM_PROC_NR cf)) = ANY"
  shows "\<exists>t R. inform cf sm s = Ok t \<and> kinv cf sm t R C \<and> frame s t \<and> (best Q (proc_ptr s) \<longrightarrow> best R (proc_ptr t)) \<and> same_waiting cf c s t"
proof (cases "find (\<lambda>p. PENDING \<in> p_flags (procs s p)) (serv_procs cf)")
  case None
  with iv show ?thesis by (auto simp: inform_def same_waiting_def)
next
  case (Some rp)
  then have pn: "PENDING \<in> p_flags (procs s rp)" by (auto simp: find_Some_iff)
  let ?m = "get_msg HARDWARE sm s"
  let ?s = "(put_msg HARDWARE sm (?m\<lparr>m_type := KSIG, m_field := (m_field ?m)(M2_i1 := rp),
      sig_map := p_pending (procs s rp)\<rparr>) s)\<lparr>sig_procs := sig_procs s - 1\<rparr>"
  let ?f = "\<lambda>p :: proc. p\<lparr>p_pending := {}, p_flags := p_flags p - {PENDING}\<rparr>"
  have "kinv cf sm ?s Q C" "frame s ?s" using iv by (simp_all add: frame_sets)
  from inform_send [OF this(1)] w this(2) obtain t R where t: "lock_mini_send cf HARDWARE (MM_PROC_NR cf) sm ?s = Ok (OK, t)"
    "kinv cf sm t R C" "frame s t"
    "\<forall>p. p \<noteq> MM_PROC_NR cf \<longrightarrow> p_flags (procs t p) = p_flags (procs s p)"
    "p_flags (procs t (MM_PROC_NR cf)) = p_flags (procs s (MM_PROC_NR cf)) - {RECEIVING}"
    "\<forall>p. p_pending (procs t p) = p_pending (procs s p)"
    using frame_trans by (auto simp: put_msg_def)
  have pt: "PENDING \<in> p_flags (procs t rp)" using pn t(4,5) by (cases "rp = MM_PROC_NR cf") auto
  have fo: "flags_ok cf t" using t(2) by (simp add: kinv_def)
  have sp: "SIG_PENDING \<in> p_flags (procs t rp)" using pt fo by (simp add: flags_ok_def)
  have k: "kinv cf sm (upd rp ?f t) R C"
    by (rule kinv_flags [OF t(2) _ refl]) (use pt sp fo in \<open>auto simp: flags_ok_def static_def\<close>)
  have fu: "frame s (upd rp ?f t)" by (rule frame_upd [OF t(3)]) (simp add: static_def)
  from pick_step [OF k] obtain u where u: "lock_pick_proc cf (upd rp ?f t) = Ok u" "kinv cf sm u R C"
    "frame (upd rp ?f t) u" "best R (proc_ptr u)" "\<forall>p. p_flags (procs u p) = p_flags (procs (upd rp ?f t) p)
      \<and> p_pending (procs u p) = p_pending (procs (upd rp ?f t) p)" by blast
  have "inform cf sm s = Ok u" using Some t(1) u(1) by (simp add: inform_def Let_def)
  moreover have "same_waiting cf c s u"
  proof -
    have "p_flags (procs u p) \<subseteq> p_flags (procs s p)" for p
      using conjunct1 [OF u(5) [rule_format, of p]] t(4) [rule_format, of p] t(5) by (cases "p = MM_PROC_NR cf") (auto split: if_splits)
    moreover have "RECEIVING \<in> p_flags (procs u p) \<longleftrightarrow> RECEIVING \<in> p_flags (procs s p)" if "p \<noteq> MM_PROC_NR cf" for p
      using conjunct1 [OF u(5) [rule_format, of p]] t(4) [rule_format, OF that] by (auto split: if_splits)
    moreover have "SIG_PENDING \<in> p_flags (procs u p) \<longleftrightarrow> SIG_PENDING \<in> p_flags (procs s p)" for p
      using conjunct1 [OF u(5) [rule_format, of p]] t(4) [rule_format, of p] t(5) by (cases "p = MM_PROC_NR cf") (auto split: if_splits)
    moreover have "p_pending (procs u p) \<subseteq> p_pending (procs s p)" for p
      using conjunct2 [OF u(5) [rule_format, of p]] t(6) by auto
    ultimately show ?thesis unfolding same_waiting_def by blast
  qed
  ultimately show ?thesis using u(2,4) frame_trans [OF fu u(3)] by blast
qed

section \<open>Causing a signal\<close>

text \<open>A gateway to a routine that does not look at \<open>switching\<close>.\<close>

lemma sleep_gateway:
  assumes iv: "cpu_inv cf X s Q" and f: "p_flags (procs s p) = {}" and g: "istaskp (procs s p) \<Longrightarrow> p_stguard (procs s p) = STACK_GUARD"
  shows "\<exists>t. lock_unready cf p s = Ok t \<and> cpu_inv cf (insert p X) t (asleep s p Q) \<and> same_procs s t \<and> frame s t
    \<and> (best Q (proc_ptr s) \<longrightarrow> best (asleep s p Q) (proc_ptr t))"
proof -
  let ?s = "s\<lparr>switching := True\<rparr>"
  have sw: "cpu_inv cf Y (u\<lparr>switching := b\<rparr>) R = cpu_inv cf Y u R" for Y u b R
    by (simp add: cpu_inv_def occupied_def)
  have a: "asleep ?s p Q = asleep s p Q" by (simp add: asleep_def)
  have "cpu_inv cf X ?s Q" using iv by (simp add: sw)
  from sleep_step [OF this, of p] f g obtain t where t: "unready cf p ?s = Ok t" "cpu_inv cf (insert p X) t (asleep s p Q)"
    "same_procs ?s t" "best Q (proc_ptr s) \<longrightarrow> best (asleep s p Q) (proc_ptr t)"
    unfolding a by auto
  have "lock_unready cf p s = Ok (t\<lparr>switching := False\<rparr>)" using t(1) by (simp add: lock_unready_def gateway_def)
  moreover from this have "frame s (t\<lparr>switching := False\<rparr>)"
    unfolding lock_unready_def using framedD [OF frame_gateway [OF frame_unready]] by blast
  moreover have "same_procs s (t\<lparr>switching := False\<rparr>)" using t(3) by (simp add: same_procs_def)
  ultimately show ?thesis using t(2,4) by (intro exI [of _ "t\<lparr>switching := False\<rparr>"]) (simp add: sw)
qed

text \<open>A user process is stopped: it gets flags of \<open>G\<close>.\<close>

lemma stop_step:
  assumes iv: "kinv cf sm s Q C" and u: "isuserp (procs s p)"
    and G: "G \<noteq> {}" "G \<inter> {SENDING, RECEIVING} = {}" "PENDING \<in> G \<Longrightarrow> SIG_PENDING \<in> G"
  shows "\<exists>t R. (if p_flags (procs s p) = {} then lock_unready cf p s else Ok s) = Ok t
    \<and> kinv cf sm (set_flags p (\<lambda>f. f \<union> G) t) R C \<and> frame s t \<and> (best Q (proc_ptr s) \<longrightarrow> best R (proc_ptr t))
    \<and> (\<forall>r. p_flags (procs t r) = p_flags (procs s r) \<and> p_pending (procs t r) = p_pending (procs s r))"
proof -
  have ok: "ipc_ok cf s Q C" and ci: "cpu_inv cf {} s Q" and fo: "flags_ok cf s" and ro: "roles cf sm s"
    using iv by (simp_all add: kinv_def)
  have nt: "\<not> istaskp (procs s p)" using u by (simp add: isuserp_def istaskp_def)
  have np: "p \<notin> {IDLE, HARDWARE}" using u ro by (auto simp: roles_def)
  have mm: "p \<noteq> MM_PROC_NR cf" using u ro by (auto simp: roles_def isuserp_def isservp_def)
  have sk: "sched_ok cf s Q" by (rule cpu_invD(1) [OF ci])
  have "\<exists>t. (if p_flags (procs s p) = {} then lock_unready cf p s else Ok s) = Ok t \<and> cpu_inv cf {p} t (asleep s p Q)
      \<and> same_procs s t \<and> frame s t \<and> (best Q (proc_ptr s) \<longrightarrow> best (asleep s p Q) (proc_ptr t))"
  proof (cases "p_flags (procs s p) = {}")
    case True
    with sleep_gateway [OF ci True] nt show ?thesis by auto
  next
    case False
    then have "asleep s p Q = Q" by (simp add: asleep_def Let_def)
    with False ci show ?thesis by (auto simp: cpu_inv_def)
  qed
  then obtain t where t: "(if p_flags (procs s p) = {} then lock_unready cf p s else Ok s) = Ok t" "cpu_inv cf {p} t (asleep s p Q)"
    "same_procs s t" "frame s t" "best Q (proc_ptr s) \<longrightarrow> best (asleep s p Q) (proc_ptr t)" by blast
  let ?t = "set_flags p (\<lambda>f. f \<union> G) t"
  have nq: "\<not> queued (asleep s p Q) p" using queued_asleep [OF sk] by blast
  have c: "cpu_inv cf {} ?t (asleep s p Q)" unfolding set_flags_def
    by (rule cpu_inv_upd [OF t(2) nq np]) (use t(3) u G(1) in \<open>simp_all add: same_procs_def isemptyp_def isuserp_def\<close>)
  have k: "p_flags (procs t r) = p_flags (procs s r)" "p_getfrom (procs t r) = p_getfrom (procs s r)"
    "p_sendto (procs t r) = p_sendto (procs s r) \<and> p_sendlink (procs t r) = p_sendlink (procs s r)
      \<and> p_callerq (procs t r) = p_callerq (procs s r)" for r
    using t(3) by (simp_all add: same_procs_def)
  have fr: "frame s ?t" using t(4) by (rule frame_updates)
  have "ipc_ok cf ?t (asleep s p Q) C"
    by (rule ipc_keep [OF ok cpu_invD(1) [OF c]]) (use k G(2) in auto)
  moreover have "flags_ok cf ?t"
    by (rule flags_ok_change [OF fo fr, of p "p_flags (procs s p) \<union> G"]) (use k nt mm G fo in \<open>auto simp: flags_ok_def\<close>)
  ultimately have "kinv cf sm ?t (asleep s p Q) C" using c roles_frame [OF fr] ro by (simp add: kinv_def)
  moreover have "p_pending (procs t r) = p_pending (procs s r)" for r using t(3) by (simp add: same_procs_def)
  ultimately show ?thesis using t k(1) by blast
qed

lemma cause_sig_step:
  assumes iv: "kinv cf sm s Q C" and u: "isuserp (procs s p)"
  shows "\<exists>t R. cause_sig cf sm p n s = Ok t \<and> kinv cf sm t R C \<and> frame s t \<and> (best Q (proc_ptr s) \<longrightarrow> best R (proc_ptr t)) \<and> same_waiting cf p s t
    \<and> (n \<notin> p_pending (procs s p) \<longrightarrow> SIG_PENDING \<in> p_flags (procs t p))"
proof -
  let ?f = "\<lambda>r :: proc. r\<lparr>p_pending := insert n (p_pending r), p_pendcount := p_pendcount r + 1\<rparr>"
  let ?s = "upd p ?f s"
  have fs: "frame s ?s" by (rule frame_upd) (simp_all add: static_def)
  have ks: "kinv cf sm ?s Q C"
  proof -
    have c: "cpu_inv cf {} ?s Q" using iv by (simp add: kinv_def cpu_inv_upd_same)
    have "ipc_ok cf ?s Q C" by (rule ipc_keep [OF _ cpu_invD(1) [OF c]]) (use iv in \<open>auto simp: kinv_def\<close>)
    moreover have "flags_ok cf ?s" using iv by (auto simp: kinv_def flags_ok_def istaskp_def)
    ultimately show ?thesis using iv c roles_frame [OF fs] by (simp add: kinv_def)
  qed
  consider (old) "n \<in> p_pending (procs s p)" | (told) "n \<notin> p_pending (procs s p)" "PENDING \<in> p_flags (procs s p)"
    | (new) "n \<notin> p_pending (procs s p)" "PENDING \<notin> p_flags (procs s p)" by blast
  then show ?thesis
  proof cases
    case old
    with iv show ?thesis by (auto simp: cause_sig_def same_waiting_def)
  next
    case told
    then have "cause_sig cf sm p n s = Ok ?s" by (simp add: cause_sig_def)
    moreover have "SIG_PENDING \<in> p_flags (procs s p)" using told iv by (auto simp: kinv_def flags_ok_def)
    ultimately show ?thesis using ks fs by (intro exI [of _ ?s] exI [of _ Q]) (simp add: same_waiting_def)
  next
    case new
    have us: "isuserp (procs ?s p)" using u by (simp add: isuserp_def)
    from stop_step [OF ks us, of "{PENDING, SIG_PENDING}"] obtain t R where t: "(if p_flags (procs ?s p) = {} then lock_unready cf p ?s else Ok ?s) = Ok t"
      "kinv cf sm (set_flags p (\<lambda>f. f \<union> {PENDING, SIG_PENDING}) t) R C" "frame ?s t" "best Q (proc_ptr s) \<longrightarrow> best R (proc_ptr t)"
      "\<forall>r. p_flags (procs t r) = p_flags (procs s r) \<and> (r \<noteq> p \<longrightarrow> p_pending (procs t r) = p_pending (procs s r))"
      by auto
    let ?t = "(set_flags p (\<lambda>f. f \<union> {PENDING, SIG_PENDING}) t)\<lparr>sig_procs := sig_procs (set_flags p (\<lambda>f. f \<union> {PENDING, SIG_PENDING}) t) + 1\<rparr>"
    have kt: "kinv cf sm ?t R C" using t(2) by simp
    have ft: "frame s ?t" by (intro frame_sets frame_updates) (rule frame_trans [OF fs t(3)])
    have e: "cause_sig cf sm p n s = (if RECEIVING \<notin> p_flags (procs ?t (MM_PROC_NR cf)) \<or> p_getfrom (procs ?t (MM_PROC_NR cf)) \<noteq> ANY
        then Ok ?t else inform cf sm ?t)"
      using new t(1) unfolding cause_sig_def Let_def by simp
    have pp: "proc_ptr ?t = proc_ptr t" by simp
    have sw: "same_waiting cf p s ?t" and mk: "SIG_PENDING \<in> p_flags (procs ?t p)" using t(5) by (auto simp: same_waiting_def)
    show ?thesis
    proof (cases "RECEIVING \<notin> p_flags (procs ?t (MM_PROC_NR cf)) \<or> p_getfrom (procs ?t (MM_PROC_NR cf)) \<noteq> ANY")
      case True
      then have "cause_sig cf sm p n s = Ok ?t" using e by (simp only: if_True)
      with kt ft t(4) sw mk show ?thesis unfolding pp [symmetric] by blast
    next
      case False
      then have w: "RECEIVING \<in> p_flags (procs ?t (MM_PROC_NR cf))" "p_getfrom (procs ?t (MM_PROC_NR cf)) = ANY" by blast+
      from inform_step [OF kt w, where c = p] obtain v R' where v: "inform cf sm ?t = Ok v" "kinv cf sm v R' C" "frame ?t v"
        "best R (proc_ptr ?t) \<longrightarrow> best R' (proc_ptr v)" "same_waiting cf p ?t v" by blast
      have "SIG_PENDING \<in> p_flags (procs v p)" using mk v(5) by (auto simp: same_waiting_def)
      moreover have "cause_sig cf sm p n s = Ok v" using e False v(1) by (simp only: if_False)
      ultimately show ?thesis using v(2,4) frame_trans [OF ft v(3)] t(4) same_waiting_trans [OF sw v(5)] unfolding pp [symmetric] by blast
    qed
  qed
qed

end
