(* ===== verification/Kernel_Exchange.thy ===== *)
theory Kernel_Exchange
  imports Kernel_Inform
begin

text \<open>
  A whole system call: sending, then receiving.
\<close>

section \<open>mini_send\<close>

text \<open>What a successful send has done: the receiver has been woken, or the sender blocked.\<close>

definition sent :: "kern \<Rightarrow> (queue \<Rightarrow> int list) \<Rightarrow> int \<Rightarrow> int \<Rightarrow> kern \<Rightarrow> (queue \<Rightarrow> int list) \<Rightarrow> bool" where
  "sent s Q c d t R \<longleftrightarrow> p_flags (procs t c) = {} \<and> SENDING \<notin> p_flags (procs t d)
       \<and> (\<not> istaskp (procs s d) \<longrightarrow> proc_ptr t = proc_ptr s) \<and> (\<forall>q. q \<noteq> belongs (procs s d) \<longrightarrow> R q = Q q)
       \<and> (\<forall>p. queued Q p \<longrightarrow> queued R p)
     \<or> p_flags (procs t c) = {SENDING} \<and> (best Q (proc_ptr s) \<longrightarrow> best R (proc_ptr t))"

lemma mini_send_cases:
  assumes ok: "ipc_ok cf s Q C" and d: "d \<noteq> c"
  obtains r where "mini_send cf c d m s = Ok (r, s)" "r \<noteq> OK"
  | "receiving_from s d c" "mini_send cf c d m s = bind_res (deliver cf c d m s) (\<lambda>s. Ok (OK, s))"
  | xs where "\<not> receiving_from s d c" "linked (waits_for s) (Some d) xs" "c \<notin> set xs"
      "mini_send cf c d m s = bind_res (block_sender cf c d m s) (\<lambda>s. Ok (OK, s))"
proof -
  have nd: "no_deadlock cf s" using ok by (simp add: ipc_ok_def)
  then obtain ys where ys: "linked (waits_for s) (waits_for s d) ys" by (auto simp: no_deadlock_def)
  then have ch: "linked (waits_for s) (Some d) (d # ys)" by simp
  have lk: "(if SENDING \<in> p_flags (procs s d) then locked (Suc (slots cf)) s c (p_sendto (procs s d)) else Ok False)
      = Ok (c \<in> set ys)"
  proof (cases "SENDING \<in> p_flags (procs s d)")
    case True
    then have w: "waits_for s d = Some (p_sendto (procs s d))" by (simp add: waits_for_def)
    have "locked (Suc (slots cf)) s c (p_sendto (procs s d)) = Ok (c \<in> set ys)"
      by (rule locked_chain) (use ys w chain_length [OF nd ys] in auto)
    with True show ?thesis by simp
  next
    case False
    with ys show ?thesis by (simp add: waits_for_def)
  qed
  let ?bad = "isuserp (procs s c) \<and> \<not> issysentn cf d"
  show thesis
  proof (cases "?bad \<or> isemptyp (procs s d) \<or> \<not> msg_in_range cf (procs s c) m \<or> c \<in> set ys")
    case True
    then consider "mini_send cf c d m s = Ok (E_BAD_DEST, s)" | "mini_send cf c d m s = Ok (EFAULT, s)"
      | "mini_send cf c d m s = Ok (ELOCKED, s)"
      unfolding mini_send_def lk by (cases ?bad; cases "isemptyp (procs s d)"; cases "msg_in_range cf (procs s c) m") simp_all
    then show thesis using that(1) by cases auto
  next
    case False
    then have e: "mini_send cf c d m s = bind_res (if receiving_from s d c then deliver cf c d m s else block_sender cf c d m s)
        (\<lambda>s. Ok (OK, s))"
      unfolding mini_send_def lk by auto
    have "c \<notin> set (d # ys)" using False d by simp
    show thesis
    proof (cases "receiving_from s d c")
      case True
      with e show thesis by (intro that(2)) simp_all
    next
      case no: False
      show thesis by (rule that(3) [OF no ch \<open>c \<notin> set (d # ys)\<close>]) (use e no in simp)
    qed
  qed
qed

lemma send_step:
  assumes iv: "kinv cf sm s Q C" and c: "c \<in> set (all_procs cf)" "p_flags (procs s c) = {}" "c \<notin> {IDLE, HARDWARE}"
    "\<not> isemptyp (procs s c)" and d: "d \<in> set (all_procs cf)" "d \<noteq> c"
  shows "\<exists>r t R C'. mini_send cf c d m s = Ok (r, t) \<and> kinv cf sm t R C' \<and> frame s t \<and> (r \<noteq> OK \<longrightarrow> t = s \<and> R = Q)
    \<and> (best Q (proc_ptr s) \<and> heavy Q (proc_ptr s) \<longrightarrow> best R (proc_ptr t)) \<and> (r = OK \<longrightarrow> sent s Q c d t R)"
proof -
  have ok: "ipc_ok cf s Q C" using iv by (simp add: kinv_def)
  show ?thesis
  proof (rule mini_send_cases [OF ok d(2), of m])
    fix r
    assume "mini_send cf c d m s = Ok (r, s)" "r \<noteq> OK"
    with iv show ?thesis by (intro exI [of _ r] exI [of _ s] exI [of _ Q] exI [of _ C]) simp
  next
    assume r: "receiving_from s d c" and e: "mini_send cf c d m s = bind_res (deliver cf c d m s) (\<lambda>s. Ok (OK, s))"
    from deliver_step [OF iv d(1) r, of m] obtain t R where t: "deliver cf c d m s = Ok t" "kinv cf sm t R C" "frame s t"
      "best Q (proc_ptr s) \<and> heavy Q (proc_ptr s) \<longrightarrow> best R (proc_ptr t)" "\<not> istaskp (procs s d) \<longrightarrow> proc_ptr t = proc_ptr s"
      "\<forall>q. q \<noteq> belongs (procs s d) \<longrightarrow> R q = Q q" "\<forall>p. queued Q p \<longrightarrow> queued R p"
      "\<forall>p. p_flags (procs t p) = (if p = d then p_flags (procs s d) - {RECEIVING} else p_flags (procs s p))" by blast
    have "SENDING \<notin> p_flags (procs s d)" using r by (auto simp: receiving_from_def)
    then have "sent s Q c d t R" unfolding sent_def using t(5-8) c(2) d(2) by simp
    with t(1-4) e show ?thesis by (intro exI [of _ OK] exI [of _ t] exI [of _ R] exI [of _ C]) simp
  next
    fix xs
    assume x: "linked (waits_for s) (Some d) xs" "c \<notin> set xs"
      and e: "mini_send cf c d m s = bind_res (block_sender cf c d m s) (\<lambda>s. Ok (OK, s))"
    from block_step [OF iv c x, of m] obtain t R where t: "block_sender cf c d m s = Ok t" "kinv cf sm t R (C(d := C d @ [c]))"
      "frame s t" "best Q (proc_ptr s) \<longrightarrow> best R (proc_ptr t)"
      "\<forall>p. p_flags (procs t p) = (if p = c then {SENDING} else p_flags (procs s p))" by blast
    have "sent s Q c d t R" unfolding sent_def using t(4,5) by simp
    with t(1-4) e show ?thesis by (intro exI [of _ OK] exI [of _ t] exI [of _ R] exI [of _ "C(d := C d @ [c])"]) simp
  qed
qed

section \<open>mini_rec\<close>

text \<open>Taking the message of a blocked sender.\<close>

lemma accept_step:
  assumes iv: "kinv cf sm s Q C" and e: "C c = us @ q # vs"
  shows "\<exists>t R. accept cf c (opt_last us) q m s = Ok t \<and> kinv cf sm t R (C(c := us @ vs)) \<and> frame s t
    \<and> (best Q (proc_ptr s) \<and> heavy Q (proc_ptr s) \<longrightarrow> best R (proc_ptr t))"
proof -
  have ok: "ipc_ok cf s Q C" and ci: "cpu_inv cf {} s Q" and fo: "flags_ok cf s" and ro: "roles cf sm s"
    using iv by (simp_all add: kinv_def)
  have nd: "no_deadlock cf s" and co: "callers_ok s C" using ok by (simp_all add: ipc_ok_def)
  have "q \<in> set (C c)" using e by simp
  then have "waits_for s q = Some c" using co by (simp add: callers_ok_def)
  then have sq: "SENDING \<in> p_flags (procs s q)" by (simp add: waits_SENDING)
  then have aq: "q \<in> set (all_procs cf)" using nd by (simp add: no_deadlock_def)
  have nq: "\<not> queued Q q" using queued_flags [OF cpu_invD(1) [OF ci], of q] sq by auto
  have np: "q \<notin> {IDLE, HARDWARE}" using cpu_invD(3) [OF ci, of q] sq by auto
  from accept_ok [OF ok e, of m] obtain t Q' where t: "accept cf c (opt_last us) q m s = Ok t" "ipc_ok cf t Q' (C(c := us @ vs))" by blast
  define u where "u = cp_mess q q (p_messbuf (procs s q)) c m s"
  define f g where "f = (\<lambda>p :: proc. p\<lparr>p_callerq := p_sendlink (procs u q)\<rparr>)" "g = (\<lambda>p :: proc. p\<lparr>p_sendlink := p_sendlink (procs u q)\<rparr>)"
  let ?first = "if Some q = p_callerq (procs u c) then Ok (upd c f u)
      else case opt_last us of None \<Rightarrow> Null_deref | Some p \<Rightarrow> Ok (upd p g u)"
  have "bind_res ?first
    (\<lambda>s. let s = set_flags q (\<lambda>f. f - {SENDING}) s in if p_flags (procs s q) = {} then ready cf q s else Ok s) = Ok t"
    using t(1) unfolding accept_def Let_def u_def f_g_def .
  then obtain v' where v': "?first = Ok v'" "(if p_flags (procs (set_flags q (\<lambda>f. f - {SENDING}) v') q) = {}
      then ready cf q (set_flags q (\<lambda>f. f - {SENDING}) v') else Ok (set_flags q (\<lambda>f. f - {SENDING}) v')) = Ok t"
    unfolding bind_res_Ok_iff Let_def by blast
  then obtain p h where v: "h = f \<or> h = g" "v' = upd p h u"
    by (cases "Some q = p_callerq (procs u c)"; cases "opt_last us") auto
  note v = v(1) v'(2) [unfolded v(2)]
  let ?v = "set_flags q (\<lambda>f. f - {SENDING}) (upd p h u)"
  have su: "procs u = procs s" "proc_ptr u = proc_ptr s" by (simp_all add: u_def)
  have "cpu_inv cf {} u Q" using ci by (simp add: u_def cp_mess_def)
  then have cu: "cpu_inv cf {} (upd p h u) Q" using v(1) by (auto simp: cpu_inv_upd_same f_g_def)
  have "\<not> isemptyp (procs s q)" by (rule cpu_invD(5) [OF ci]) (use sq in auto)
  then have ne: "\<not> isemptyp (procs (upd p h u) q)" using v(1) su by (auto simp: isemptyp_def f_g_def)
  then have nv: "\<not> isemptyp (procs ?v q)" by (simp add: isemptyp_def)
  have cv: "cpu_inv cf {q} ?v Q" unfolding set_flags_def
    by (rule cpu_inv_upd [OF cu nq np _ _ _ ne]) simp_all
  from wake_step [OF cv aq nq np nv] v(2) have w: "cpu_inv cf {} t (woken ?v q Q)" "only_links ?v t"
    "proc_ptr t = (if p_flags (procs ?v q) = {} \<and> istaskp (procs ?v q) \<and> Q TASK_Q = [] then q else proc_ptr ?v)" by auto
  have l: "lists_ok t Q'" using t(2) by (simp add: ipc_ok_def sched_ok_def)
  have "Q' = woken ?v q Q" by (rule lists_unique [OF l cpu_invD(2) [OF w(1)]])
  have fr: "frame s t" by (rule framedD [OF frame_accept t(1)])
  have hv: "p_flags (h r) = p_flags r" "p_getfrom (h r) = p_getfrom r" for r using v(1) by (auto simp: f_g_def)
  have fl: "p_flags (procs t r) = (if r = q then p_flags (procs s q) - {SENDING} else p_flags (procs s r))"
    "p_getfrom (procs t r) = p_getfrom (procs s r)" for r
    using only_links_same [OF w(2)] hv su by (auto simp: same_procs_def)
  have "flags_ok cf t"
    by (rule flags_ok_change [OF fo fr fl(1)]) (use fl(2) fo in \<open>auto simp: flags_ok_def\<close>)
  then have "kinv cf sm t Q' (C(c := us @ vs))"
    using t(2) w(1) roles_frame [OF fr] ro \<open>Q' = _\<close> by (simp add: kinv_def)
  moreover have "best Q' (proc_ptr t)" if "best Q (proc_ptr s)" "heavy Q (proc_ptr s)"
    unfolding \<open>Q' = _\<close> w(3) by (rule best_woken) (use that su in \<open>auto simp: heavy_def\<close>)
  ultimately show ?thesis using t(1) fr by blast
qed

text \<open>Blocking the receiver.\<close>

lemma block_receiver_step:
  assumes iv: "kinv cf sm s Q C" and c: "c \<notin> {IDLE, HARDWARE}" "p_flags (procs s c) \<subseteq> {SENDING}" "\<not> isemptyp (procs s c)"
    and a: "c = MM_PROC_NR cf \<Longrightarrow> src = ANY \<Longrightarrow> p_flags (procs s c) = {}"
  shows "\<exists>t R. block_receiver cf sm c src m s = Ok t \<and> kinv cf sm t R C \<and> frame s t
    \<and> (best Q (proc_ptr s) \<or> p_flags (procs s c) = {} \<and> c = proc_ptr s \<and> in_front Q c \<longrightarrow> best R (proc_ptr t))"
proof -
  let ?s1 = "upd c (\<lambda>p. p\<lparr>p_getfrom := src, p_messbuf := m\<rparr>) s" and ?F = "insert RECEIVING (p_flags (procs s c))"
  have ok: "ipc_ok cf s Q C" and ci: "cpu_inv cf {} s Q" and fo: "flags_ok cf s" and ro: "roles cf sm s"
    using iv by (simp_all add: kinv_def)
  have c1: "cpu_inv cf {} ?s1 Q" using ci by (simp add: cpu_inv_upd_same)
  have g: "istaskp (procs ?s1 c) \<Longrightarrow> p_stguard (procs ?s1 c) = STACK_GUARD" using ro by (simp add: roles_def istaskp_def)
  have as: "asleep ?s1 c Q = asleep s c Q"
    by (simp add: asleep_def belongs_def istaskp_def isservp_def in_group_def isuserp_def)
  have pp: "proc_ptr ?s1 = proc_ptr s" by simp
  from sleep_step [OF c1 g, unfolded as pp] obtain u where u: "(if p_flags (procs ?s1 c) = {} then unready cf c ?s1 else Ok ?s1) = Ok u"
    "cpu_inv cf {c} u (asleep s c Q)" "same_procs ?s1 u" "frame ?s1 u"
    "best Q (proc_ptr s) \<longrightarrow> best (asleep s c Q) (proc_ptr u)"
    "c = proc_ptr s \<and> in_front Q c \<longrightarrow> best (asleep s c Q) (proc_ptr u)" by blast
  let ?w = "set_flags c (insert RECEIVING) u"
  have nq: "\<not> queued (asleep s c Q) c" using queued_asleep [OF cpu_invD(1) [OF ci]] by blast
  have "\<not> isemptyp (procs u c)" using u(3) c(3) by (simp add: same_procs_def isemptyp_def)
  then have cw: "cpu_inv cf {} ?w (asleep s c Q)" unfolding set_flags_def
    by (intro cpu_inv_upd [OF u(2) nq c(1)]) simp_all
  have k: "p_flags (procs u r) = p_flags (procs s r)" "p_getfrom (procs u r) = (if r = c then src else p_getfrom (procs s r))"
    "p_sendto (procs u r) = p_sendto (procs s r) \<and> p_sendlink (procs u r) = p_sendlink (procs s r)
      \<and> p_callerq (procs u r) = p_callerq (procs s r)" for r
    using u(3) by (auto simp: same_procs_def)
  have "frame s ?s1" by (rule frame_upd) (simp_all add: static_def)
  then have fr: "frame s ?w" using frame_trans [OF _ u(4)] by (intro frame_updates) blast
  have "ipc_ok cf ?w (asleep s c Q) C"
    by (rule ipc_keep [OF ok cpu_invD(1) [OF cw]]) (use k in auto)
  moreover have "flags_ok cf ?w"
    by (rule flags_ok_change [OF fo fr, of c ?F]) (use k c a fo in \<open>auto simp: flags_ok_def\<close>)
  ultimately have kw: "kinv cf sm ?w (asleep s c Q) C" using cw roles_frame [OF fr] ro by (simp add: kinv_def)
  have bw: "best Q (proc_ptr s) \<or> p_flags (procs s c) = {} \<and> c = proc_ptr s \<and> in_front Q c
      \<longrightarrow> best (asleep s c Q) (proc_ptr ?w)" using u(5,6) by auto
  let ?inf = "0 < sig_procs ?w \<and> c = MM_PROC_NR cf \<and> src = ANY"
  have e: "block_receiver cf sm c src m s = (if ?inf then inform cf sm ?w else Ok ?w)"
    unfolding block_receiver_def Let_def u(1) by simp
  show ?thesis
  proof (cases ?inf)
    case False
    then have "block_receiver cf sm c src m s = Ok ?w" using e by (simp only: if_False)
    with kw fr bw show ?thesis by blast
  next
    case True
    then have w: "RECEIVING \<in> p_flags (procs ?w (MM_PROC_NR cf))" "p_getfrom (procs ?w (MM_PROC_NR cf)) = ANY"
      using k by auto
    from inform_step [OF kw w, where c = c] obtain t R where t: "inform cf sm ?w = Ok t" "kinv cf sm t R C" "frame ?w t"
      "best (asleep s c Q) (proc_ptr ?w) \<longrightarrow> best R (proc_ptr t)" by blast
    have "block_receiver cf sm c src m s = Ok t" using t(1) unfolding e if_P [OF True] .
    with t(2,4) bw frame_trans [OF fr t(3)] show ?thesis by blast
  qed
qed

lemma receive_step:
  assumes iv: "kinv cf sm s Q C" and c: "c \<notin> {IDLE, HARDWARE}" "p_flags (procs s c) \<subseteq> {SENDING}" "\<not> isemptyp (procs s c)"
    and a: "c = MM_PROC_NR cf \<Longrightarrow> src = ANY \<Longrightarrow> p_flags (procs s c) = {}"
  shows "\<exists>t R C'. mini_rec cf sm c src m s = Ok (OK, t) \<and> kinv cf sm t R C' \<and> frame s t
    \<and> (best Q (proc_ptr s) \<and> (heavy Q (proc_ptr s) \<or> p_flags (procs s c) \<noteq> {}) \<longrightarrow> best R (proc_ptr t))
    \<and> (p_flags (procs s c) = {} \<and> src \<notin> set (C c) \<and> \<not> isrxhardware src \<and> c = proc_ptr s \<and> in_front Q c \<longrightarrow> best R (proc_ptr t))"
proof -
  from block_receiver_step [OF iv c a, where src = src and m = m] obtain t R where t: "block_receiver cf sm c src m s = Ok t"
    "kinv cf sm t R C" "frame s t" "best Q (proc_ptr s) \<or> p_flags (procs s c) = {} \<and> c = proc_ptr s \<and> in_front Q c
      \<longrightarrow> best R (proc_ptr t)" by blast
  show ?thesis
  proof (cases "SENDING \<in> p_flags (procs s c)")
    case True
    then have "mini_rec cf sm c src m s = Ok (OK, t)" using t(1) by (simp add: mini_rec_def)
    with t(2-4) True show ?thesis by (intro exI [of _ t] exI [of _ R] exI [of _ C]) auto
  next
    case ns: False
    have co: "callers_ok s C" and nd: "no_deadlock cf s" using iv by (simp_all add: kinv_def ipc_ok_def)
    have l: "linked (link_of s) (p_callerq (procs s c)) (C c)" using co by (simp add: callers_ok_def)
    have "length (C c) < Suc (slots cf)" using callers_length [OF co nd, of c] by simp
    from find_sender_find [OF l this, of src "[]"] show ?thesis
    proof (elim disjE exE conjE)
      assume f: "find_sender (Suc (slots cf)) s src (opt_last []) (p_callerq (procs s c)) = Ok None"
      then have f': "find_sender (Suc (slots cf)) s src None (p_callerq (procs s c)) = Ok None" by (simp add: opt_last_def)
      show ?thesis
      proof (cases "p_int_blocked (procs s c) \<and> isrxhardware src")
        case True
        let ?m = "put_msg c m ((get_msg c m s)\<lparr>m_source := HARDWARE, m_type := HARD_INT\<rparr>) s"
        let ?t = "upd c (\<lambda>p. p\<lparr>p_int_blocked := False\<rparr>) ?m"
        have e: "mini_rec cf sm c src m s = Ok (OK, ?t)"
          using f' True ns by (simp add: mini_rec_def del: find_sender.simps)
        have ci: "cpu_inv cf {} ?t Q" using iv by (simp add: kinv_def cpu_inv_upd_same)
        have fr: "frame s ?t" by (intro frame_upd frame_sets frame_refl) (simp add: static_def)
        have "ipc_ok cf ?t Q C" by (rule ipc_keep [OF _ cpu_invD(1) [OF ci]]) (use iv in \<open>auto simp: kinv_def\<close>)
        moreover have "flags_ok cf ?t" using iv by (auto simp: kinv_def flags_ok_def istaskp_def)
        ultimately have "kinv cf sm ?t Q C" using ci iv roles_frame [OF fr] by (simp add: kinv_def)
        with e fr True show ?thesis by (intro exI [of _ ?t] exI [of _ Q] exI [of _ C]) simp
      next
        case False
        then have "mini_rec cf sm c src m s = Ok (OK, t)"
          using f' t(1) by (auto simp: mini_rec_def simp del: find_sender.simps)
        with t(2-4) show ?thesis by (intro exI [of _ t] exI [of _ R] exI [of _ C]) auto
      qed
    next
      fix ys q zs
      assume e: "C c = ys @ q # zs" and ac: "acceptable src q"
        and f: "find_sender (Suc (slots cf)) s src (opt_last []) (p_callerq (procs s c)) = Ok (Some (opt_last ([] @ ys), q))"
      from accept_step [OF iv e, of m] obtain v R' where v: "accept cf c (opt_last ys) q m s = Ok v"
        "kinv cf sm v R' (C(c := ys @ zs))" "frame s v" "best Q (proc_ptr s) \<and> heavy Q (proc_ptr s) \<longrightarrow> best R' (proc_ptr v)" by blast
      have "mini_rec cf sm c src m s = Ok (OK, v)"
        using f v(1) ns by (simp add: mini_rec_def opt_last_def [of "[]"] del: find_sender.simps)
      moreover have "src \<in> set (C c) \<or> isrxhardware src" using e ac by (auto simp: acceptable_def isrxhardware_def)
      moreover have "p_flags (procs s c) = {}" using c(2) ns by auto
      ultimately show ?thesis using v(2-4) by (intro exI [of _ v] exI [of _ R'] exI [of _ "C(c := ys @ zs)"]) auto
    qed
  qed
qed

section \<open>sys_call\<close>

text \<open>The caller is the running process. User processes may call whatever they like; tasks and servers do not
  send to themselves or to \<open>ANY\<close>.\<close>

definition good_call :: "kern \<Rightarrow> sys_fun \<Rightarrow> int \<Rightarrow> bool" where
  "good_call s f sd \<longleftrightarrow> proc_ptr s \<noteq> IDLE \<and> in_int32 sd
     \<and> (isuserp (procs s (proc_ptr s)) \<or> f = RECEIVE \<or> sd \<noteq> ANY \<and> sd \<noteq> proc_ptr s)"

lemma ok_dest:
  assumes "isoksrc_dest cf d" and "in_int32 d" and "slots cf < 2 ^ 31"
  shows "d \<in> set (all_procs cf) \<or> d = ANY"
proof (cases "d = ANY")
  case False
  let ?n = "d + int (NR_TASKS cf)"
  have u: "uint32 ?n < int (slots cf)" using assms(1) False by (simp add: isoksrc_dest_def isokprocn_def slots_def)
  have r: "- (2 ^ 31) \<le> ?n" "?n < 2 ^ 32" using assms(2,3) by (auto simp: in_int32_def slots_def)
  have "0 \<le> ?n"
  proof (rule ccontr)
    assume "\<not> 0 \<le> ?n"
    then have "(?n + 2 ^ 32) mod 2 ^ 32 = ?n + 2 ^ 32" using r(1) by (intro mod_pos_pos_trivial) auto
    then have "uint32 ?n = ?n + 2 ^ 32" unfolding uint32_def by (metis mod_add_self2)
    then show False using u r(1) assms(3) by simp
  qed
  then have "uint32 ?n = ?n" using r(2) by (simp add: uint32_def)
  then have "nat ?n \<in> set [0 ..< slots cf]" "d = int (nat ?n) - int (NR_TASKS cf)" using u \<open>0 \<le> ?n\<close> by auto
  then have "d \<in> set (all_procs cf)" unfolding all_procs_def set_map by blast
  then show ?thesis by blast
qed simp

lemma not_sender_of:
  assumes "kinv cf sm t R C" and "SENDING \<notin> p_flags (procs t d)"
  shows "d \<notin> set (C c)"
proof
  assume "d \<in> set (C c)"
  then have "waits_for t d = Some c" using assms(1) by (simp add: kinv_def ipc_ok_def callers_ok_def)
  with assms(2) show False by (simp add: waits_for_def)
qed

text \<open>A user process sends to a server and waits for its answer.\<close>

lemma user_receive:
  assumes iv: "kinv cf sm s Q C" and b: "best Q (proc_ptr s)" and u: "isuserp (procs s (proc_ptr s))" and q: "queued Q (proc_ptr s)"
    and d: "isservp (procs s d)" "\<not> isrxhardware d"
    and t: "sent s Q (proc_ptr s) d t R" "kinv cf sm t R C'" "frame s t"
  shows "\<exists>v R' C''. mini_rec cf sm (proc_ptr s) d m t = Ok (OK, v) \<and> kinv cf sm v R' C'' \<and> frame t v \<and> best R' (proc_ptr v)"
proof -
  let ?c = "proc_ptr s"
  have ci: "cpu_inv cf {} s Q" and ro: "roles cf sm s" using iv by (simp_all add: kinv_def)
  have np: "?c \<notin> {IDLE, HARDWARE}" using cpu_invD(4) [OF ci, of ?c] q by auto
  have nm: "?c \<noteq> MM_PROC_NR cf" using ro u by (auto simp: roles_def isuserp_def isservp_def)
  have fl: "p_flags (procs t ?c) \<subseteq> {SENDING}" using t(1) by (auto simp: sent_def)
  have ne: "\<not> isemptyp (procs t ?c)" using t(3) u by (simp add: frame_def static_def isemptyp_def isuserp_def)
  from receive_step [OF t(2) np fl ne, where src = d and m = m] nm obtain v R' C'' where v: "mini_rec cf sm ?c d m t = Ok (OK, v)"
    "kinv cf sm v R' C''" "frame t v"
    "best R (proc_ptr t) \<and> (heavy R (proc_ptr t) \<or> p_flags (procs t ?c) \<noteq> {}) \<longrightarrow> best R' (proc_ptr v)"
    "p_flags (procs t ?c) = {} \<and> d \<notin> set (C' ?c) \<and> \<not> isrxhardware d \<and> ?c = proc_ptr t \<and> in_front R ?c \<longrightarrow> best R' (proc_ptr v)"
    by blast
  have "best R' (proc_ptr v)"
  proof (cases "p_flags (procs t ?c) = {}")
    case False
    with t(1) b v(4) show ?thesis by (simp add: sent_def)
  next
    case True
    with t(1) have w: "SENDING \<notin> p_flags (procs t d)" "\<not> istaskp (procs s d) \<longrightarrow> proc_ptr t = ?c"
      "\<forall>q. q \<noteq> belongs (procs s d) \<longrightarrow> R q = Q q" by (auto simp: sent_def)
    have nt: "\<not> istaskp (procs s d)" using d(1) by (simp add: isservp_def istaskp_def)
    then have bd: "belongs (procs s d) = SERVER_Q" using d(1) by (simp add: belongs_def)
    from best_in_front [OF b q] obtain k where k: "?c \<in> set (Q k)" "k \<noteq> G2 \<longrightarrow> ?c = hd (Q k)" by (auto simp: in_front_def)
    have "belongs (procs s ?c) = k" using belongs_queue [OF cpu_invD(1) [OF ci] k(1)] .
    then have "k \<noteq> SERVER_Q" using u by (auto simp: belongs_def istaskp_def isservp_def isuserp_def group_queue_def split: if_splits)
    then have "R k = Q k" using w(3) bd by simp
    then have "in_front R ?c" using k unfolding in_front_def by metis
    then show ?thesis using v(5) True not_sender_of [OF t(2) w(1)] d(2) w(2) nt by simp
  qed
  with v show ?thesis by blast
qed

text \<open>A running process that exists and is not \<open>IDLE\<close> is a task, a server or a user.\<close>

definition one_idle :: "kern \<Rightarrow> bool" where
  "one_idle s \<longleftrightarrow> (\<forall>p. p_priority (procs s p) = PPRI_IDLE \<longrightarrow> p = IDLE)"

lemma heavy_caller:
  assumes ci: "cpu_inv cf X s Q" and q: "queued Q c" and n: "\<not> isuserp (procs s c)" "one_idle s" "c \<noteq> IDLE"
  shows "heavy Q c"
proof -
  have ne: "\<not> isemptyp (procs s c)" by (rule cpu_invD(6) [OF ci q])
  obtain k where k: "c \<in> set (Q k)" using q by (auto simp: queued_def)
  then have b: "belongs (procs s c) = k" using belongs_queue [OF cpu_invD(1) [OF ci]] by blast
  have "p_priority (procs s c) \<noteq> PPRI_IDLE" using n(2,3) by (auto simp: one_idle_def)
  then have "istaskp (procs s c) \<or> isservp (procs s c)"
    using n(1) ne by (cases "p_priority (procs s c)") (auto simp: isuserp_def isemptyp_def istaskp_def isservp_def)
  then show ?thesis using b k by (auto simp: belongs_def heavy_def split: if_splits)
qed

lemma system_call:
  assumes iv: "kinv cf sm s Q C" and b: "best Q (proc_ptr s)" and u: "\<not> isuserp (procs s (proc_ptr s))" and o: "one_idle s"
    and g: "good_call s f sd" and n: "slots cf < 2 ^ 31"
  shows "\<exists>r t R C'. sys_call cf sm f sd m s = Ok (r, t) \<and> kinv cf sm t R C' \<and> frame s t \<and> best R (proc_ptr t)"
proof -
  let ?c = "proc_ptr s"
  have ci: "cpu_inv cf {} s Q" and ro: "roles cf sm s" using iv by (simp_all add: kinv_def)
  have q: "queued Q ?c" using b g by (auto simp: best_def good_call_def queued_def)
  have np: "?c \<notin> {IDLE, HARDWARE}" using cpu_invD(4) [OF ci, of ?c] q by auto
  have fl: "p_flags (procs s ?c) = {}" by (rule queued_flags [OF cpu_invD(1) [OF ci] q])
  have ca: "?c \<in> set (all_procs cf)" using q cpu_invD(1) [OF ci] by (auto simp: queued_def sched_ok_def)
  have ne: "\<not> isemptyp (procs s ?c)" by (rule cpu_invD(6) [OF ci q])
  have hv: "heavy Q ?c" by (rule heavy_caller [OF ci q u o]) (use g in \<open>auto simp: good_call_def\<close>)
  show ?thesis
  proof (cases "isoksrc_dest cf sd")
    case False
    with iv b show ?thesis by (auto simp: sys_call_def Let_def)
  next
    case ok: True
    show ?thesis
    proof (cases "f = RECEIVE")
      case True
      have fs: "p_flags (procs s ?c) \<subseteq> {SENDING}" using fl by simp
      from receive_step [OF iv np fs ne fl, where src = sd and m = m] obtain t R C' where t: "mini_rec cf sm ?c sd m s = Ok (OK, t)"
        "kinv cf sm t R C'" "frame s t" "best Q ?c \<and> heavy Q ?c \<longrightarrow> best R (proc_ptr t)" by blast
      have "sys_call cf sm f sd m s = Ok (OK, t)" using True ok u t(1) by (simp add: sys_call_def Let_def)
      with t(2-4) b hv show ?thesis by blast
    next
      case False
      then have d: "sd \<in> set (all_procs cf)" "sd \<noteq> ?c" "sd \<noteq> ANY" using ok_dest [OF ok _ n] g u by (auto simp: good_call_def)
      from send_step [OF iv ca fl np ne d(1,2), of m] obtain r t R C' where t: "mini_send cf ?c sd m s = Ok (r, t)" "kinv cf sm t R C'"
        "frame s t" "best Q ?c \<and> heavy Q ?c \<longrightarrow> best R (proc_ptr t)" "r = OK \<longrightarrow> sent s Q ?c sd t R" by blast
      have bt: "best R (proc_ptr t)" using t(4) b hv by blast
      show ?thesis
      proof (cases "f = BOTH \<and> r = OK")
        case False
        then have "sys_call cf sm f sd m s = Ok (r, t)"
          using \<open>f \<noteq> RECEIVE\<close> ok u t(1) by (cases f) (auto simp: sys_call_def Let_def)
        with t(2,3) bt show ?thesis by blast
      next
        case True
        then have ft: "p_flags (procs t ?c) \<subseteq> {SENDING}" using t(5) by (auto simp: sent_def)
        have nt: "\<not> isemptyp (procs t ?c)" using t(3) ne by (simp add: frame_def static_def isemptyp_def)
        from receive_step [OF t(2) np ft nt, where src = sd and m = m] d(3) obtain v R' C'' where v: "mini_rec cf sm ?c sd m t = Ok (OK, v)"
          "kinv cf sm v R' C''" "frame t v"
          "best R (proc_ptr t) \<and> (heavy R (proc_ptr t) \<or> p_flags (procs t ?c) \<noteq> {}) \<longrightarrow> best R' (proc_ptr v)" by blast
        have "heavy R (proc_ptr t) \<or> p_flags (procs t ?c) \<noteq> {}"
        proof (cases "p_flags (procs t ?c) = {}")
          case e: True
          then have "queued R ?c" using t(5) True q by (auto simp: sent_def)
          then have "heavy R ?c"
            by (intro heavy_caller [of cf "{}" t R ?c]) (use t(2,3) u o g in \<open>auto simp: kinv_def frame_def static_def isuserp_def
                one_idle_def good_call_def\<close>)
          then have "R TASK_Q \<noteq> [] \<or> R SERVER_Q \<noteq> []" by (auto simp: heavy_def)
          then show ?thesis using best_first [OF bt] unfolding heavy_def by blast
        qed simp
        then have "best R' (proc_ptr v)" using v(4) bt by blast
        moreover have "sys_call cf sm f sd m s = Ok (OK, v)" using True ok u t(1) v(1) by (simp add: sys_call_def Let_def)
        ultimately show ?thesis using v(2) frame_trans [OF t(3) v(3)] by blast
      qed
    qed
  qed
qed

lemma user_call:
  assumes iv: "kinv cf sm s Q C" and b: "best Q (proc_ptr s)" and u: "isuserp (procs s (proc_ptr s))"
  shows "\<exists>r t R C'. sys_call cf sm f sd m s = Ok (r, t) \<and> kinv cf sm t R C' \<and> frame s t \<and> best R (proc_ptr t)"
proof -
  let ?c = "proc_ptr s"
  have ci: "cpu_inv cf {} s Q" and ro: "roles cf sm s" using iv by (simp_all add: kinv_def)
  have "?c \<noteq> IDLE" using u ro by (auto simp: roles_def)
  then have q: "queued Q ?c" using b by (auto simp: best_def queued_def)
  have np: "?c \<notin> {IDLE, HARDWARE}" using cpu_invD(4) [OF ci, of ?c] q by auto
  have fl: "p_flags (procs s ?c) = {}" by (rule queued_flags [OF cpu_invD(1) [OF ci] q])
  have ca: "?c \<in> set (all_procs cf)" using q cpu_invD(1) [OF ci] by (auto simp: queued_def sched_ok_def)
  have ne: "\<not> isemptyp (procs s ?c)" using u by (simp add: isemptyp_def isuserp_def)
  have same: ?thesis if "\<exists>r. sys_call cf sm f sd m s = Ok (r, s)" using that iv b frame_refl by blast
  show ?thesis
  proof (cases "isoksrc_dest cf sd \<and> f = BOTH \<and> issysentn cf sd")
    case False
    then show ?thesis using u by (intro same) (auto simp: sys_call_def mini_send_def Let_def)
  next
    case True
    then have d: "sd \<in> set (all_procs cf)" "isservp (procs s sd)" "\<not> isrxhardware sd"
      using ro by (auto simp: issysentn_def roles_def isrxhardware_def)
    have dc: "sd \<noteq> ?c" using d(2) u by (auto simp: isservp_def isuserp_def)
    from send_step [OF iv ca fl np ne d(1) dc, of m] obtain r t R C' where t: "mini_send cf ?c sd m s = Ok (r, t)" "kinv cf sm t R C'"
      "frame s t" "r \<noteq> OK \<longrightarrow> t = s \<and> R = Q" "r = OK \<longrightarrow> sent s Q ?c sd t R" by blast
    have e: "sys_call cf sm f sd m s = (if r \<noteq> OK then Ok (r, t) else mini_rec cf sm ?c sd m t)"
      using True t(1) u by (simp add: sys_call_def Let_def)
    show ?thesis
    proof (cases "r = OK")
      case False
      with e t(4) show ?thesis by (intro same) simp
    next
      case ok: True
      with t(5) have se: "sent s Q ?c sd t R" by blast
      from user_receive [OF iv b u q d(2,3) se t(2,3), of m] obtain v R' C'' where v: "mini_rec cf sm ?c sd m t = Ok (OK, v)"
        "kinv cf sm v R' C''" "frame t v" "best R' (proc_ptr v)" by blast
      with e ok frame_trans [OF t(3) v(3)] show ?thesis by auto
    qed
  qed
qed

end
