(* ===== verification/Kernel_Interrupts.thy ===== *)
theory Kernel_Interrupts
  imports Kernel_Exchange
begin

text \<open>
  Interrupts, held-up interrupts and the clock keep the invariant of the running kernel.
\<close>

section \<open>An interrupt at task level\<close>

lemma interrupt_step:
  assumes iv: "kinv cf sm s Q C" and b: "best Q (proc_ptr s)" and p: "p \<in> set (all_procs cf)" "istaskp (procs s p)"
    and k: "k_reenter s = 0" "\<not> switching s"
  shows "\<exists>t R. interrupt p s = Ok t \<and> kinv cf sm t R C \<and> frame s t \<and> best R (proc_ptr t)"
proof (cases "accepts s p")
  case False
  let ?t = "upd p (\<lambda>r. r\<lparr>p_int_blocked := True\<rparr>) s"
  have e: "interrupt p s = Ok ?t" using False k by (auto simp: interrupt_def accepts_def)
  have c: "cpu_inv cf {} ?t Q" using iv by (simp add: kinv_def cpu_inv_upd_same)
  have fr: "frame s ?t" by (rule frame_upd) (simp_all add: static_def)
  have "ipc_ok cf ?t Q C" by (rule ipc_keep [OF _ cpu_invD(1) [OF c]]) (use iv in \<open>auto simp: kinv_def\<close>)
  moreover have "flags_ok cf ?t" using iv by (auto simp: kinv_def flags_ok_def istaskp_def)
  ultimately have "kinv cf sm ?t Q C" using iv c roles_frame [OF fr] by (simp add: kinv_def)
  with e fr b show ?thesis by (intro exI [of _ ?t] exI [of _ Q]) simp
next
  case True
  have ok: "ipc_ok cf s Q C" and ci: "cpu_inv cf {} s Q" and fo: "flags_ok cf s" and ro: "roles cf sm s"
    using iv by (simp_all add: kinv_def)
  have rec: "RECEIVING \<in> p_flags (procs s p)" "SENDING \<notin> p_flags (procs s p)" using True by (auto simp: accepts_def)
  then have fl: "p_flags (procs s p) = {RECEIVING}" using fo p(2) by (auto simp: flags_ok_def)
  have nq: "\<not> queued Q p" using queued_flags [OF cpu_invD(1) [OF ci], of p] fl by auto
  have np: "p \<notin> {IDLE, HARDWARE}" using cpu_invD(3) [OF ci, of p] fl by auto
  let ?u = "put_msg p (p_messbuf (procs s p)) ((get_msg p (p_messbuf (procs s p)) s)\<lparr>m_source := HARDWARE, m_type := HARD_INT\<rparr>) s"
  let ?v = "upd p (\<lambda>r. r\<lparr>p_flags := p_flags r - {RECEIVING}, p_int_blocked := False\<rparr>) ?u"
  have cu: "cpu_inv cf {} ?u Q" using ci by simp
  have ne: "\<not> isemptyp (procs ?u p)" "\<not> isemptyp (procs ?v p)" using p(2) by (simp_all add: istaskp_def isemptyp_def)
  have cv: "cpu_inv cf {p} ?v Q" by (rule cpu_inv_upd [OF cu nq np _ _ _ ne(1)]) simp_all
  have tv: "istaskp (procs ?v p)" using p(2) by (simp add: istaskp_def)
  have e: "interrupt p s = ready cf p ?v" using True k tv by (simp add: interrupt_def accepts_def ready_def Let_def)
  from wake_step [OF cv p(1) nq np ne(2)] obtain t where t: "ready cf p ?v = Ok t" "cpu_inv cf {} t (woken ?v p Q)" "only_links ?v t"
    "proc_ptr t = (if p_flags (procs ?v p) = {} \<and> istaskp (procs ?v p) \<and> Q TASK_Q = [] then p else proc_ptr ?v)"
    using fl by auto
  have "frame s ?v" by (intro frame_upd frame_sets frame_refl) (simp add: static_def)
  then have fr: "frame s t" using framedD [OF frame_ready t(1)] by (rule frame_trans)
  have ft: "p_flags (procs t r) = (if r = p then {} else p_flags (procs s r))" "p_getfrom (procs t r) = p_getfrom (procs s r)"
    "p_sendto (procs t r) = p_sendto (procs s r) \<and> p_sendlink (procs t r) = p_sendlink (procs s r)
      \<and> p_callerq (procs t r) = p_callerq (procs s r)" for r
    using only_links_same [OF t(3)] fl by (auto simp: same_procs_def)
  have "ipc_ok cf t (woken ?v p Q) C"
    by (rule ipc_keep [OF ok cpu_invD(1) [OF t(2)]]) (use ft rec in auto)
  moreover have "flags_ok cf t" by (rule flags_ok_change [OF fo fr ft(1)]) (use ft(2) in auto)
  ultimately have "kinv cf sm t (woken ?v p Q) C" using t(2) roles_frame [OF fr] ro by (simp add: kinv_def)
  moreover have "best (woken ?v p Q) (proc_ptr t)"
    unfolding t(4) by (rule best_woken) (use b tv in auto)
  ultimately show ?thesis using e t(1) fr by auto
qed

section \<open>Held-up interrupts\<close>

definition held_ok :: "config \<Rightarrow> kern \<Rightarrow> int list \<Rightarrow> bool" where
  "held_ok cf s H \<longleftrightarrow> linked (held_link s) (held_head s) H \<and> (H \<noteq> [] \<longrightarrow> held_tail s = Some (last H))
     \<and> (\<forall>p. p_int_held (procs s p) \<longleftrightarrow> p \<in> set H) \<and> (\<forall>p \<in> set H. p \<in> set (all_procs cf) \<and> istaskp (procs s p))"

lemma held_ok_frame:
  assumes "frame s t" shows "held_ok cf t H = held_ok cf s H"
proof -
  have "held_link t = held_link s" "p_int_held (procs t p) = p_int_held (procs s p)" "istaskp (procs t p) = istaskp (procs s p)"
    "held_head t = held_head s" "held_tail t = held_tail s" for p
    using assms by (auto simp: frame_def static_def held_link_def istaskp_def fun_eq_iff)
  then show ?thesis by (simp add: held_ok_def)
qed

text \<open>Fields that only interrupts use do not matter to the invariant.\<close>

lemma kinv_cong:
  assumes q: "q_head t = q_head s" "q_tail t = q_tail s"
    and k: "\<And>p. p_flags (procs t p) = p_flags (procs s p) \<and> p_priority (procs t p) = p_priority (procs s p)
      \<and> sched_group (procs t p) = sched_group (procs s p) \<and> cpu_estimate (procs t p) = cpu_estimate (procs s p)
      \<and> p_nextready (procs t p) = p_nextready (procs s p) \<and> p_sendto (procs t p) = p_sendto (procs s p)
      \<and> p_sendlink (procs t p) = p_sendlink (procs s p) \<and> p_callerq (procs t p) = p_callerq (procs s p)
      \<and> p_getfrom (procs t p) = p_getfrom (procs s p) \<and> p_stguard (procs t p) = p_stguard (procs s p)
      \<and> p_map (procs t p) = p_map (procs s p)"
  shows "kinv cf sm t Q C = kinv cf sm s Q C"
proof -
  have i: "istaskp (procs t p) = istaskp (procs s p)" "isservp (procs t p) = isservp (procs s p)"
    "isuserp (procs t p) = isuserp (procs s p)" "isemptyp (procs t p) = isemptyp (procs s p)" for p
    using k [of p] by (simp_all add: istaskp_def isservp_def isuserp_def isemptyp_def)
  have n: "nx t = nx s" "waits_for t = waits_for s" "link_of t = link_of s"
    using k by (simp_all add: nx_def waits_for_def link_of_def fun_eq_iff)
  have g: "belongs (procs t p) = belongs (procs s p)" for p using k [of p] i [of p] by (simp add: belongs_def in_group_def)
  have "sched_ok cf t Q = sched_ok cf s Q" using k g n(1) q by (simp add: sched_ok_def lists_ok_def)
  then show ?thesis
    unfolding kinv_def ipc_ok_def callers_ok_def no_deadlock_def cpu_inv_def occupied_def flags_ok_def roles_def msg_in_range_def n i
    using k by simp
qed

lemma kinv_held:
  assumes "q_head t = q_head s" "q_tail t = q_tail s"
    and p: "\<And>p. procs t p = (procs s p)\<lparr>p_int_held := p_int_held (procs t p), p_nextheld := p_nextheld (procs t p)\<rparr>"
  shows "kinv cf sm t Q C = kinv cf sm s Q C"
  by (rule kinv_cong [OF assms(1,2)]) (subst (1 2 3 4 5 6 7 8 9 10 11) p, simp)

lemma held_last: "linked (held_link s) h (H @ [z]) \<Longrightarrow> p \<notin> set (H @ [z]) \<Longrightarrow>
    linked ((held_link s)(z := Some p, p := None)) h (H @ [z, p])"
  by (rule linked_snoc)

lemma hold_step:
  assumes h: "held_ok cf s H" and p: "p \<in> set (all_procs cf)" "istaskp (procs s p)"
  shows "\<exists>t. hold p s = Ok t \<and> held_ok cf t (if p \<in> set H then H else H @ [p]) \<and> (\<forall>Q C. kinv cf sm t Q C = kinv cf sm s Q C)
    \<and> proc_ptr t = proc_ptr s \<and> k_reenter t = k_reenter s \<and> switching t = switching s \<and> aging_counter t = aging_counter s
    \<and> (\<forall>p. procs t p = (procs s p)\<lparr>p_int_held := p_int_held (procs t p), p_nextheld := p_nextheld (procs t p)\<rparr>)"
proof (cases "p \<in> set H")
  case True
  with h show ?thesis by (simp add: hold_def held_ok_def)
next
  case False
  then have np: "\<not> p_int_held (procs s p)" using h by (simp add: held_ok_def)
  have l: "linked (held_link s) (held_head s) H" using h by (simp add: held_ok_def)
  let ?s = "upd p (\<lambda>p. p\<lparr>p_int_held := True\<rparr>) s"
  let ?u = "if H = [] then ?s\<lparr>held_head := Some p\<rparr> else upd (last H) (\<lambda>r. r\<lparr>p_nextheld := Some p\<rparr>) ?s"
  let ?t = "upd p (\<lambda>r. r\<lparr>p_nextheld := None\<rparr>) (?u\<lparr>held_tail := Some p\<rparr>)"
  have hv: "held_head (upd q f v) = held_head v" "held_tail (upd q f v) = held_tail v" "k_reenter (upd q f v) = k_reenter v"
    "switching (upd q f v) = switching v" "aging_counter (upd q f v) = aging_counter v" for q f v by (simp_all add: upd_def)
  have hd: "held_head s = None \<longleftrightarrow> H = []" using l by (cases H) auto
  have tl: "H \<noteq> [] \<Longrightarrow> held_tail s = Some (last H)" using h by (simp add: held_ok_def)
  have e: "hold p s = Ok ?t"
    using np hd tl by (cases "held_head s") (simp_all add: hold_def hv del: upd_sel)
  have lk: "held_link ?t = (if H = [] then held_link s else (held_link s)(last H := Some p))(p := None)"
    using False by (auto simp: held_link_def fun_eq_iff)
  have "linked (held_link ?t) (held_head ?t) (H @ [p])"
  proof (cases H rule: rev_cases)
    case Nil
    then show ?thesis by (simp add: hv held_link_def)
  next
    case (snoc xs z)
    with l False have "linked ((held_link s)(z := Some p, p := None)) (held_head s) (xs @ [z, p])"
      by (intro held_last) auto
    moreover have "held_link ?t = (held_link s)(z := Some p, p := None)" using lk snoc by simp
    moreover have "held_head ?t = held_head s" using snoc by (simp add: hv)
    moreover have "H @ [p] = xs @ [z, p]" using snoc by simp
    ultimately show ?thesis by simp
  qed
  moreover have "p_int_held (procs ?t r) \<longleftrightarrow> r \<in> set (H @ [p])" for r
    using h by (auto simp: held_ok_def)
  moreover have "istaskp (procs ?t r) = istaskp (procs s r)" for r by (simp add: istaskp_def)
  ultimately have ho: "held_ok cf ?t (H @ [p])" using h p by (auto simp: held_ok_def hv)
  have pr: "procs ?t r = (procs s r)\<lparr>p_int_held := p_int_held (procs ?t r), p_nextheld := p_nextheld (procs ?t r)\<rparr>" for r
    by simp
  have qs: "q_head ?t = q_head s" "q_tail ?t = q_tail s" by simp_all
  have pp: "proc_ptr ?t = proc_ptr s" by simp
  have "kinv cf sm ?t Q C = kinv cf sm s Q C" for Q C by (rule kinv_held [OF qs pr])
  with e ho False pr pp show ?thesis by (intro exI [of _ ?t]) (simp add: hv del: upd_sel)
qed

text \<open>What else a running kernel keeps: the queue of held-up tasks, the ranges of the counters, and
  that no routine is at work.\<close>

definition side_ok :: "config \<Rightarrow> kern \<Rightarrow> bool" where
  "side_ok cf s \<longleftrightarrow> (\<exists>H. held_ok cf s H) \<and> waits_ok s \<and> (\<forall>p. 0 \<le> rr_counter (procs s p) \<and> rr_counter (procs s p) < RR_QUANTUM)
     \<and> 0 \<le> aging_counter s \<and> aging_counter s < AGING_TICK \<and> k_reenter s = 0 \<and> \<not> switching s \<and> one_idle s"

text \<open>A weaker frame, in which the queue of held-up tasks may change.\<close>

definition calm :: "kern \<Rightarrow> kern \<Rightarrow> bool" where
  "calm s t \<longleftrightarrow> (\<forall>p. p_priority (procs t p) = p_priority (procs s p) \<and> rr_counter (procs t p) \<in> {rr_counter (procs s p), 0}
       \<and> wait_ticks (procs t p) \<in> {wait_ticks (procs s p), 0})
     \<and> aging_counter t = aging_counter s \<and> k_reenter t = k_reenter s \<and> (\<not> switching s \<longrightarrow> \<not> switching t)"

lemma calm_refl [simp]: "calm s s"
  by (simp add: calm_def)

lemma calm_frame: "frame s t \<Longrightarrow> calm s t"
  by (auto simp: calm_def frame_def static_def)

lemma calm_trans: "calm s t \<Longrightarrow> calm t u \<Longrightarrow> calm s u"
  unfolding calm_def by (auto simp: all_conj_distrib) (metis insert_iff singletonD)+

lemma calm_held:
  assumes "\<And>p. procs t p = (procs s p)\<lparr>p_int_held := p_int_held (procs t p), p_nextheld := p_nextheld (procs t p)\<rparr>"
    and "aging_counter t = aging_counter s" "k_reenter t = k_reenter s" "switching t = switching s"
  shows "calm s t"
proof -
  have "p_priority (procs t p) = p_priority (procs s p) \<and> rr_counter (procs t p) = rr_counter (procs s p)
      \<and> wait_ticks (procs t p) = wait_ticks (procs s p)" for p
    by (subst (1 2 3) assms(1)) simp
  with assms(2-4) show ?thesis by (simp add: calm_def)
qed

lemma side_calm:
  assumes f: "calm s t" and s: "side_ok cf s" and h: "held_ok cf t H"
  shows "side_ok cf t"
proof -
  have st: "p_priority (procs t p) = p_priority (procs s p)" "rr_counter (procs t p) = rr_counter (procs s p) \<or> rr_counter (procs t p) = 0"
    "wait_ticks (procs t p) = wait_ticks (procs s p) \<or> wait_ticks (procs t p) = 0" for p
    using f by (auto simp: calm_def)
  have "0 \<le> wait_ticks (procs t p) \<and> wait_ticks (procs t p) \<le> MAX_WAIT_TICKS" for p
    using st(3) [of p] s by (auto simp: side_ok_def waits_ok_def MAX_WAIT_TICKS_def)
  moreover have "0 \<le> rr_counter (procs t p) \<and> rr_counter (procs t p) < RR_QUANTUM" for p
    using st(2) [of p] s by (auto simp: side_ok_def RR_QUANTUM_def)
  ultimately show ?thesis using s f h st(1) by (auto simp: side_ok_def waits_ok_def one_idle_def calm_def)
qed

lemma side_frame: "frame s t \<Longrightarrow> side_ok cf s \<Longrightarrow> side_ok cf t"
  using side_calm [OF calm_frame] held_ok_frame by (metis side_ok_def)

text \<open>The state between two entries into the kernel.\<close>

definition kernel_ok :: "config \<Rightarrow> 32 word \<Rightarrow> kern \<Rightarrow> bool" where
  "kernel_ok cf sm s \<longleftrightarrow> (\<exists>Q C. kinv cf sm s Q C \<and> best Q (proc_ptr s)) \<and> side_ok cf s \<and> slots cf < 2 ^ 31"

lemma kernel_okI:
  assumes "kernel_ok cf sm s" and "kinv cf sm t Q C" and "best Q (proc_ptr t)" and "frame s t"
  shows "kernel_ok cf sm t"
  using assms side_frame by (auto simp: kernel_ok_def)

section \<open>unhold\<close>

lemma unhold_loop_step:
  assumes "kinv cf sm s Q C" and "best Q (proc_ptr s)" and "held_ok cf s (p # H)" and "k_reenter s = 0" "\<not> switching s"
    and "length H < n"
  shows "\<exists>t R. unhold_loop n p s = Ok t \<and> kinv cf sm t R C \<and> best R (proc_ptr t) \<and> held_ok cf t [] \<and> calm s t"
  using assms
proof (induction n arbitrary: s Q p H)
  case 0
  then show ?case by simp
next
  case (Suc n)
  have l: "linked (held_link s) (held_link s p) H" and tk: "p \<in> set (all_procs cf)" "istaskp (procs s p)"
    using Suc.prems(3) by (auto simp: held_ok_def)
  have np: "p \<notin> set H" using linked_distinct [of "held_link s" "held_head s" "p # H"] Suc.prems(3) by (simp add: held_ok_def)
  let ?s1 = "let s = s\<lparr>held_head := p_nextheld (procs s p)\<rparr> in if held_head s = None then s\<lparr>held_tail := None\<rparr> else s"
  let ?s2 = "upd p (\<lambda>p. p\<lparr>p_int_held := False\<rparr>) ?s1"
  have p1: "procs ?s1 = procs s" "q_head ?s1 = q_head s" "q_tail ?s1 = q_tail s" "proc_ptr ?s1 = proc_ptr s"
    "held_head ?s1 = held_link s p" "k_reenter ?s1 = k_reenter s" "switching ?s1 = switching s" "aging_counter ?s1 = aging_counter s"
    by (simp_all add: Let_def held_link_def)
  have u2: "held_head ?s2 = held_head ?s1" "k_reenter ?s2 = k_reenter ?s1" "switching ?s2 = switching ?s1"
    "aging_counter ?s2 = aging_counter ?s1" "held_tail ?s2 = held_tail ?s1" by (simp_all add: upd_def)
  have p2: "procs ?s2 r = (procs s r)\<lparr>p_int_held := p_int_held (procs ?s2 r), p_nextheld := p_nextheld (procs ?s2 r)\<rparr>" for r
    using p1(1) by simp
  have k2: "kinv cf sm ?s2 Q C"
    using Suc.prems(1) kinv_held [of ?s2 s, OF _ _ p2] p1(2,3) by simp
  have tl: "H \<noteq> [] \<longrightarrow> held_tail ?s1 = Some (last H)"
    using Suc.prems(3) l by (cases H) (auto simp: held_ok_def Let_def held_link_def)
  have "held_link ?s2 = held_link s" using p1(1) by (auto simp: held_link_def fun_eq_iff)
  moreover have "istaskp (procs ?s2 r) = istaskp (procs s r)" for r using p1(1) by (simp add: istaskp_def)
  moreover have "p_int_held (procs ?s2 r) \<longleftrightarrow> r \<in> set H" for r
    using Suc.prems(3) np p1(1) by (auto simp: held_ok_def)
  ultimately have h2: "held_ok cf ?s2 H"
    using l Suc.prems(3) tl u2(1,5) p1(5) unfolding held_ok_def by simp
  have b2: "best Q (proc_ptr ?s2)" using Suc.prems(2) p1(4) by simp
  have t2: "istaskp (procs ?s2 p)" using tk(2) p1(1) by (simp add: istaskp_def)
  have "k_reenter ?s2 = 0" "\<not> switching ?s2" using Suc.prems(4,5) u2 p1 by simp_all
  from interrupt_step [OF k2 b2 tk(1) t2 this] obtain u R where u: "interrupt p ?s2 = Ok u" "kinv cf sm u R C" "frame ?s2 u" "best R (proc_ptr u)"
    by blast
  have hu: "held_ok cf u H" using held_ok_frame [OF u(3)] h2 by simp
  have fu: "held_head u = held_link s p" "k_reenter u = 0" "\<not> switching u"
    using u(3) u2 p1 Suc.prems(4,5) by (simp_all add: frame_def)
  have "calm s ?s2" by (rule calm_held [OF p2]) (use u2 p1 in simp_all)
  then have cu: "calm s u" using calm_frame [OF u(3)] by (rule calm_trans)
  show ?case
  proof (cases H)
    case Nil
    then have "held_link s p = None" using l by simp
    moreover have "unhold_loop (Suc n) p s = bind_res (interrupt p ?s2) (\<lambda>s. case held_head s of None \<Rightarrow> Ok s | Some rp \<Rightarrow> unhold_loop n rp s)"
      by (simp add: Let_def)
    ultimately have "unhold_loop (Suc n) p s = Ok u" using u(1) fu(1) by simp
    with u(2,4) hu Nil cu show ?thesis by auto
  next
    case (Cons y ys)
    then have "held_link s p = Some y" using l by simp
    moreover have "unhold_loop (Suc n) p s = bind_res (interrupt p ?s2) (\<lambda>s. case held_head s of None \<Rightarrow> Ok s | Some rp \<Rightarrow> unhold_loop n rp s)"
      by (simp add: Let_def)
    ultimately have e: "unhold_loop (Suc n) p s = unhold_loop n y u" using u(1) fu(1) by simp
    have "length ys < n" using Suc.prems(6) Cons by simp
    from Suc.IH [OF u(2,4) hu [unfolded Cons] fu(2,3) this] obtain t R' where t: "unhold_loop n y u = Ok t" "kinv cf sm t R' C"
      "best R' (proc_ptr t)" "held_ok cf t []" "calm u t" by blast
    with e calm_trans [OF cu t(5)] show ?thesis by auto
  qed
qed

end
