(* ===== verification/Guarded.thy ===== *)
theory Guarded
  imports Prelude
begin

text \<open>
  Runs of a program that is a function of its events: each event is allowed in some states, and
  a routine does it. If every routine ends and keeps an invariant, so does every run of allowed
  events.
\<close>

section \<open>Runs\<close>

fun run :: "('e \<Rightarrow> 's \<Rightarrow> 's res) \<Rightarrow> 'e list \<Rightarrow> 's \<Rightarrow> 's res" where
  "run step [] s = Ok s"
| "run step (e # es) s = bind_res (step e s) (run step es)"

fun may_run :: "('e \<Rightarrow> 's \<Rightarrow> bool) \<Rightarrow> ('e \<Rightarrow> 's \<Rightarrow> 's res) \<Rightarrow> 'e list \<Rightarrow> 's \<Rightarrow> bool" where
  "may_run may step [] s = True"
| "may_run may step (e # es) s = (may e s \<and> (case step e s of Ok t \<Rightarrow> may_run may step es t | _ \<Rightarrow> True))"

section \<open>Contract\<close>

locale guarded =
  fixes step :: "'e \<Rightarrow> 's \<Rightarrow> 's res" and may :: "'e \<Rightarrow> 's \<Rightarrow> bool" and inv :: "'s \<Rightarrow> bool"
  assumes step_ok: "inv s \<Longrightarrow> may e s \<Longrightarrow> \<exists>t. step e s = Ok t \<and> inv t"
begin

lemma run_ok: "inv s \<Longrightarrow> may_run may step es s \<Longrightarrow> \<exists>t. run step es s = Ok t \<and> inv t"
proof (induction es arbitrary: s)
  case (Cons e es)
  then obtain t where t: "step e s = Ok t" "inv t" using step_ok [of s e] by auto
  then have "may_run may step es t" using Cons.prems(2) by simp
  from Cons.IH [OF t(2) this] t(1) show ?case by simp
qed simp

lemma never_stuck: "inv s \<Longrightarrow> may_run may step es s \<Longrightarrow> run step es s = Ok t \<Longrightarrow> may e t \<Longrightarrow> \<exists>u. step e t = Ok u"
  using run_ok [of s es] step_ok [of t e] by auto

end

end
