(* ===== verification/Kernel_Runs.thy ===== *)
theory Kernel_Runs
  imports Kernel_Interrupts Guarded
begin

text \<open>
  The running kernel: any sequence of system calls, interrupts, clock ticks and signals. Every
  routine ends, the kernel never deadlocks, and the processor always belongs to a process of
  the highest class that has a runnable one.
\<close>

section \<open>The routines as steps\<close>

lemma call_ok:
  assumes k: "kernel_ok cf sm s" and g: "good_call s f sd"
  shows "\<exists>r t. sys_call cf sm f sd m s = Ok (r, t) \<and> kernel_ok cf sm t"
proof -
  from k obtain Q C where iv: "kinv cf sm s Q C" "best Q (proc_ptr s)" and o: "one_idle s" and n: "slots cf < 2 ^ 31"
    by (auto simp: kernel_ok_def side_ok_def)
  have "\<exists>r t R C'. sys_call cf sm f sd m s = Ok (r, t) \<and> kinv cf sm t R C' \<and> frame s t \<and> best R (proc_ptr t)"
    using user_call [OF iv] system_call [OF iv _ o g n] by (cases "isuserp (procs s (proc_ptr s))") blast+
  with kernel_okI [OF k] show ?thesis by blast
qed

lemma interrupt_keeps:
  assumes k: "kernel_ok cf sm s" and p: "p \<in> set (all_procs cf)" "istaskp (procs s p)"
  shows "\<exists>t. interrupt p s = Ok t \<and> kernel_ok cf sm t"
proof -
  from k obtain Q C where iv: "kinv cf sm s Q C" "best Q (proc_ptr s)" and r: "k_reenter s = 0" "\<not> switching s"
    by (auto simp: kernel_ok_def side_ok_def)
  from interrupt_step [OF iv p r] kernel_okI [OF k] show ?thesis by blast
qed

text \<open>An interrupt while a routine of the kernel is at work: the counter of the assembler code is not 0.\<close>

definition nested :: "int \<Rightarrow> kern \<Rightarrow> kern res" where
  "nested p s = bind_res (interrupt p (s\<lparr>k_reenter := k_reenter s + 1\<rparr>)) (\<lambda>t. Ok (t\<lparr>k_reenter := k_reenter t - 1\<rparr>))"

lemma nested_keeps:
  assumes k: "kernel_ok cf sm s" and p: "p \<in> set (all_procs cf)" "istaskp (procs s p)"
  shows "\<exists>t. nested p s = Ok t \<and> kernel_ok cf sm t"
proof -
  from k obtain Q C H where iv: "kinv cf sm s Q C" "best Q (proc_ptr s)" and sd: "side_ok cf s" and h: "held_ok cf s H"
    and r: "k_reenter s = 0" and n: "slots cf < 2 ^ 31" by (auto simp: kernel_ok_def side_ok_def)
  let ?s = "s\<lparr>k_reenter := k_reenter s + 1\<rparr>"
  have hs: "held_ok cf (u\<lparr>k_reenter := i\<rparr>) H' = held_ok cf u H'" for u i H'
    by (simp add: held_ok_def held_link_def [abs_def])
  have p': "istaskp (procs ?s p)" using p(2) by simp
  have h': "held_ok cf ?s H" using h by (simp add: hs)
  from hold_step [OF h' p(1) p', where sm = sm] obtain t where t: "hold p ?s = Ok t" "held_ok cf t (if p \<in> set H then H else H @ [p])"
    "\<forall>Q C. kinv cf sm t Q C = kinv cf sm ?s Q C" "proc_ptr t = proc_ptr s" "k_reenter t = k_reenter s + 1" "switching t = switching s"
    "aging_counter t = aging_counter s"
    "\<forall>p. procs t p = (procs s p)\<lparr>p_int_held := p_int_held (procs t p), p_nextheld := p_nextheld (procs t p)\<rparr>" by auto
  let ?t = "t\<lparr>k_reenter := k_reenter t - 1\<rparr>"
  have e: "nested p s = Ok ?t" using t(1) r by (simp add: nested_def interrupt_def)
  have "kinv cf sm ?t Q C = kinv cf sm t Q C" by (rule kinv_cong) simp_all
  moreover have "kinv cf sm ?s Q C = kinv cf sm s Q C" by (rule kinv_cong) simp_all
  ultimately have kt: "kinv cf sm ?t Q C" using t(3) iv(1) by simp
  have pt: "procs ?t = procs t" by simp
  have pr: "procs ?t r = (procs s r)\<lparr>p_int_held := p_int_held (procs ?t r), p_nextheld := p_nextheld (procs ?t r)\<rparr>" for r
    unfolding pt by (rule spec [OF t(8)])
  have "aging_counter ?t = aging_counter s" using t(7) by simp
  moreover have "k_reenter ?t = k_reenter s" using t(5) by simp
  moreover have "switching ?t = switching s" using t(6) by simp
  ultimately have c: "calm s ?t" by (rule calm_held [OF pr])
  have "held_ok cf ?t (if p \<in> set H then H else H @ [p])" unfolding hs by (rule t(2))
  then have "side_ok cf ?t" by (rule side_calm [OF c sd])
  moreover have "best Q (proc_ptr ?t)" using iv(2) t(4) by simp
  ultimately have "kernel_ok cf sm ?t" using kt n unfolding kernel_ok_def by blast
  with e show ?thesis by blast
qed

lemma unhold_keeps:
  assumes k: "kernel_ok cf sm s" and h: "held_head s \<noteq> None"
  shows "\<exists>t. unhold cf s = Ok t \<and> kernel_ok cf sm t"
proof -
  from k obtain Q C H where iv: "kinv cf sm s Q C" "best Q (proc_ptr s)" and sd: "side_ok cf s" and ho: "held_ok cf s H"
    and r: "k_reenter s = 0" "\<not> switching s" and n: "slots cf < 2 ^ 31" by (auto simp: kernel_ok_def side_ok_def)
  obtain p xs where H: "H = p # xs" using ho h by (cases H) (auto simp: held_ok_def)
  then have hp: "held_head s = Some p" using ho by (auto simp: held_ok_def)
  have "set H \<subseteq> set (all_procs cf)" using ho by (auto simp: held_ok_def)
  then have "card (set H) \<le> card (set (all_procs cf))" by (intro card_mono) auto
  also have "\<dots> \<le> slots cf" using card_length [of "all_procs cf"] by (simp add: all_procs_def)
  finally have "card (set H) \<le> slots cf" .
  moreover have "distinct H" using ho linked_distinct by (auto simp: held_ok_def)
  ultimately have "length xs < Suc (slots cf)" using H by (simp add: distinct_card)
  from unhold_loop_step [OF iv ho [unfolded H] r this] obtain t R where t: "unhold_loop (Suc (slots cf)) p s = Ok t"
    "kinv cf sm t R C" "best R (proc_ptr t)" "held_ok cf t []" "calm s t" by blast
  have "unhold cf s = Ok t" using t(1) hp r(2) by (simp add: unhold_def del: unhold_loop.simps)
  moreover have "kernel_ok cf sm t" using t(2,3) side_calm [OF t(5) sd t(4)] n by (auto simp: kernel_ok_def)
  ultimately show ?thesis by blast
qed

lemma signal_keeps:
  assumes k: "kernel_ok cf sm s" and p: "isuserp (procs s p)"
  shows "\<exists>t. cause_sig cf sm p n s = Ok t \<and> kernel_ok cf sm t"
proof -
  from k obtain Q C where iv: "kinv cf sm s Q C" and b: "best Q (proc_ptr s)" by (auto simp: kernel_ok_def)
  from cause_sig_step [OF iv p, of n] b kernel_okI [OF k] show ?thesis by blast
qed

section \<open>The clock\<close>

text \<open>If the running process is of group 1, it is the first of it.\<close>

lemma best_g1:
  assumes iv: "kinv cf sm s Q C" and b: "best Q (proc_ptr s)" and g: "is_g1 (procs s (proc_ptr s))"
  shows "Q G1 \<noteq> [] \<and> hd (Q G1) = proc_ptr s"
proof -
  have sk: "sched_ok cf s Q" and ro: "roles cf sm s" using iv by (simp_all add: kinv_def ipc_ok_def)
  have "proc_ptr s \<noteq> IDLE" using g ro by (auto simp: is_g1_def roles_def)
  then obtain q where q: "proc_ptr s \<in> set (Q q)" "q \<noteq> G2 \<longrightarrow> proc_ptr s = hd (Q q)" using b by (auto simp: best_def)
  have "belongs (procs s (proc_ptr s)) = G1"
    using g by (simp add: is_g1_def belongs_def in_group_def isuserp_def istaskp_def isservp_def group_queue_def)
  then have "q = G1" using belongs_queue [OF sk q(1)] by simp
  with q show ?thesis by auto
qed

lemma sched_step:
  assumes iv: "kinv cf sm s Q C" and b: "best Q (proc_ptr s)"
  shows "\<exists>t R. lock_sched cf s = Ok t \<and> kinv cf sm t R C \<and> frame s t \<and> best R (proc_ptr t) \<and> same_procs s t"
proof -
  let ?s = "s\<lparr>switching := True\<rparr>"
  have iv': "kinv cf sm ?s Q C" using iv by simp
  then have sk: "sched_ok cf ?s Q" by (simp add: kinv_def ipc_ok_def)
  have g: "is_g1 (procs ?s (proc_ptr ?s)) \<Longrightarrow> Q G1 \<noteq> [] \<and> hd (Q G1) = proc_ptr ?s"
    using best_g1 [OF iv b] by simp
  from sched_ok_sched [OF sk g] obtain t where t: "sched cf ?s = Ok t" "sched_ok cf t (rotated ?s Q)" "same_procs ?s t"
    "t = ?s \<or> choice ?s (rotated ?s Q) (proc_ptr t)" by blast
  have "queued (rotated ?s Q) p = queued Q p" for p
  proof -
    have "set (rotated ?s Q q) = set (Q q)" for q by (simp add: rotated_def Let_def)
    then show ?thesis by (simp add: queued_def)
  qed
  then have kt: "kinv cf sm t (rotated ?s Q) C" by (rule kinv_sched [OF iv' t(2,3) framedD [OF frame_sched t(1)]])
  have "best (rotated ?s Q) (proc_ptr t)"
  proof (cases "t = ?s")
    case True
    then have "rotated ?s Q = Q" using lists_unique [of ?s "rotated ?s Q" Q] t(2) sk by (auto simp: sched_ok_def)
    with True b show ?thesis by simp
  next
    case False
    with t(4) show ?thesis by (blast intro: choice_best)
  qed
  moreover have e: "lock_sched cf s = Ok (t\<lparr>switching := False\<rparr>)" using t(1) by (simp add: lock_sched_def gateway_def)
  moreover have "frame s (t\<lparr>switching := False\<rparr>)"
    using e unfolding lock_sched_def by (rule framedD [OF frame_gateway [OF frame_sched]])
  moreover have "same_procs s (t\<lparr>switching := False\<rparr>)" using t(3) by (simp add: same_procs_def)
  ultimately show ?thesis using kt by (intro exI [of _ "t\<lparr>switching := False\<rparr>"] exI [of _ "rotated ?s Q"]) simp
qed

lemma resched_step:
  assumes k: "kernel_ok cf sm s"
  shows "\<exists>t. lock_sched cf s = Ok t \<and> kernel_ok cf sm t \<and> frame s t \<and> same_procs s t"
proof -
  from k obtain Q C where iv: "kinv cf sm s Q C" "best Q (proc_ptr s)" by (auto simp: kernel_ok_def)
  from sched_step [OF iv] kernel_okI [OF k] show ?thesis by blast
qed

lemma resched_keeps: "kernel_ok cf sm s \<Longrightarrow> \<exists>t. lock_sched cf s = Ok t \<and> kernel_ok cf sm t"
  using resched_step by blast

text \<open>Fields of a process that neither the scheduler nor message passing reads.\<close>

definition quiet :: "proc \<Rightarrow> proc \<Rightarrow> bool" where
  "quiet p r \<longleftrightarrow> p_flags r = p_flags p \<and> p_priority r = p_priority p \<and> sched_group r = sched_group p
     \<and> cpu_estimate r = cpu_estimate p \<and> wait_ticks r = wait_ticks p \<and> p_nextready r = p_nextready p
     \<and> p_sendto r = p_sendto p \<and> p_sendlink r = p_sendlink p \<and> p_callerq r = p_callerq p \<and> p_getfrom r = p_getfrom p
     \<and> p_stguard r = p_stguard p \<and> p_map r = p_map p \<and> p_int_held r = p_int_held p \<and> p_nextheld r = p_nextheld p"

lemma kernel_ok_upd:
  assumes k: "kernel_ok cf sm s" and f: "\<And>r. quiet r (f r)" and v: "rr_counter (f (procs s p)) \<in> {0..<RR_QUANTUM}"
  shows "kernel_ok cf sm (upd p f s)"
proof -
  note f' = f [unfolded quiet_def]
  have "kinv cf sm (upd p f s) Q C = kinv cf sm s Q C" for Q C by (rule kinv_cong) (auto simp: f')
  moreover have "held_ok cf (upd p f s) H = held_ok cf s H" for H
  proof -
    have "held_link (upd p f s) = held_link s" by (auto simp: held_link_def fun_eq_iff f')
    moreover have "istaskp (procs (upd p f s) r) = istaskp (procs s r)" "p_int_held (procs (upd p f s) r) = p_int_held (procs s r)" for r
      by (simp_all add: istaskp_def f')
    moreover have "held_head (upd p f s) = held_head s" "held_tail (upd p f s) = held_tail s" by (simp_all add: upd_def)
    ultimately show ?thesis unfolding held_ok_def by simp
  qed
  ultimately show ?thesis using k v by (auto simp: kernel_ok_def side_ok_def one_idle_def upd_def waits_ok_def f')
qed

lemma quantum_keeps:
  assumes k: "kernel_ok cf sm s"
  shows "\<exists>t. quantum_part cf s = Ok t \<and> kernel_ok cf sm t"
proof (cases "is_g1 (procs s (proc_ptr s))")
  case False
  with k show ?thesis by (auto simp: quantum_part_def is_g1_def Let_def)
next
  case g: True
  let ?p = "proc_ptr s"
  let ?n = "rr_counter (procs s ?p) + 1"
  from k have r: "0 \<le> rr_counter (procs s ?p)" "rr_counter (procs s ?p) < RR_QUANTUM" and sd: "side_ok cf s"
    by (auto simp: kernel_ok_def side_ok_def)
  then have n: "int32 ?n = ?n" by (intro int32_id) (auto simp: RR_QUANTUM_def)
  have upd: "kernel_ok cf sm (upd ?p (\<lambda>r. r\<lparr>rr_counter := v r\<rparr>) s)" if "0 \<le> v (procs s ?p)" "v (procs s ?p) < RR_QUANTUM" for v
    by (rule kernel_ok_upd [OF k]) (use that in \<open>simp_all add: quiet_def\<close>)
  show ?thesis
  proof (cases "RR_QUANTUM \<le> ?n")
    case False
    then have "quantum_part cf s = Ok (upd ?p (\<lambda>r. r\<lparr>rr_counter := int32 (rr_counter r + 1)\<rparr>) s)"
      using g n by (simp add: quantum_part_def is_g1_def Let_def)
    with upd [of "\<lambda>r. int32 (rr_counter r + 1)"] False n r show ?thesis by simp
  next
    case True
    have uu: "upd ?p (\<lambda>p. p\<lparr>rr_counter := 0\<rparr>) (upd ?p (\<lambda>r. r\<lparr>rr_counter := int32 (rr_counter r + 1)\<rparr>) s)
        = upd ?p (\<lambda>p. p\<lparr>rr_counter := 0\<rparr>) s"
      by (simp add: upd_def)
    have "quantum_part cf s = lock_sched cf (upd ?p (\<lambda>p. p\<lparr>rr_counter := 0\<rparr>) s)"
      using g n True uu by (simp add: quantum_part_def is_g1_def Let_def)
    moreover have "kernel_ok cf sm (upd ?p (\<lambda>p. p\<lparr>rr_counter := 0\<rparr>) s)"
      by (rule upd) (simp_all add: RR_QUANTUM_def)
    ultimately show ?thesis using resched_keeps by simp
  qed
qed

lemma aging_keeps:
  assumes k: "kernel_ok cf sm s"
  shows "\<exists>t. aging_part cf s = Ok t \<and> kernel_ok cf sm t"
proof -
  from k have c: "0 \<le> aging_counter s" "aging_counter s < AGING_TICK" by (auto simp: kernel_ok_def side_ok_def)
  then have n: "int32 (aging_counter s + 1) = aging_counter s + 1" by (intro int32_id) (auto simp: AGING_TICK_def)
  have set: "kernel_ok cf sm (age_set A s\<lparr>aging_counter := v\<rparr>)" if v: "0 \<le> v" "v < AGING_TICK" for A v
  proof -
    let ?u = "age_set A s\<lparr>aging_counter := v\<rparr>"
    have "kinv cf sm ?u Q C = kinv cf sm s Q C" for Q C by (rule kinv_cong) (auto simp: age_set_def aged_def)
    moreover have "held_ok cf ?u H = held_ok cf s H" for H
    proof -
      have "held_link ?u = held_link s" by (auto simp: held_link_def age_set_def aged_def fun_eq_iff)
      moreover have "istaskp (procs ?u r) = istaskp (procs s r)" for r by (simp add: istaskp_def age_set_def aged_def)
      ultimately show ?thesis by (simp add: held_ok_def age_set_def aged_def)
    qed
    moreover have "waits_ok (age_set A s)" using k by (intro waits_ok_age) (simp add: kernel_ok_def side_ok_def)
    ultimately show ?thesis using k v
      by (auto simp: kernel_ok_def side_ok_def one_idle_def age_set_def aged_def waits_ok_def)
  qed
  show ?thesis
  proof (cases "AGING_TICK \<le> aging_counter s + 1")
    case False
    then have "aging_part cf s = Ok (age_set {} s\<lparr>aging_counter := aging_counter s + 1\<rparr>)"
      using n by (simp add: aging_part_def Let_def)
    with set [of "aging_counter s + 1" "{}"] False c show ?thesis by simp
  next
    case True
    let ?s = "s\<lparr>aging_counter := aging_counter s + 1\<rparr>"
    from k obtain Q where "sched_ok cf s Q" by (auto simp: kernel_ok_def kinv_def ipc_ok_def)
    then have "update_aging_for_group2 cf ?s = Ok (age_set (ageing cf ?s Q) ?s)" by (intro update_aging_set) simp
    moreover have "age_set A ?s\<lparr>aging_counter := 0\<rparr> = age_set A s\<lparr>aging_counter := 0\<rparr>" for A
      by (simp add: age_set_def aged_def cong: if_cong)
    ultimately have "aging_part cf s = Ok (age_set (ageing cf ?s Q) s\<lparr>aging_counter := 0\<rparr>)"
      using n True by (simp add: aging_part_def Let_def)
    with set [of 0] show ?thesis by (simp add: AGING_TICK_def)
  qed
qed

lemma tick_keeps: "kernel_ok cf sm s \<Longrightarrow> \<exists>t. handle_clock_tick cf s = Ok t \<and> kernel_ok cf sm t"
  unfolding handle_clock_tick_parts using quantum_keeps aging_keeps by (metis bind_res.simps(1))

end
