(* ===== verification/Kernel_System.thy ===== *)
theory Kernel_System
  imports Kernel_Ipc
begin

text \<open>
  The system task, \<^verbatim>\<open>kernel/system.c\<close>: one definition per handler, on the kernel state
  extended by the physical memory and the list of memory chunks. Copying physical memory and
  the layout of structures in it are parameters: \<open>phys_copy\<close> is assembler, the structures are
  declared in headers outside the sources.
\<close>

section \<open>State\<close>

type_synonym ram = "32 word \<Rightarrow> 8 word"

record sysk =
  kn :: kern
  ram :: ram
  mem :: "(32 word \<times> 32 word) list"
  tot_mem_size :: "32 word"
  console :: string

datatype trace_req = T_STOP | T_GETINS | T_GETDATA | T_GETUSER | T_SETINS | T_SETDATA | T_SETUSER
  | T_RESUME | T_STEP | T_OTHER

text \<open>The code outside the sources that the handlers call, the layout of the structures that
  are declared outside, and constants. \<open>privilege_of\<close> is for tasks and for others.\<close>

record sigmsg =
  sm_signo :: "32 word"
  sm_mask :: "32 word"
  sm_sighandler :: "32 word"
  sm_sigreturn :: "32 word"
  sm_stkptr :: "32 word"

record sigcontext =
  sc_flags :: "32 word"
  sc_mask :: "32 word"
  sc_regs :: regs

record sigframe =
  sf_retadr :: "32 word"
  sf_signo :: "32 word"
  sf_code :: "32 word"
  sf_scp :: "32 word"
  sf_fp :: "32 word"
  sf_retadr2 :: "32 word"
  sf_scpcopy :: "32 word"

record env =
  phys_copy :: "32 word \<Rightarrow> 32 word \<Rightarrow> 32 word \<Rightarrow> ram \<Rightarrow> ram"
  get_map :: "ram \<Rightarrow> 32 word \<Rightarrow> seg \<Rightarrow> mem_map"
  put_map :: "(seg \<Rightarrow> mem_map) \<Rightarrow> 32 word \<Rightarrow> ram \<Rightarrow> ram"
  get_name :: "ram \<Rightarrow> 32 word \<Rightarrow> string"
  get_cpvec :: "ram \<Rightarrow> 32 word \<Rightarrow> nat \<Rightarrow> 32 word \<times> 32 word \<times> 32 word"
  sizeof_map :: "32 word"
  sizeof_cpvec :: "32 word"
  sys_m :: "32 word"
  sizeof_sigmsg :: "32 word"
  get_sigmsg :: "ram \<Rightarrow> 32 word \<Rightarrow> sigmsg"
  sizeof_sigcontext :: "32 word"
  get_sigcontext :: "ram \<Rightarrow> 32 word \<Rightarrow> sigcontext"
  put_sigcontext :: "sigcontext \<Rightarrow> 32 word \<Rightarrow> ram \<Rightarrow> ram"
  sizeof_sigframe :: "32 word"
  put_sigframe :: "sigframe \<Rightarrow> 32 word \<Rightarrow> ram \<Rightarrow> ram"
  offset_sf_fp :: "32 word"
  SC_SIGCONTEXT :: "32 word"
  SC_NOREGLOCALS :: "32 word"
  protected_mode :: bool
  privilege_of :: "bool \<Rightarrow> 32 word"
  code_selector :: "32 word \<Rightarrow> 32 word"
  data_selector :: "32 word \<Rightarrow> 32 word"
  click_to_hclick :: "32 word \<Rightarrow> 32 word"
  RBT_MONITOR :: int
  mon_params :: "32 word"
  mon_parmsize :: "32 word"
  wreboot :: "int \<Rightarrow> sysk \<Rightarrow> sysk"
  SYSSIGNON :: int
  SYSGETENV :: int
  sizeof_systaskinfo :: "32 word"
  put_systaskinfo :: "int \<Rightarrow> 32 word \<Rightarrow> ram \<Rightarrow> ram"
  sizeof_sysgetenv :: "32 word"
  get_sysgetenv :: "ram \<Rightarrow> 32 word \<Rightarrow> 32 word \<times> 32 word \<times> 32 word \<times> 32 word"
  sizeof_key :: "32 word"
  getenv :: "ram \<Rightarrow> 32 word \<Rightarrow> 32 word \<Rightarrow> (32 word \<times> 32 word) option"
  trace_of :: "int \<Rightarrow> trace_req"
  user_trace :: "message \<Rightarrow> sysk \<Rightarrow> (status \<times> message \<times> sysk) res"

definition fld :: "message \<Rightarrow> field \<Rightarrow> int" where
  "fld m f = m_field m f"

definition set_fld :: "field \<Rightarrow> int \<Rightarrow> message \<Rightarrow> message" where
  "set_fld f v m = m\<lparr>m_field := (m_field m)(f := v)\<rparr>"

definition addr :: "message \<Rightarrow> field \<Rightarrow> 32 word" where
  "addr m f = of_int (fld m f)"

text \<open>The names com.h gives to message fields.\<close>

definition PROC1 :: field where "PROC1 = M1_i1"
definition PROC2 :: field where "PROC2 = M1_i2"
definition PID :: field where "PID = M1_i3"

definition assert :: "bool \<Rightarrow> 'a res \<Rightarrow> 'a res" where
  "assert b r = (if b then r else Panic ''assertion'')"

section \<open>Addresses\<close>

text \<open>\<open>umap\<close> for the INTEL kernel; 0 is failure.\<close>

definition umap :: "config \<Rightarrow> proc \<Rightarrow> seg \<Rightarrow> 32 word \<Rightarrow> 32 word \<Rightarrow> 32 word" where
  "umap cf rp sg vir_addr bytes =
     (if bytes = 0 then 0
      else let vc = drop_bit (CLICK_SHIFT cf) (vir_addr + bytes - 1);
               sg = (if sg \<noteq> T then (if vc < mem_vir (p_map rp D) + mem_len (p_map rp D) then D else S) else sg)
           in if mem_vir (p_map rp sg) + mem_len (p_map rp sg) \<le> drop_bit (CLICK_SHIFT cf) vir_addr then 0
              else push_bit (CLICK_SHIFT cf) (mem_phys (p_map rp sg))
                   + (vir_addr - push_bit (CLICK_SHIFT cf) (mem_vir (p_map rp sg))))"

definition numap :: "config \<Rightarrow> kern \<Rightarrow> int \<Rightarrow> 32 word \<Rightarrow> 32 word \<Rightarrow> 32 word" where
  "numap cf s proc_nr vir_addr bytes = umap cf (procs s proc_nr) D vir_addr bytes"

definition vir_copy :: "config \<Rightarrow> env \<Rightarrow> int \<Rightarrow> 32 word \<Rightarrow> int \<Rightarrow> 32 word \<Rightarrow> 32 word \<Rightarrow> sysk \<Rightarrow> status \<times> sysk" where
  "vir_copy cf ev src_proc src_vir dst_proc dst_vir bytes s =
     (let src_phys = umap cf (procs (kn s) src_proc) D src_vir bytes;
          dst_phys = umap cf (procs (kn s) dst_proc) D dst_vir bytes
      in if src_phys = 0 \<or> dst_phys = 0 then (EFAULT, s)
         else (OK, s\<lparr>ram := phys_copy ev src_phys dst_phys bytes (ram s)\<rparr>))"

definition do_umap :: "config \<Rightarrow> message \<Rightarrow> sysk \<Rightarrow> status \<times> message" where
  "do_umap cf m s =
     (OK, set_fld M5_l1 (uint (umap cf (procs (kn s) (fld m M5_i1)) (seg_of cf (fld m M5_c1)) (addr m M5_l1) (addr m M5_l3))) m)"

definition do_copy :: "config \<Rightarrow> env \<Rightarrow> message \<Rightarrow> sysk \<Rightarrow> status \<times> sysk" where
  "do_copy cf ev m s =
     (let src_proc = fld m M5_i1; dst_proc = fld m M5_i2;
          src_vir = addr m M5_l1; dst_vir = addr m M5_l2; bytes = addr m M5_l3;
          src_phys = (if src_proc = ABS cf then src_vir
                      else umap cf (procs (kn s) src_proc) (seg_of cf (fld m M5_c1)) src_vir bytes);
          dst_phys = (if dst_proc = ABS cf then dst_vir
                      else umap cf (procs (kn s) dst_proc) (seg_of cf (fld m M5_c2)) dst_vir bytes)
      in if src_phys = 0 \<or> dst_phys = 0 then (EFAULT, s)
         else (OK, s\<lparr>ram := phys_copy ev src_phys dst_phys bytes (ram s)\<rparr>))"

fun vcopy_loop :: "config \<Rightarrow> env \<Rightarrow> int \<Rightarrow> int \<Rightarrow> (32 word \<times> 32 word \<times> 32 word) list \<Rightarrow> sysk \<Rightarrow> status \<times> sysk" where
  "vcopy_loop cf ev src_proc dst_proc [] s = (OK, s)"
| "vcopy_loop cf ev src_proc dst_proc ((src_vir, dst_vir, bytes) # vs) s =
     (let src_phys = numap cf (kn s) src_proc src_vir bytes;
          dst_phys = numap cf (kn s) dst_proc dst_vir bytes
      in if src_phys = 0 \<or> dst_phys = 0 then (EFAULT, s)
         else vcopy_loop cf ev src_proc dst_proc vs (s\<lparr>ram := phys_copy ev src_phys dst_phys bytes (ram s)\<rparr>))"

text \<open>The vector is copied to the kernel before any block is.\<close>

definition do_vcopy :: "config \<Rightarrow> env \<Rightarrow> message \<Rightarrow> sysk \<Rightarrow> status \<times> sysk" where
  "do_vcopy cf ev m s =
     (let vect_s = fld m M1_i3
      in if CPVEC_NR cf < vect_s then (EDOM, s)
         else let src_phys = numap cf (kn s) (m_source m) (addr m M1_p1) (of_int vect_s * sizeof_cpvec ev)
           in if src_phys = 0 then (EFAULT, s)
              else vcopy_loop cf ev (fld m M1_i1) (fld m M1_i2)
                     (map (get_cpvec ev (ram s) src_phys) [0 ..< nat vect_s]) s)"

section \<open>Life of a process\<close>

definition do_setgroup :: "message \<Rightarrow> kern \<Rightarrow> status \<times> kern" where
  "do_setgroup m s =
     (let proc_nr = fld m M1_i1; group = fld m M1_i2; estimate = fld m M1_i3
      in if \<not> isuserp (procs s proc_nr) then (EINVAL, s)
         else (OK, upd proc_nr (\<lambda>p. p\<lparr>sched_group := group, wait_ticks := 0, rr_counter := 0,
                 cpu_estimate := (if group = 3 then estimate else 100)\<rparr>) s))"

definition do_fork :: "message \<Rightarrow> kern \<Rightarrow> (status \<times> kern) res" where
  "do_fork m s =
     (let rpp = procs s (fld m PROC1); c = fld m PROC2
      in assert (isuserp rpp) (assert (isemptyp (procs s c))
        (Ok (OK, upd c (\<lambda>rpc. rpp\<lparr>p_ldt_sel := p_ldt_sel rpc, p_nr := c,
           p_flags := insert NO_MAP (p_flags rpp) - {PENDING, SIG_PENDING, P_STOP},
           sched_group := 0, wait_ticks := 0, cpu_estimate := 0, rr_counter := 0,
           p_pending := {}, p_pendcount := 0, p_pid := fld m PID, p_reg := (p_reg rpp)\<lparr>r_retreg := 0\<rparr>,
           user_time := 0, sys_time := 0, child_utime := 0, child_stime := 0\<rparr>) s))))"

definition alloc_segments :: "config \<Rightarrow> env \<Rightarrow> proc \<Rightarrow> proc" where
  "alloc_segments cf ev rp =
     (if protected_mode ev
      then let data_bytes = push_bit (CLICK_SHIFT cf) (mem_vir (p_map rp S) + mem_len (p_map rp S));
               code_bytes = (if mem_len (p_map rp T) = 0 then data_bytes else push_bit (CLICK_SHIFT cf) (mem_len (p_map rp T)));
               privilege = privilege_of ev (istaskp rp);
               ds = data_selector ev privilege
           in rp\<lparr>p_ldt_code := \<lparr>d_origin = push_bit (CLICK_SHIFT cf) (mem_phys (p_map rp T)), d_bytes = code_bytes, d_privilege = privilege\<rparr>,
                p_ldt_data := \<lparr>d_origin = push_bit (CLICK_SHIFT cf) (mem_phys (p_map rp D)), d_bytes = data_bytes, d_privilege = privilege\<rparr>,
                p_reg := (p_reg rp)\<lparr>r_cs := code_selector ev privilege, r_gs := ds, r_fs := ds, r_ss := ds, r_es := ds, r_ds := ds\<rparr>\<rparr>
      else let ds = click_to_hclick ev (mem_phys (p_map rp D))
           in rp\<lparr>p_reg := (p_reg rp)\<lparr>r_cs := click_to_hclick ev (mem_phys (p_map rp T)), r_ss := ds, r_es := ds, r_ds := ds\<rparr>\<rparr>)"

definition do_newmap :: "config \<Rightarrow> env \<Rightarrow> message \<Rightarrow> sysk \<Rightarrow> (status \<times> kern) res" where
  "do_newmap cf ev m s =
     (let k = fld m PROC1
      in if \<not> isokprocn cf k then Ok (E_BAD_PROC, kn s)
         else let src_phys = umap cf (procs (kn s) (m_source m)) D (addr m M1_p1) (sizeof_map ev)
           in assert (src_phys \<noteq> 0)
             (let old_flags = p_flags (procs (kn s) k);
                  s = upd k (\<lambda>p. alloc_segments cf ev (p\<lparr>p_map := get_map ev (ram s) src_phys\<rparr>)) (kn s);
                  s = set_flags k (\<lambda>f. f - {NO_MAP}) s
              in bind_res (if old_flags \<noteq> {} \<and> p_flags (procs s k) = {} then lock_ready cf k s else Ok s)
                   (\<lambda>s. Ok (OK, s))))"

definition do_getmap :: "config \<Rightarrow> env \<Rightarrow> message \<Rightarrow> sysk \<Rightarrow> (status \<times> sysk) res" where
  "do_getmap cf ev m s =
     (let k = fld m PROC1
      in assert (isokprocn cf k)
        (let dst_phys = umap cf (procs (kn s) (m_source m)) D (addr m M1_p1) (sizeof_map ev)
         in assert (dst_phys \<noteq> 0) (Ok (OK, s\<lparr>ram := put_map ev (p_map (procs (kn s) k)) dst_phys (ram s)\<rparr>))))"

text \<open>The command name ends at the first character below the blank.\<close>

definition do_exec :: "config \<Rightarrow> env \<Rightarrow> message \<Rightarrow> sysk \<Rightarrow> (status \<times> kern) res" where
  "do_exec cf ev m s =
     (let k = fld m PROC1; rm = ram s
      in assert (isuserp (procs (kn s) k))
        (bind_res (if fld m PROC2 \<noteq> 0 then cause_sig cf (sys_m ev) k (SIGTRAP cf) (kn s) else Ok (kn s))
          (\<lambda>s. let s = upd k (\<lambda>p. p\<lparr>p_reg := (p_reg p)\<lparr>r_sp := addr m M1_p1, r_pc := addr m M1_p3\<rparr>,
                               p_flags := p_flags p - {RECEIVING}\<rparr>) s
               in bind_res (if p_flags (procs s k) = {} then lock_ready cf k s else Ok s)
                 (\<lambda>s. let phys_name = numap cf s (m_source m) (addr m M1_p2) 15
                      in Ok (OK, if phys_name \<noteq> 0
                           then upd k (\<lambda>p. p\<lparr>p_name := takeWhile (\<lambda>c. (32 :: nat) \<le> of_char c) (get_name ev rm phys_name)\<rparr>) s
                           else s)))))"

text \<open>Removing an exiting process from the caller queues: the inner loop walks one queue, the
  outer one all processes, and stops only where the process is at the front.\<close>

fun unqueue_from :: "nat \<Rightarrow> int \<Rightarrow> int \<Rightarrow> kern \<Rightarrow> kern res" where
  "unqueue_from 0 rc np s = Hang"
| "unqueue_from (Suc n) rc np s =
     (case p_sendlink (procs s np) of
        None \<Rightarrow> Ok s
      | Some xp \<Rightarrow> if xp = rc then Ok (upd np (\<lambda>p. p\<lparr>p_sendlink := p_sendlink (procs s xp)\<rparr>) s)
                  else unqueue_from n rc xp s)"

fun unqueue :: "config \<Rightarrow> int \<Rightarrow> int list \<Rightarrow> kern \<Rightarrow> kern res" where
  "unqueue cf rc [] s = Ok s"
| "unqueue cf rc (rp # ps) s =
     (case p_callerq (procs s rp) of
        None \<Rightarrow> unqueue cf rc ps s
      | Some np \<Rightarrow>
          if np = rc then Ok (upd rp (\<lambda>p. p\<lparr>p_callerq := p_sendlink (procs s rc)\<rparr>) s)
          else bind_res (unqueue_from (Suc (slots cf)) rc np s) (unqueue cf rc ps))"

definition do_xit :: "config \<Rightarrow> message \<Rightarrow> kern \<Rightarrow> (status \<times> kern) res" where
  "do_xit cf m s =
     (let parent = fld m PROC1; rc = fld m PROC2
      in assert (isuserp (procs s parent)) (assert (isuserp (procs s rc))
        (let c = procs s rc;
             s = upd parent (\<lambda>p. p\<lparr>child_utime := int32 (child_utime p + (user_time c + child_utime c)),
                                  child_stime := int32 (child_stime p + (sys_time c + child_stime c))\<rparr>) s;
             s = upd rc (\<lambda>p. p\<lparr>p_alarm := 0\<rparr>) s
         in bind_res (if p_flags (procs s rc) = {} then lock_unready cf rc s else Ok s)
           (\<lambda>s. let s = upd rc (\<lambda>p. p\<lparr>p_name := ''<noname>''\<rparr>) s
                in bind_res (if SENDING \<in> p_flags (procs s rc) then unqueue cf rc (all_procs cf) s else Ok s)
                  (\<lambda>s. let s = (if PENDING \<in> p_flags (procs s rc) then s\<lparr>sig_procs := sig_procs s - 1\<rparr> else s)
                       in Ok (OK, upd rc (\<lambda>p. p\<lparr>p_pending := {}, p_pendcount := 0, p_flags := {},
                                 p_priority := PPRI_NONE\<rparr>) s))))))"

section \<open>Reading and signalling\<close>

definition do_getsp :: "message \<Rightarrow> kern \<Rightarrow> (status \<times> message) res" where
  "do_getsp m s = assert (isuserp (procs s (fld m PROC1)))
     (Ok (OK, set_fld M1_p1 (uint (r_sp (p_reg (procs s (fld m PROC1))))) m))"

text \<open>\<open>uptime\<close> is what \<open>get_uptime\<close> of the clock task returns.\<close>

definition do_times :: "int \<Rightarrow> message \<Rightarrow> kern \<Rightarrow> status \<times> message" where
  "do_times uptime m s =
     (let rp = procs s (fld m PROC1)
      in (OK, set_fld M4_l5 uptime (set_fld M4_l4 (child_stime rp) (set_fld M4_l3 (child_utime rp)
           (set_fld M4_l2 (sys_time rp) (set_fld M4_l1 (user_time rp) m))))))"

definition do_kill :: "config \<Rightarrow> env \<Rightarrow> message \<Rightarrow> kern \<Rightarrow> (status \<times> kern) res" where
  "do_kill cf ev m s = assert (isuserp (procs s (fld m M6_i1)))
     (bind_res (cause_sig cf (sys_m ev) (fld m M6_i1) (nat (fld m M6_i2)) s) (\<lambda>s. Ok (OK, s)))"

definition do_endsig :: "config \<Rightarrow> message \<Rightarrow> kern \<Rightarrow> (status \<times> kern) res" where
  "do_endsig cf m s =
     (let k = fld m PROC1
      in if isemptyp (procs s k) then Ok (E_BAD_PROC, s)
         else assert (isuserp (procs s k))
           (if p_pendcount (procs s k) = 0 then Ok (OK, s)
            else let s = upd k (\<lambda>p. p\<lparr>p_pendcount := p_pendcount p - 1\<rparr>) s
              in if p_pendcount (procs s k) \<noteq> 0 then Ok (OK, s)
                 else let s = set_flags k (\<lambda>f. f - {SIG_PENDING}) s
                   in bind_res (if p_flags (procs s k) = {} then lock_ready cf k s else Ok s) (\<lambda>s. Ok (OK, s))))"

text \<open>The next chunk of memory that has not been reported.\<close>

fun next_chunk :: "(32 word \<times> 32 word) list \<Rightarrow> 32 word \<Rightarrow> message \<Rightarrow> message \<times> (32 word \<times> 32 word) list" where
  "next_chunk [] tot m = (m, [])"
| "next_chunk ((base, sz) # cs) tot m =
     (let m = set_fld M1_i3 (sint tot) (set_fld M1_i2 (sint sz) (set_fld M1_i1 (sint base) m))
      in if sz \<noteq> 0 then (m, (base, 0) # cs)
         else let (m, cs) = next_chunk cs tot m in (m, (base, 0) # cs))"

definition do_mem :: "message \<Rightarrow> sysk \<Rightarrow> status \<times> message \<times> sysk" where
  "do_mem m s = (let (m, cs) = next_chunk (mem s) (tot_mem_size s) m in (OK, m, s\<lparr>mem := cs\<rparr>))"

definition do_findproc :: "config \<Rightarrow> message \<Rightarrow> kern \<Rightarrow> status \<times> message" where
  "do_findproc cf m s =
     (case find (\<lambda>p. (istaskp (procs s p) \<or> isservp (procs s p))
                \<and> take (M3_STRING cf) (p_name (procs s p)) = take (M3_STRING cf) (m3_ca1 m)) (all_procs cf) of
        Some p \<Rightarrow> (OK, set_fld M3_i1 p m)
      | None \<Rightarrow> (ESRCH, m))"

text \<open>Printing for a server, one character at a time.\<close>

fun puts_loop :: "config \<Rightarrow> int \<Rightarrow> 32 word \<Rightarrow> nat \<Rightarrow> sysk \<Rightarrow> status \<times> sysk" where
  "puts_loop cf source src 0 s = (OK, s)"
| "puts_loop cf source src (Suc n) s =
     (let p = umap cf (procs (kn s) source) D src 1
      in if p = 0 then (EFAULT, s)
         else puts_loop cf source (src + 1) n (s\<lparr>console := console s @ [char_of (uint (ram s p))]\<rparr>))"

definition do_puts :: "config \<Rightarrow> message \<Rightarrow> sysk \<Rightarrow> status \<times> sysk" where
  "do_puts cf m s =
     (let (r, s) = puts_loop cf (m_source m) (addr m M1_p1) (nat (fld m M1_i1)) s
      in (r, if r = OK then s\<lparr>console := console s @ [CHR 0x00]\<rparr> else s))"

section \<open>Tracing\<close>

definition load32 :: "ram \<Rightarrow> 32 word \<Rightarrow> 32 word" where
  "load32 m a = ucast (m a) + push_bit 8 (ucast (m (a + 1))) + push_bit 16 (ucast (m (a + 2)))
     + push_bit 24 (ucast (m (a + 3)))"

definition store32 :: "32 word \<Rightarrow> 32 word \<Rightarrow> ram \<Rightarrow> ram" where
  "store32 a v m = m(a := ucast v, a + 1 := ucast (drop_bit 8 v), a + 2 := ucast (drop_bit 16 v),
     a + 3 := ucast (drop_bit 24 v))"

definition resume :: "config \<Rightarrow> int \<Rightarrow> sysk \<Rightarrow> (status \<times> sysk) res" where
  "resume cf k s =
     bind_res (let n = set_flags k (\<lambda>f. f - {P_STOP}) (kn s)
               in if p_flags (procs n k) = {} then lock_ready cf k n else Ok n)
       (\<lambda>n. Ok (OK, s\<lparr>kn := n\<rparr>))"

text \<open>\<open>T_GETUSER\<close> and \<open>T_SETUSER\<close> read and write the raw bytes of the process table entry and are
  left to \<open>user_trace\<close>.\<close>

definition do_trace :: "config \<Rightarrow> env \<Rightarrow> message \<Rightarrow> sysk \<Rightarrow> (status \<times> message \<times> sysk) res" where
  "do_trace cf ev m s =
     (let k = fld m M2_i1; rp = procs (kn s) k; a = addr m M2_l1;
          zero = set_fld M2_l2 0 m;
          get = (\<lambda>sg. let src = umap cf rp sg a 4
                in Ok (if src = 0 then (EIO, m, s) else (OK, set_fld M2_l2 (sint (load32 (ram s) src)) m, s)));
          put = (\<lambda>sg. let dst = umap cf rp sg a 4
                in Ok (if dst = 0 then (EIO, m, s) else (OK, zero, s\<lparr>ram := store32 dst (of_int (fld m M2_l2)) (ram s)\<rparr>)))
      in if isemptyp rp then Ok (EIO, m, s)
         else case trace_of ev (fld m M2_i2) of
           T_STOP \<Rightarrow>
             bind_res (if p_flags rp = {} then lock_unready cf k (kn s) else Ok (kn s))
               (\<lambda>n. Ok (OK, m, s\<lparr>kn := upd k (\<lambda>p. p\<lparr>p_flags := insert P_STOP (p_flags p),
                  p_reg := (p_reg p)\<lparr>r_psw := and (r_psw (p_reg p)) (not (TRACEBIT cf))\<rparr>\<rparr>) n\<rparr>))
         | T_GETINS \<Rightarrow> if mem_len (p_map rp T) \<noteq> 0 then get T else get D
         | T_GETDATA \<Rightarrow> get D
         | T_SETINS \<Rightarrow> if mem_len (p_map rp T) \<noteq> 0 then put T else put D
         | T_SETDATA \<Rightarrow> put D
         | T_RESUME \<Rightarrow> bind_res (resume cf k s) (\<lambda>(r, s). Ok (r, zero, s))
         | T_STEP \<Rightarrow>
             bind_res (resume cf k (s\<lparr>kn := upd k (\<lambda>p. p\<lparr>p_reg := (p_reg p)\<lparr>r_psw := or (r_psw (p_reg p)) (TRACEBIT cf)\<rparr>\<rparr>) (kn s)\<rparr>))
               (\<lambda>(r, s). Ok (r, zero, s))
         | T_GETUSER \<Rightarrow> user_trace ev m s
         | T_SETUSER \<Rightarrow> user_trace ev m s
         | T_OTHER \<Rightarrow> Ok (EIO, m, s))"

end
