(* ===== verification/Kernel_Task.thy ===== *)
theory Kernel_Task
  imports Kernel_System
begin

text \<open>
  The rest of \<^verbatim>\<open>kernel/system.c\<close>: the handlers for signals, for kernel control and for the end
  of the system, and the main loop of the system task.
\<close>

section \<open>Signals\<close>

text \<open>The stack pointer of the handler is that of the frame, below the saved context. The
  frame pointer is set before the second address is checked.\<close>

definition do_sendsig :: "config \<Rightarrow> env \<Rightarrow> message \<Rightarrow> sysk \<Rightarrow> (status \<times> sysk) res" where
  "do_sendsig cf ev m s =
     (let k = fld m PROC1;
          rp = procs (kn s) k;
          src_phys = umap cf (procs (kn s) (MM_PROC_NR cf)) D (addr m M1_p1) (sizeof_sigmsg ev)
      in assert (isuserp rp) (assert (src_phys \<noteq> 0)
        (let smsg = get_sigmsg ev (ram s) src_phys;
             scp = sm_stkptr smsg - sizeof_sigcontext ev;
             sc = \<lparr>sc_flags = SC_SIGCONTEXT ev, sc_mask = sm_mask smsg, sc_regs = p_reg rp\<rparr>;
             dst_phys = umap cf rp D scp (sizeof_sigcontext ev)
         in if dst_phys = 0 then Ok (EFAULT, s)
            else let s = s\<lparr>ram := put_sigcontext ev sc dst_phys (ram s)\<rparr>;
                     frp = scp - sizeof_sigframe ev;
                     fr = \<lparr>sf_retadr = sm_sigreturn smsg, sf_signo = sm_signo smsg, sf_code = 0, sf_scp = scp,
                           sf_fp = r_fp (p_reg rp), sf_retadr2 = r_pc (p_reg rp), sf_scpcopy = scp\<rparr>;
                     s = s\<lparr>kn := upd k (\<lambda>p. p\<lparr>p_reg := (p_reg p)\<lparr>r_fp := frp + offset_sf_fp ev\<rparr>\<rparr>) (kn s)\<rparr>;
                     dst_phys = umap cf rp D frp (sizeof_sigframe ev)
                 in if dst_phys = 0 then Ok (EFAULT, s)
                    else Ok (OK, s\<lparr>ram := put_sigframe ev fr dst_phys (ram s),
                           kn := upd k (\<lambda>p. p\<lparr>p_reg := (p_reg p)\<lparr>r_sp := frp, r_pc := sm_sighandler smsg\<rparr>\<rparr>) (kn s)\<rparr>))))"

definition do_sigreturn :: "config \<Rightarrow> env \<Rightarrow> message \<Rightarrow> sysk \<Rightarrow> (status \<times> sysk) res" where
  "do_sigreturn cf ev m s =
     (let k = fld m PROC1;
          rp = procs (kn s) k;
          src_phys = umap cf rp D (addr m M1_p1) (sizeof_sigcontext ev);
          set_regs = (\<lambda>r. s\<lparr>kn := upd k (\<lambda>p. p\<lparr>p_reg := r\<rparr>) (kn s)\<rparr>)
      in assert (isuserp rp)
        (if src_phys = 0 then Ok (EFAULT, s)
         else let sc = get_sigcontext ev (ram s) src_phys; rg = p_reg rp; rs = sc_regs sc
           in if and (sc_flags sc) (SC_SIGCONTEXT ev) = 0 then Ok (EINVAL, s)
              else if and (sc_flags sc) (SC_NOREGLOCALS ev) \<noteq> 0
              then Ok (OK, set_regs (rg\<lparr>r_retreg := r_retreg rs, r_fp := r_fp rs, r_pc := r_pc rs, r_sp := r_sp rs\<rparr>))
              else Ok (OK, set_regs (rs\<lparr>r_psw := r_psw rg, r_cs := r_cs rg, r_ds := r_ds rg, r_es := r_es rg,
                     r_fs := r_fs rg, r_gs := r_gs rg\<rparr>))))"

section \<open>Control\<close>

definition do_sysctl :: "config \<Rightarrow> env \<Rightarrow> message \<Rightarrow> sysk \<Rightarrow> status \<times> sysk" where
  "do_sysctl cf ev m s =
     (let proc_nr = fld m M2_i1; request = fld m M2_i2; priv = fld m M2_i3; argp = addr m M2_p1;
          pp = procs (kn s) proc_nr
      in if request = SYSSIGNON ev
         then if priv = 0 \<or> \<not> isuserp pp then (EPERM, s)
              else let dst = umap cf pp D argp (sizeof_systaskinfo ev)
                in if dst = 0 then (EFAULT, s)
                   else (OK, s\<lparr>ram := put_systaskinfo ev proc_nr dst (ram s),
                               kn := upd proc_nr (\<lambda>p. p\<lparr>p_priority := PPRI_SERVER, p_pid := 0\<rparr>) (kn s)\<rparr>)
         else if request = SYSGETENV ev
         then let src = umap cf pp D argp (sizeof_sysgetenv ev)
           in if src = 0 then (EFAULT, s)
              else let (key, keylen, val, vallen) = get_sysgetenv ev (ram s) src;
                       reply = (\<lambda>src len.
                         let dst = umap cf pp D val vallen
                         in if dst = 0 then (EFAULT, s)
                            else if vallen < len then (E2BIG, s)
                            else (OK, s\<lparr>ram := phys_copy ev src dst len (ram s)\<rparr>))
                in if keylen \<noteq> 0
                   then if sizeof_key ev < keylen then (EINVAL, s)
                        else let key_phys = umap cf pp D key keylen
                          in if key_phys = 0 then (EFAULT, s)
                             else (case getenv ev (ram s) key_phys keylen of
                                     None \<Rightarrow> (ESRCH, s)
                                   | Some (src, len) \<Rightarrow> reply src len)
                   else reply (mon_params ev) (mon_parmsize ev)
         else (EINVAL, s))"

definition do_abort :: "config \<Rightarrow> env \<Rightarrow> message \<Rightarrow> sysk \<Rightarrow> (status \<times> sysk) res" where
  "do_abort cf ev m s =
     (let how = fld m M1_i1;
          len = of_int (fld m M1_i3 + 1);
          src_phys = numap cf (kn s) (fld m M1_i2) (addr m M1_p1) len
      in if how = RBT_MONITOR ev
         then assert (len \<le> mon_parmsize ev) (assert (src_phys \<noteq> 0)
           (Ok (OK, wreboot ev how (s\<lparr>ram := phys_copy ev src_phys (mon_params ev) len (ram s)\<rparr>))))
         else Ok (OK, wreboot ev how s))"

section \<open>The main loop\<close>

datatype sys_request = SYS_XIT | SYS_GETSP | SYS_FORK | SYS_NEWMAP | SYS_COPY | SYS_EXEC | SYS_TIMES
  | SYS_ABORT | SYS_KILL | SYS_UMAP | SYS_MEM | SYS_TRACE | SYS_VCOPY | SYS_SENDSIG | SYS_SIGRETURN
  | SYS_ENDSIG | SYS_GETMAP | SYS_SYSCTL | SYS_PUTS | SYS_FINDPROC | SYS_SETGROUP

definition sys_codes :: "(int \<times> sys_request) list" where
  "sys_codes = [(1, SYS_XIT), (2, SYS_GETSP), (4, SYS_FORK), (5, SYS_NEWMAP), (6, SYS_COPY), (7, SYS_EXEC),
     (8, SYS_TIMES), (9, SYS_ABORT), (10, SYS_KILL), (11, SYS_UMAP), (12, SYS_MEM), (13, SYS_TRACE),
     (14, SYS_VCOPY), (15, SYS_SENDSIG), (16, SYS_SIGRETURN), (17, SYS_ENDSIG), (18, SYS_GETMAP),
     (19, SYS_SYSCTL), (20, SYS_PUTS), (21, SYS_FINDPROC), (22, SYS_SETGROUP)]"

text \<open>Handlers work on the message in the buffer of the task; those that answer in it have
  the changed message as a result.\<close>

definition answer :: "env \<Rightarrow> message \<Rightarrow> sysk \<Rightarrow> sysk" where
  "answer ev m s = s\<lparr>kn := put_msg SYSTASK (sys_m ev) m (kn s)\<rparr>"

definition on_kern :: "sysk \<Rightarrow> (status \<times> kern) res \<Rightarrow> (status \<times> sysk) res" where
  "on_kern s r = bind_res r (\<lambda>(c, n). Ok (c, s\<lparr>kn := n\<rparr>))"

definition with_answer :: "env \<Rightarrow> sysk \<Rightarrow> status \<times> message \<Rightarrow> status \<times> sysk" where
  "with_answer ev s r = (fst r, answer ev (snd r) s)"

definition sys_handle :: "config \<Rightarrow> env \<Rightarrow> int \<Rightarrow> sysk \<Rightarrow> (status \<times> sysk) res" where
  "sys_handle cf ev uptime s =
     (let m = get_msg SYSTASK (sys_m ev) (kn s)
      in case map_of sys_codes (m_type m) of
        None \<Rightarrow> Ok (E_BAD_FCN, s)
      | Some request \<Rightarrow>
         (case request of
            SYS_FORK \<Rightarrow> on_kern s (do_fork m (kn s))
          | SYS_NEWMAP \<Rightarrow> on_kern s (do_newmap cf ev m s)
          | SYS_GETMAP \<Rightarrow> do_getmap cf ev m s
          | SYS_EXEC \<Rightarrow> on_kern s (do_exec cf ev m s)
          | SYS_XIT \<Rightarrow> on_kern s (do_xit cf m (kn s))
          | SYS_GETSP \<Rightarrow> bind_res (do_getsp m (kn s)) (\<lambda>r. Ok (with_answer ev s r))
          | SYS_TIMES \<Rightarrow> Ok (with_answer ev s (do_times uptime m (kn s)))
          | SYS_ABORT \<Rightarrow> do_abort cf ev m s
          | SYS_SENDSIG \<Rightarrow> do_sendsig cf ev m s
          | SYS_SIGRETURN \<Rightarrow> do_sigreturn cf ev m s
          | SYS_KILL \<Rightarrow> on_kern s (do_kill cf ev m (kn s))
          | SYS_ENDSIG \<Rightarrow> on_kern s (do_endsig cf m (kn s))
          | SYS_COPY \<Rightarrow> Ok (do_copy cf ev m s)
          | SYS_VCOPY \<Rightarrow> Ok (do_vcopy cf ev m s)
          | SYS_MEM \<Rightarrow> (let (r, m, s) = do_mem m s in Ok (with_answer ev s (r, m)))
          | SYS_UMAP \<Rightarrow> Ok (with_answer ev s (do_umap cf m s))
          | SYS_TRACE \<Rightarrow> bind_res (do_trace cf ev m s) (\<lambda>(r, m, s). Ok (with_answer ev s (r, m)))
          | SYS_SYSCTL \<Rightarrow> Ok (do_sysctl cf ev m s)
          | SYS_PUTS \<Rightarrow> Ok (do_puts cf m s)
          | SYS_FINDPROC \<Rightarrow> Ok (with_answer ev s (do_findproc cf m (kn s)))
          | SYS_SETGROUP \<Rightarrow> on_kern s (Ok (do_setgroup m (kn s)))))"

text \<open>One round, from the message received to the reply sent.\<close>

definition sys_task :: "config \<Rightarrow> env \<Rightarrow> int \<Rightarrow> sysk \<Rightarrow> sysk res" where
  "sys_task cf ev uptime s =
     bind_res (sys_handle cf ev uptime s)
       (\<lambda>(r, s). let m = (get_msg SYSTASK (sys_m ev) (kn s))\<lparr>m_type := status_code cf r\<rparr>;
                     n = put_msg SYSTASK (sys_m ev) m (kn s)
                 in bind_res (mini_send cf SYSTASK (m_source m) (sys_m ev) n)
                      (\<lambda>(_, n). Ok (s\<lparr>kn := n\<rparr>)))"

end
