(* ===== verification/Kernel_Exit.thy ===== *)
theory Kernel_Exit
  imports Kernel_Receive Kernel_Task
begin

text \<open>
  The end of a process: \<open>do_xit\<close> takes it out of the ready queues and out of the queue of
  callers it may be in, and frees its slot.
\<close>

section \<open>The walk over the caller queues\<close>

lemma sendlink_link: "p_sendlink (procs s x) = link_of s x"
  by (simp add: link_of_def)

lemma unqueue_from_none:
  "linked (link_of s) (link_of s x) xs \<Longrightarrow> rc \<notin> set xs \<Longrightarrow> length xs < n \<Longrightarrow> unqueue_from n rc x s = Ok s"
proof (induction n arbitrary: x xs)
  case (Suc n)
  show ?case
  proof (cases xs)
    case Nil
    with Suc.prems show ?thesis by (simp add: link_of_def)
  next
    case (Cons y ys)
    with Suc.prems have "p_sendlink (procs s x) = Some y" "linked (link_of s) (link_of s y) ys" "y \<noteq> rc"
      by (auto simp: sendlink_link)
    with Suc.IH [of y ys] Suc.prems Cons show ?thesis by simp
  qed
qed simp

lemma unqueue_from_found:
  "linked (link_of s) (link_of s x) (us @ rc # vs) \<Longrightarrow> rc \<notin> set us \<Longrightarrow> length us < n \<Longrightarrow>
   unqueue_from n rc x s = Ok (upd (last (x # us)) (\<lambda>p. p\<lparr>p_sendlink := link_of s rc\<rparr>) s)"
proof (induction n arbitrary: x us)
  case (Suc n)
  show ?case
  proof (cases us)
    case Nil
    with Suc.prems have "p_sendlink (procs s x) = Some rc" by (simp add: link_of_def)
    with Nil show ?thesis by (simp add: link_of_def)
  next
    case (Cons y ys)
    with Suc.prems have "p_sendlink (procs s x) = Some y" "linked (link_of s) (link_of s y) (ys @ rc # vs)" "y \<noteq> rc"
      by (auto simp: sendlink_link)
    with Suc.IH [of y ys] Suc.prems Cons show ?thesis by simp
  qed
qed simp

definition chained :: "config \<Rightarrow> kern \<Rightarrow> (int \<Rightarrow> int list) \<Rightarrow> bool" where
  "chained cf s C \<longleftrightarrow> (\<forall>d. linked (link_of s) (p_callerq (procs s d)) (C d) \<and> length (C d) \<le> slots cf)"

lemma chained_head: "chained cf s C \<Longrightarrow> p_callerq (procs s d) = (case C d of [] \<Rightarrow> None | x # _ \<Rightarrow> Some x)"
  unfolding chained_def by (cases "C d") (metis chain.simps(1) list.simps(4), metis chain.simps(2) list.simps(5))

lemma chained_tail: "chained cf s C \<Longrightarrow> C d = x # xs \<Longrightarrow> linked (link_of s) (link_of s x) xs \<and> length xs < slots cf"
  unfolding chained_def by (metis Suc_le_eq chain.simps(2) length_Cons)

lemma unqueue_none:
  "chained cf s C \<Longrightarrow> \<forall>d. rc \<notin> set (C d) \<Longrightarrow> unqueue cf rc ps s = Ok s"
proof (induction ps)
  case (Cons d ps)
  show ?case
  proof (cases "C d")
    case Nil
    with Cons chained_head [OF Cons.prems(1), of d] show ?thesis by simp
  next
    case (Cons x xs)
    have "rc \<notin> set (x # xs)" using Cons.prems(2) Cons by metis
    moreover from this chained_tail [OF Cons.prems(1) Cons] have "unqueue_from (Suc (slots cf)) rc x s = Ok s"
      by (intro unqueue_from_none [of s x xs]) auto
    ultimately show ?thesis
      using Cons chained_head [OF Cons.prems(1), of d] Cons.IH [OF Cons.prems] by (simp del: unqueue_from.simps)
  qed
qed simp

text \<open>The state with the link around \<open>rc\<close> in the queue of \<open>d\<close>.\<close>

definition unlinked :: "int \<Rightarrow> int list \<Rightarrow> int \<Rightarrow> kern \<Rightarrow> kern" where
  "unlinked d us rc s =
     (if us = [] then upd d (\<lambda>p. p\<lparr>p_callerq := link_of s rc\<rparr>) s
      else upd (last us) (\<lambda>p. p\<lparr>p_sendlink := link_of s rc\<rparr>) s)"

lemma unlinked_links:
  "link_of (unlinked d us rc s) = (if us = [] then link_of s else (link_of s)(last us := link_of s rc))"
  "p_callerq (procs (unlinked d us rc s) e) = (if e = d \<and> us = [] then link_of s rc else p_callerq (procs s e))"
  "waits_for (unlinked d us rc s) = waits_for s" "sched_ok cf (unlinked d us rc s) Q = sched_ok cf s Q"
  by (auto simp: unlinked_def link_of_def waits_for_def fun_eq_iff sched_ok_upd_same)

lemma unqueue_found:
  assumes c: "chained cf s C" and e: "C d = us @ rc # vs" and d: "d \<in> set ps"
    and o: "\<forall>f. f \<noteq> d \<longrightarrow> rc \<notin> set (C f)" and t: "chained cf (unlinked d us rc s) (C(d := us @ vs))"
  shows "unqueue cf rc ps s = Ok (unlinked d us rc s)"
  using d
proof (induction ps)
  case (Cons f ps)
  note h = chained_head [OF c, of f]
  have ds: "distinct (us @ rc # vs)" using c e linked_distinct unfolding chained_def by metis
  show ?case
  proof (cases "f = d")
    case False
    then have IH: "unqueue cf rc ps s = Ok (unlinked d us rc s)" and nf: "rc \<notin> set (C f)" using Cons o by auto
    show ?thesis
    proof (cases "C f")
      case Nil
      with h IH show ?thesis by simp
    next
      case (Cons x xs)
      with nf chained_tail [OF c Cons] have "unqueue_from (Suc (slots cf)) rc x s = Ok s"
        by (intro unqueue_from_none [of s x xs]) auto
      with h IH nf Cons show ?thesis by (simp del: unqueue_from.simps)
    qed
  next
    case True
    show ?thesis
    proof (cases us)
      case Nil
      with h e True show ?thesis by (simp add: unlinked_def link_of_def)
    next
      case (Cons x xs)
      have "C d = x # (xs @ rc # vs)" using e Cons by simp
      from chained_tail [OF c this] ds Cons
      have "unqueue_from (Suc (slots cf)) rc x s = Ok (unlinked d us rc s)"
        using unqueue_from_found [of s x xs rc vs "Suc (slots cf)"] by (simp add: unlinked_def del: unqueue_from.simps)
      moreover have "unqueue cf rc ps (unlinked d us rc s) = Ok (unlinked d us rc s)"
        by (rule unqueue_none [OF t]) (use ds o in auto)
      ultimately show ?thesis using h e True Cons ds by (simp del: unqueue_from.simps)
    qed
  qed
qed simp

section \<open>do_xit\<close>

text \<open>Taking the exiting process out of the ready queues, through the gateway.\<close>

lemma lock_unready_ok:
  assumes sk: "sched_ok cf s Q" and u: "isuserp (procs s p)"
  shows "\<exists>t. (if p_flags (procs s p) = {} then lock_unready cf p s else Ok s) = Ok t
    \<and> sched_ok cf t (\<lambda>q. remove1 p (Q q)) \<and> same_procs s t"
proof (cases "p_flags (procs s p) = {}")
  case False
  have "(\<lambda>q. remove1 p (Q q)) = Q" using not_queued [OF sk False] by (simp add: remove1_idem fun_eq_iff)
  with sk False show ?thesis by simp
next
  case True
  let ?s = "s\<lparr>switching := True\<rparr>" and ?q = "belongs (procs s p)"
  have "sched_ok cf ?s Q" "istaskp (procs ?s p) \<Longrightarrow> p_stguard (procs ?s p) = STACK_GUARD" "belongs (procs ?s p) = ?q"
    using sk u by (simp_all add: isuserp_def istaskp_def)
  from unready_ok [OF this] obtain t where t: "unready cf p ?s = Ok t" "sched_ok cf t (Q(?q := remove1 p (Q ?q)))"
    "same_procs ?s t" by blast
  have "remove1 p (Q q) = Q q" if "q \<noteq> ?q" for q
    using that sk by (intro remove1_idem) (auto simp: sched_ok_def)
  then have "(\<lambda>q. remove1 p (Q q)) = Q(?q := remove1 p (Q ?q))" by (simp add: fun_eq_iff)
  moreover have "same_procs s (t\<lparr>switching := False\<rparr>)" using t(3) by (simp add: same_procs_def)
  ultimately show ?thesis using t True by (simp add: lock_unready_def gateway_def)
qed

lemma unlinked_same:
  "p_flags (procs (unlinked d us rc s) p) = p_flags (procs s p)" "p_alarm (procs (unlinked d us rc s) p) = p_alarm (procs s p)"
  "child_utime (procs (unlinked d us rc s) p) = child_utime (procs s p)"
  "child_stime (procs (unlinked d us rc s) p) = child_stime (procs s p)"
  by (auto simp: unlinked_def)

text \<open>Taking it out of the queue of callers; the slot is cleared in the same go, since only then
  the queues are in order again.\<close>

lemma unqueue_ok:
  assumes c: "callers_ok s C" and n: "no_deadlock cf s"
    and d: "\<forall>d. waits_for s rc = Some d \<longrightarrow> d \<in> set (all_procs cf)"
    and f: "p_flags (f (procs t rc)) = {}" "\<And>p. p_callerq (f p) = p_callerq p \<and> p_sendlink (f p) = p_sendlink p"
    and t: "t = (case waits_for s rc of None \<Rightarrow> s | Some d \<Rightarrow> unlinked d (takeWhile (\<lambda>p. p \<noteq> rc) (C d)) rc s)"
  shows "(if SENDING \<in> p_flags (procs s rc) then unqueue cf rc (all_procs cf) s else Ok s) = Ok t
    \<and> callers_ok (upd rc f t) (\<lambda>d. remove1 rc (C d)) \<and> no_deadlock cf (upd rc f t)"
proof (cases "waits_for s rc")
  case None
  then have x: "\<forall>d. rc \<notin> set (C d)" using c by (simp add: callers_ok_def)
  then have r: "(\<lambda>d. remove1 rc (C d)) = C" by (simp add: remove1_idem fun_eq_iff)
  have w: "waits_for (upd rc f s) = waits_for s" using None f(1) t by (auto simp: waits_for_def fun_eq_iff)
  moreover have "link_of (upd rc f s) = link_of s" using f(2) by (auto simp: link_of_def fun_eq_iff)
  ultimately have "callers_ok (upd rc f s) C = callers_ok s C" using f(2) by (intro callers_ok_frame) auto
  with None c n t r no_deadlock_frame [OF w] show ?thesis by (simp add: waits_SENDING)
next
  case (Some d)
  let ?us = "takeWhile (\<lambda>p. p \<noteq> rc) (C d)"
  have m: "rc \<in> set (C e) \<longleftrightarrow> e = d" for e using c Some by (auto simp: callers_ok_def)
  then obtain vs where e: "C d = ?us @ rc # vs"
    by (metis (mono_tags, lifting) dropWhile_eq_Cons_conv dropWhile_eq_Nil_conv neq_Nil_conv takeWhile_dropWhile_id)
  have u: "t = unlinked d ?us rc s" using t Some by simp
  let ?w = "upd rc f t"
  have l: "link_of ?w = link_of t" "p_callerq (procs ?w x) = p_callerq (procs t x)" for x
    using f(2) by (auto simp: link_of_def fun_eq_iff)
  note links = l [unfolded u] unlinked_links(1,2)
  have "waits_for ?w = (waits_for t)(rc := None)" using f(1) by (auto simp: waits_for_def fun_eq_iff)
  then have w: "waits_for ?w = (waits_for s)(rc := None)" by (simp only: u unlinked_links(3))
  have k: "callers_ok ?w (C(d := ?us @ vs))"
    by (rule callers_remove [OF c e _ _ w]) (simp_all only: u links)
  have r: "(\<lambda>d. remove1 rc (C d)) = C(d := ?us @ vs)"
  proof
    fix x
    have "rc \<notin> set ?us" by (auto dest: set_takeWhileD)
    then have "remove1 rc (C d) = ?us @ vs" by (subst e) (simp add: remove1_append)
    then show "remove1 rc (C x) = (C(d := ?us @ vs)) x" using m [of x] by (simp add: remove1_idem)
  qed
  have ln: "length (C x) \<le> slots cf" for x using callers_length [OF c n] .
  have ch: "chained cf s C" using c ln by (simp add: chained_def callers_ok_def)
  have "length (?us @ vs) \<le> slots cf" using ln [of d] arg_cong [OF e, of length] by simp
  with k ln have ch': "chained cf (unlinked d ?us rc s) (C(d := ?us @ vs))"
    by (auto simp: chained_def callers_ok_def u l [unfolded u] simp del: upd_sel)
  have "unqueue cf rc (all_procs cf) s = Ok t"
    unfolding u by (rule unqueue_found [OF ch e _ _ ch']) (use d Some m in auto)
  moreover have "no_deadlock cf ?w"
    by (rule no_deadlock_less [OF n w]) (simp only: waits_SENDING w fun_upd_apply, simp)
  ultimately show ?thesis using k r Some by (simp add: waits_SENDING)
qed

lemma ipc_ok_sig_procs [simp]: "ipc_ok cf (s\<lparr>sig_procs := n\<rparr>) Q C = ipc_ok cf s Q C"
proof -
  have "nx (s\<lparr>sig_procs := n\<rparr>) = nx s" "waits_for (s\<lparr>sig_procs := n\<rparr>) = waits_for s" "link_of (s\<lparr>sig_procs := n\<rparr>) = link_of s"
    by (simp_all add: nx_def waits_for_def link_of_def fun_eq_iff)
  then show ?thesis by (simp add: ipc_ok_def sched_ok_def lists_ok_def callers_ok_def no_deadlock_def)
qed

lemma upd_sig_procs:
  "upd p f (if b then s\<lparr>sig_procs := n\<rparr> else s) = (if b then (upd p f s)\<lparr>sig_procs := n\<rparr> else upd p f s)"
  by (simp add: upd_def)

text \<open>After the process has been taken out of the ready queues, in state \<open>u\<close>, only links of the queues of
  callers change, and the entry of the process is cleared.\<close>

definition cleared :: "proc \<Rightarrow> proc" where
  "cleared p = p\<lparr>p_name := ''<noname>'', p_pending := {}, p_pendcount := 0, p_flags := {}, p_priority := PPRI_NONE\<rparr>"

definition kids :: "proc \<Rightarrow> proc \<Rightarrow> proc" where
  "kids c p = p\<lparr>child_utime := int32 (child_utime p + (user_time c + child_utime c)),
                child_stime := int32 (child_stime p + (sys_time c + child_stime c))\<rparr>"

definition same_vars :: "kern \<Rightarrow> kern \<Rightarrow> bool" where
  "same_vars s t \<longleftrightarrow> q_head t = q_head s \<and> q_tail t = q_tail s \<and> proc_ptr t = proc_ptr s \<and> held_head t = held_head s
     \<and> held_tail t = held_tail s \<and> switching t = switching s \<and> k_reenter t = k_reenter s \<and> aging_counter t = aging_counter s"

text \<open>Only the links of the queues of callers differ.\<close>

definition relinked :: "proc \<Rightarrow> proc \<Rightarrow> bool" where
  "relinked p r \<longleftrightarrow> r = p\<lparr>p_callerq := p_callerq r, p_sendlink := p_sendlink r\<rparr>"

lemma relinked_refl [simp]: "relinked p p"
  by (simp add: relinked_def)

lemma relinkedD:
  assumes "relinked p r"
  shows "p_flags r = p_flags p" "p_priority r = p_priority p" "sched_group r = sched_group p" "cpu_estimate r = cpu_estimate p"
    "p_nextready r = p_nextready p" "p_alarm r = p_alarm p" "child_utime r = child_utime p" "child_stime r = child_stime p"
    "p_map r = p_map p" "p_stguard r = p_stguard p" "p_nextheld r = p_nextheld p" "p_int_held r = p_int_held p"
    "rr_counter r = rr_counter p" "wait_ticks r = wait_ticks p" "p_getfrom r = p_getfrom p"
  by (subst assms [unfolded relinked_def], simp)+

lemma unlinked_form: "relinked (procs s p) (procs (unlinked d us rc s) p)" "same_vars s (unlinked d us rc s)"
  by (auto simp: unlinked_def relinked_def) (simp_all add: unlinked_def same_vars_def upd_def)

lemma do_xit_run:
  assumes ok: "callers_ok s C" "no_deadlock cf s" and us: "isuserp (procs s (fld m PROC1))" "isuserp (procs s (fld m PROC2))"
    and w: "\<forall>d. waits_for s (fld m PROC2) = Some d \<longrightarrow> d \<in> set (all_procs cf)"
    and v: "v = upd (fld m PROC2) (\<lambda>p. p\<lparr>p_alarm := 0\<rparr>) (upd (fld m PROC1) (kids (procs s (fld m PROC2))) s)"
    and u: "(if p_flags (procs v (fld m PROC2)) = {} then lock_unready cf (fld m PROC2) v else Ok v) = Ok u" "same_procs v u"
  shows "\<exists>t. do_xit cf m s = Ok (OK, t) \<and> callers_ok t (\<lambda>d. remove1 (fld m PROC2) (C d)) \<and> no_deadlock cf t \<and> same_vars u t
    \<and> (\<forall>p. \<exists>r. relinked (procs u p) r \<and> procs t p = (if p = fld m PROC2 then cleared r else r))"
proof -
  let ?rc = "fld m PROC2" and ?pa = "fld m PROC1"
  let ?v = "upd ?rc (\<lambda>p. p\<lparr>p_name := ''<noname>''\<rparr>) u"
  have "waits_for ?v = waits_for u" "link_of ?v = link_of u" "waits_for v = waits_for s" "link_of v = link_of s"
    unfolding v by (auto simp: waits_for_def link_of_def fun_eq_iff kids_def)
  with same_ipc(1,2) [OF u(2)] have ws: "waits_for ?v = waits_for s" "link_of ?v = link_of s" by simp_all
  have "p_callerq (procs ?v d) = p_callerq (procs s d)" for d
    using u(2) unfolding v by (auto simp: same_procs_def kids_def)
  then have "callers_ok ?v C = callers_ok s C" by (intro callers_ok_frame ws)
  moreover have "no_deadlock cf ?v = no_deadlock cf s" by (rule no_deadlock_frame) (rule ws)
  ultimately have ok': "callers_ok ?v C" "no_deadlock cf ?v" using ok by simp_all
  define x where "x = (case waits_for ?v ?rc of None \<Rightarrow> ?v | Some d \<Rightarrow> unlinked d (takeWhile (\<lambda>p. p \<noteq> ?rc) (C d)) ?rc ?v)"
  let ?clear = "\<lambda>p. p\<lparr>p_pending := {}, p_pendcount := 0, p_flags := {}, p_priority := PPRI_NONE\<rparr>"
  from unqueue_ok [OF ok' _ _ _ x_def, of ?clear] w ws(1)
  have x: "(if SENDING \<in> p_flags (procs ?v ?rc) then unqueue cf ?rc (all_procs cf) ?v else Ok ?v) = Ok x"
    "callers_ok (upd ?rc ?clear x) (\<lambda>d. remove1 ?rc (C d))" "no_deadlock cf (upd ?rc ?clear x)" by simp_all
  let ?y = "if PENDING \<in> p_flags (procs x ?rc) then x\<lparr>sig_procs := sig_procs x - 1\<rparr> else x"
  let ?t = "upd ?rc ?clear ?y"
  have run: "do_xit cf m s = Ok (OK, ?t)"
    unfolding do_xit_def Let_def assert_def if_P [OF us(1)] if_P [OF us(2)] u(1) [unfolded v kids_def] bind_res.simps(1) x(1) ..
  have pt: "procs ?t = procs (upd ?rc ?clear x)" by simp
  then have "waits_for ?t = waits_for (upd ?rc ?clear x)" "link_of ?t = link_of (upd ?rc ?clear x)"
    by (simp_all add: waits_for_def link_of_def fun_eq_iff)
  with x(2,3) have c: "callers_ok ?t (\<lambda>d. remove1 ?rc (C d))" "no_deadlock cf ?t"
    using callers_ok_frame [of ?t "upd ?rc ?clear x"] no_deadlock_frame [of ?t "upd ?rc ?clear x"] pt by simp_all
  have "same_vars ?v x" by (cases "waits_for ?v ?rc") (simp_all add: x_def unlinked_form(2), simp add: same_vars_def)
  then have sv: "same_vars u ?t" by (auto simp: same_vars_def upd_def)
  have xf: "relinked (procs ?v p) (procs x p)" for p
    by (cases "waits_for ?v ?rc") (simp_all add: x_def unlinked_form(1) del: upd_sel)
  have "\<exists>r. relinked (procs u p) r \<and> procs ?t p = (if p = ?rc then cleared r else r)" for p
  proof (cases "p = ?rc")
    case True
    let ?r = "(procs u ?rc)\<lparr>p_callerq := p_callerq (procs x ?rc), p_sendlink := p_sendlink (procs x ?rc)\<rparr>"
    have "procs x ?rc = (procs ?v ?rc)\<lparr>p_callerq := p_callerq (procs x ?rc), p_sendlink := p_sendlink (procs x ?rc)\<rparr>"
      using xf [of ?rc] unfolding relinked_def .
    also have "\<dots> = ?r\<lparr>p_name := ''<noname>''\<rparr>" by simp
    finally have "procs x ?rc = ?r\<lparr>p_name := ''<noname>''\<rparr>" .
    then have "procs ?t ?rc = cleared ?r" unfolding pt by (simp add: cleared_def)
    moreover have "relinked (procs u ?rc) ?r" by (simp add: relinked_def)
    ultimately show ?thesis using True by auto
  next
    case False
    then show ?thesis unfolding pt using xf [of p] by simp
  qed
  with run c sv show ?thesis by blast
qed

text \<open>Only what the scheduler reads of the queued processes matters to it.\<close>

lemma sched_ok_members:
  assumes s: "sched_ok cf s Q" and h: "q_head t = q_head s" "q_tail t = q_tail s"
    and m: "\<And>p q. p \<in> set (Q q) \<Longrightarrow> p_nextready (procs t p) = p_nextready (procs s p) \<and> p_flags (procs t p) = p_flags (procs s p)
      \<and> p_priority (procs t p) = p_priority (procs s p) \<and> sched_group (procs t p) = sched_group (procs s p)
      \<and> cpu_estimate (procs t p) = cpu_estimate (procs s p)"
  shows "sched_ok cf t Q"
proof -
  have "chain (nx t) (q_head t q) (Q q) None = chain (nx s) (q_head t q) (Q q) None" for q
    by (rule chain_cong) (use m in \<open>auto simp: nx_def\<close>)
  then have "lists_ok t Q" using s h by (auto simp: sched_ok_def lists_ok_def queue_list_def)
  moreover have "belongs (procs t p) = belongs (procs s p)" if "p \<in> set (Q q)" for p q
    using m [OF that] by (simp add: belongs_def istaskp_def isservp_def in_group_def isuserp_def)
  moreover have "map (\<lambda>p. cpu_estimate (procs t p)) (Q G3) = map (\<lambda>p. cpu_estimate (procs s p)) (Q G3)" using m by simp
  then have "sorted (map (\<lambda>p. cpu_estimate (procs t p)) (Q G3))" using s unfolding sched_ok_def by metis
  ultimately show ?thesis using s m by (simp add: sched_ok_def)
qed

text \<open>C8: The end of a process: it leaves its ready queue and the queue of callers it waits in, the
  order of all others is kept, the ready queues, the caller queues and the freedom from
  deadlock stay in order, its times are added to those of its parent, its alarm is off and its
  slot is empty.\<close>
theorem do_xit_spec:
  assumes "ipc_ok cf s Q C" and "isuserp (procs s (fld m PROC1))" and "isuserp (procs s (fld m PROC2))"
    and "\<forall>d. waits_for s (fld m PROC2) = Some d \<longrightarrow> d \<in> set (all_procs cf)"
  shows "\<exists>t. do_xit cf m s = Ok (OK, t) \<and> ipc_ok cf t (\<lambda>q. remove1 (fld m PROC2) (Q q)) (\<lambda>d. remove1 (fld m PROC2) (C d))
    \<and> isemptyp (procs t (fld m PROC2)) \<and> p_flags (procs t (fld m PROC2)) = {} \<and> p_alarm (procs t (fld m PROC2)) = 0
    \<and> child_utime (procs t (fld m PROC1)) = int32 (child_utime (procs s (fld m PROC1))
        + (user_time (procs s (fld m PROC2)) + child_utime (procs s (fld m PROC2))))
    \<and> child_stime (procs t (fld m PROC1)) = int32 (child_stime (procs s (fld m PROC1))
        + (sys_time (procs s (fld m PROC2)) + child_stime (procs s (fld m PROC2))))"
proof -
  let ?rc = "fld m PROC2" and ?pa = "fld m PROC1"
  define v where "v = upd ?rc (\<lambda>p. p\<lparr>p_alarm := 0\<rparr>) (upd ?pa (kids (procs s ?rc)) s)"
  have ok: "callers_ok s C" "no_deadlock cf s" and sk: "sched_ok cf s Q" using assms(1) by (simp_all add: ipc_ok_def)
  have sv: "sched_ok cf v Q" using sk by (simp add: v_def kids_def sched_ok_upd_same)
  have "isuserp (procs v ?rc)" using assms(3) by (auto simp: v_def kids_def isuserp_def)
  from lock_unready_ok [OF sv this] obtain u where u: "(if p_flags (procs v ?rc) = {} then lock_unready cf ?rc v else Ok v) = Ok u"
    "sched_ok cf u (\<lambda>q. remove1 ?rc (Q q))" "same_procs v u" by blast
  from do_xit_run [OF ok assms(2-4) v_def u(1,3)] obtain t where t: "do_xit cf m s = Ok (OK, t)"
    "callers_ok t (\<lambda>d. remove1 ?rc (C d))" "no_deadlock cf t" "same_vars u t"
    "\<forall>p. \<exists>r. relinked (procs u p) r \<and> procs t p = (if p = ?rc then cleared r else r)" by blast
  have nq: "?rc \<notin> set (remove1 ?rc (Q q))" for q using sk queues_distinct by (auto simp: sched_ok_def)
  have f: "p \<noteq> ?rc \<Longrightarrow> relinked (procs u p) (procs t p)" "\<exists>r. relinked (procs u ?rc) r \<and> procs t ?rc = cleared r" for p
    using t(5) [rule_format, of p] t(5) [rule_format, of ?rc] by auto
  have "sched_ok cf t (\<lambda>q. remove1 ?rc (Q q))"
  proof (rule sched_ok_members [OF u(2)])
    fix p q
    assume "p \<in> set (remove1 ?rc (Q q))"
    then have "p \<noteq> ?rc" using nq by auto
    from relinkedD [OF f(1) [OF this]] show "p_nextready (procs t p) = p_nextready (procs u p) \<and> p_flags (procs t p) = p_flags (procs u p)
        \<and> p_priority (procs t p) = p_priority (procs u p) \<and> sched_group (procs t p) = sched_group (procs u p)
        \<and> cpu_estimate (procs t p) = cpu_estimate (procs u p)" by simp
  qed (use t(4) in \<open>simp_all add: same_vars_def\<close>)
  then have "ipc_ok cf t (\<lambda>q. remove1 ?rc (Q q)) (\<lambda>d. remove1 ?rc (C d))" using t(2,3) by (simp add: ipc_ok_def)
  moreover have em: "isemptyp (procs t ?rc) \<and> p_flags (procs t ?rc) = {}" and al: "p_alarm (procs t ?rc) = p_alarm (procs u ?rc)"
    using f(2) relinkedD by (auto simp: cleared_def isemptyp_def)
  moreover have "p_alarm (procs u ?rc) = 0" using u(3) by (simp add: same_procs_def v_def)
  moreover have "child_utime (procs t p) = child_utime (procs u p) \<and> child_stime (procs t p) = child_stime (procs u p)" for p
    using f(1) [of p] f(2) relinkedD(7,8) by (cases "p = ?rc") (auto simp: cleared_def)
  moreover have "child_utime (procs u p) = child_utime (procs v p) \<and> child_stime (procs u p) = child_stime (procs v p)" for p
    using u(3) by (simp add: same_procs_def)
  ultimately show ?thesis using t(1) al by (auto simp: v_def kids_def)
qed

text \<open>Process 1 exits while process 2 runs.\<close>

definition exit_msg :: "int \<Rightarrow> int \<Rightarrow> message" where
  "exit_msg parent p = \<lparr>m_source = 0, m_type = 1, m_field = (\<lambda>_. 0)(M1_i1 := parent, M1_i2 := p), m3_ca1 = [], sig_map = {}\<rparr>"

theorem do_xit_spec_witness:
  "\<exists>t. do_xit small_config (exit_msg 2 1) small_kern = Ok (OK, t) \<and> isemptyp (procs t 1)
     \<and> ipc_ok small_config t (small_lists(G1 := [2])) (\<lambda>_. [])"
proof -
  have f: "fld (exit_msg 2 1) PROC1 = 2" "fld (exit_msg 2 1) PROC2 = 1"
    by (simp_all add: exit_msg_def fld_def PROC1_def PROC2_def)
  have "isuserp (procs small_kern 1)" "isuserp (procs small_kern 2)"
    by (simp_all add: small_kern_def user_proc_def blank_proc_def isuserp_def)
  moreover have "(\<lambda>q. remove1 1 (small_lists q)) = small_lists(G1 := [2])" by (simp add: small_lists_def fun_eq_iff)
  ultimately show ?thesis
    using do_xit_spec [OF small_ipc_ok, of "exit_msg 2 1"] by (auto simp: f small_no_waits)
qed

end
