(* ===== verification/Kernel_Life.thy ===== *)
theory Kernel_Life
  imports Kernel_Runs Kernel_Exit
begin

text \<open>
  The life of a user process in the running kernel: the handlers of the system task that
  create, load, stop, resume and end a process keep the invariant.
\<close>

section \<open>Changing one user process\<close>

text \<open>From \<open>s\<close> to \<open>t\<close>, only process \<open>k\<close> may have got another class, map, or stack guard; it is a user
  process or an empty slot before and after.\<close>

definition near :: "int \<Rightarrow> kern \<Rightarrow> kern \<Rightarrow> bool" where
  "near k s t \<longleftrightarrow> (\<forall>p. p \<noteq> k \<longrightarrow> p_priority (procs t p) = p_priority (procs s p) \<and> p_map (procs t p) = p_map (procs s p)
       \<and> p_stguard (procs t p) = p_stguard (procs s p) \<and> p_nextheld (procs t p) = p_nextheld (procs s p))
     \<and> {p_priority (procs s k), p_priority (procs t k)} \<subseteq> {PPRI_USER, PPRI_NONE}
     \<and> (\<forall>p. p_int_held (procs t p) = p_int_held (procs s p) \<and> rr_counter (procs t p) \<in> {rr_counter (procs s p), 0}
       \<and> wait_ticks (procs t p) \<in> {wait_ticks (procs s p), 0})
     \<and> held_head t = held_head s \<and> held_tail t = held_tail s
     \<and> k_reenter t = k_reenter s \<and> (\<not> switching s \<longrightarrow> \<not> switching t) \<and> aging_counter t = aging_counter s"

lemma near_frame: "near k s t \<Longrightarrow> frame t u \<Longrightarrow> near k s u"
  unfolding near_def frame_def static_def by (auto; metis)

lemma frame_near: "frame s t \<Longrightarrow> near k t u \<Longrightarrow> near k s u"
  unfolding near_def frame_def static_def by (auto; metis)

lemma near_kind:
  assumes "near k s t"
  shows "istaskp (procs t p) = istaskp (procs s p)" "isservp (procs t p) = isservp (procs s p)"
  using assms by (cases "p = k"; auto simp: near_def istaskp_def isservp_def)+

lemma near_user: "near k s t \<Longrightarrow> p \<noteq> k \<Longrightarrow> isuserp (procs t p) = isuserp (procs s p)"
  by (simp add: near_def isuserp_def)


lemma roles_near:
  assumes r: "roles cf sm s" and n: "near k s t" and k: "k \<notin> {IDLE, HARDWARE}"
  shows "roles cf sm t"
proof -
  have st: "istaskp (procs t p) \<longrightarrow> p_stguard (procs t p) = STACK_GUARD" for p
  proof (cases "p = k")
    case True
    then show ?thesis using n by (auto simp: near_def istaskp_def)
  next
    case False
    then show ?thesis using n r near_kind [OF n, of p] by (simp add: near_def roles_def)
  qed
  have "p_map (procs t HARDWARE) = p_map (procs s HARDWARE)" using n k by (auto simp: near_def)
  then have m: "msg_in_range cf (procs t HARDWARE) sm = msg_in_range cf (procs s HARDWARE) sm" by (simp add: msg_in_range_def)
  have "isuserp (procs t IDLE) = isuserp (procs s IDLE)" "isuserp (procs t HARDWARE) = isuserp (procs s HARDWARE)"
    using near_user [OF n] k by auto
  with r st m near_kind [OF n] show ?thesis unfolding roles_def by simp
qed

lemma held_near:
  assumes h: "held_ok cf s H" and n: "near k s t" shows "held_ok cf t H"
proof -
  have "\<not> istaskp (procs s k)" using n by (auto simp: near_def istaskp_def)
  then have "k \<notin> set H" using h by (auto simp: held_ok_def)
  then have "held_link t x = held_link s x" if "x \<in> set H" for x using n that by (auto simp: near_def held_link_def)
  then have "linked (held_link t) h H = linked (held_link s) h H" for h by (intro chain_cong) auto
  with h n near_kind [OF n] show ?thesis by (simp add: held_ok_def near_def)
qed

lemma side_near:
  assumes s: "side_ok cf s" and n: "near k s t" shows "side_ok cf t"
proof -
  have w: "wait_ticks (procs t p) = wait_ticks (procs s p) \<or> wait_ticks (procs t p) = 0"
    "rr_counter (procs t p) = rr_counter (procs s p) \<or> rr_counter (procs t p) = 0" for p
    using n by (auto simp: near_def)
  have "0 \<le> wait_ticks (procs t p) \<and> wait_ticks (procs t p) \<le> MAX_WAIT_TICKS" for p
    using w(1) [of p] s by (auto simp: side_ok_def waits_ok_def MAX_WAIT_TICKS_def)
  moreover have "0 \<le> rr_counter (procs t p) \<and> rr_counter (procs t p) < RR_QUANTUM" for p
    using w(2) [of p] s by (auto simp: side_ok_def RR_QUANTUM_def)
  moreover have "one_idle t"
  proof -
    have "p_priority (procs s p) = PPRI_IDLE" if "p_priority (procs t p) = PPRI_IDLE" for p
      using n that by (cases "p = k") (auto simp: near_def)
    with s show ?thesis by (auto simp: one_idle_def side_ok_def)
  qed
  moreover have "\<exists>H. held_ok cf t H" using s held_near [OF _ n] by (auto simp: side_ok_def)
  ultimately show ?thesis using s n by (auto simp: side_ok_def waits_ok_def near_def)
qed


text \<open>The memory manager keeps its rule about flags, and so do all others.\<close>

lemma flags_near:
  assumes fo: "flags_ok cf s" and n: "near k s t" and m: "k \<noteq> MM_PROC_NR cf"
    and f: "\<And>p. p_flags (procs t p) = (if p = k then F else p_flags (procs s p))"
    and g: "\<And>p. p \<noteq> k \<Longrightarrow> p_getfrom (procs t p) = p_getfrom (procs s p)"
    and F: "PENDING \<in> F \<Longrightarrow> SIG_PENDING \<in> F"
  shows "flags_ok cf t"
proof -
  have "\<not> istaskp (procs s k)" using n by (auto simp: near_def istaskp_def)
  then show ?thesis using fo m F unfolding flags_ok_def f near_kind [OF n] by (auto simp: g)
qed

lemma kernel_ok_near:
  assumes k: "kernel_ok cf sm s" and n: "near k s t" and np: "k \<notin> {IDLE, HARDWARE}"
    and t: "ipc_ok cf t R C" "cpu_inv cf {} t R" "flags_ok cf t" "best R (proc_ptr t)"
  shows "kernel_ok cf sm t"
proof -
  have "roles cf sm s" "side_ok cf s" "slots cf < 2 ^ 31" using k by (auto simp: kernel_ok_def kinv_def)
  with roles_near [OF _ n np] side_near [OF _ n] t show ?thesis unfolding kernel_ok_def kinv_def by blast
qed

text \<open>What a handler may write into the entry of a process that is blocked: not the links, and not its class.\<close>

definition patch :: "(proc \<Rightarrow> proc) \<Rightarrow> bool" where
  "patch f \<longleftrightarrow> (\<forall>r. p_priority (f r) = p_priority r \<and> p_stguard (f r) = p_stguard r \<and> p_int_held (f r) = p_int_held r
     \<and> p_nextheld (f r) = p_nextheld r \<and> rr_counter (f r) \<in> {rr_counter r, 0} \<and> wait_ticks (f r) \<in> {wait_ticks r, 0}
     \<and> p_sendto (f r) = p_sendto r \<and> p_sendlink (f r) = p_sendlink r \<and> p_callerq (f r) = p_callerq r)"

lemma near_patch:
  assumes "patch f" and "isuserp (procs s k)" shows "near k s (upd k f s)"
  using assms by (auto simp: near_def patch_def isuserp_def upd_def)

text \<open>A task is at work.\<close>

definition working :: "kern \<Rightarrow> bool" where
  "working s \<longleftrightarrow> istaskp (procs s (proc_ptr s))"

lemma working_heavy:
  assumes iv: "kinv cf sm s Q C" and b: "best Q (proc_ptr s)" and w: "working s"
  shows "heavy Q (proc_ptr s)"
proof -
  have ci: "cpu_inv cf {} s Q" and ro: "roles cf sm s" using iv by (simp_all add: kinv_def)
  have "proc_ptr s \<noteq> IDLE" using w ro by (auto simp: working_def roles_def)
  with b obtain q where q: "proc_ptr s \<in> set (Q q)" by (auto simp: best_def)
  moreover have "belongs (procs s (proc_ptr s)) = q" by (rule belongs_queue [OF cpu_invD(1) [OF ci] q])
  moreover have "belongs (procs s (proc_ptr s)) = TASK_Q" using w by (simp add: working_def belongs_def)
  ultimately show ?thesis by (simp add: heavy_def)
qed

lemma patch_wake:
  assumes k: "kernel_ok cf sm s" and w: "working s" and u: "isuserp (procs s p)" "p \<in> set (all_procs cf)" "p_flags (procs s p) \<noteq> {}"
    and f: "patch f" "SENDING \<in> p_flags (f (procs s p)) \<longleftrightarrow> SENDING \<in> p_flags (procs s p)"
      "PENDING \<in> p_flags (f (procs s p)) \<Longrightarrow> SIG_PENDING \<in> p_flags (f (procs s p))"
  shows "\<exists>t. (if p_flags (f (procs s p)) = {} then lock_ready cf p (upd p f s) else Ok (upd p f s)) = Ok t \<and> kernel_ok cf sm t"
proof -
  let ?F = "p_flags (f (procs s p))"
  from k obtain Q C where iv: "kinv cf sm s Q C" and b: "best Q (proc_ptr s)" by (auto simp: kernel_ok_def)
  have ok: "ipc_ok cf s Q C" and ci: "cpu_inv cf {} s Q" and fo: "flags_ok cf s" and ro: "roles cf sm s"
    using iv by (simp_all add: kinv_def)
  have np: "p \<notin> {IDLE, HARDWARE}" and mm: "p \<noteq> MM_PROC_NR cf" using u(1) ro by (auto simp: roles_def isuserp_def isservp_def)
  have nq: "\<not> queued Q p" using queued_flags [OF cpu_invD(1) [OF ci], of p] u(3) by auto
  have ne: "\<not> isemptyp (procs s p)" using u(1) by (simp add: isuserp_def isemptyp_def)
  let ?v = "(upd p f s)\<lparr>switching := True\<rparr>"
  have sw: "cpu_inv cf Y (v\<lparr>switching := c\<rparr>) R = cpu_inv cf Y v R" for Y v c R by (simp add: cpu_inv_def occupied_def)
  have cv: "cpu_inv cf {p} ?v Q" unfolding sw
    by (rule cpu_inv_upd [OF ci nq np _ _ _ ne]) (use f(1) in \<open>simp_all add: patch_def\<close>)
  have nv: "\<not> isemptyp (procs ?v p)" using f(1) ne by (simp add: patch_def isemptyp_def)
  from wake_step [OF cv u(2) nq np nv] obtain x where x: "(if p_flags (procs ?v p) = {} then ready cf p ?v else Ok ?v) = Ok x"
    "cpu_inv cf {} x (woken ?v p Q)" "only_links ?v x" "proc_ptr x = (if p_flags (procs ?v p) = {} \<and> istaskp (procs ?v p)
      \<and> Q TASK_Q = [] then p else proc_ptr ?v)" by blast
  let ?t = "if ?F = {} then x\<lparr>switching := False\<rparr> else upd p f s"
  have xv: "x = ?v" if "?F \<noteq> {}" using x(1) that by simp
  have e: "(if ?F = {} then lock_ready cf p (upd p f s) else Ok (upd p f s)) = Ok ?t"
    using x(1) by (auto simp: lock_ready_def gateway_def)
  have pt: "procs ?t = procs x" "proc_ptr ?t = proc_ptr x" using xv by auto
  have ct: "cpu_inv cf {} ?t (woken ?v p Q)" using x(2) sw xv by (cases "?F = {}") auto
  have n0: "near p s (upd p f s)" by (rule near_patch [OF f(1) u(1)])
  have n: "near p s ?t"
  proof (cases "?F = {}")
    case True
    then have "lock_ready cf p (upd p f s) = Ok ?t" using e by simp
    then have "frame (upd p f s) ?t" unfolding lock_ready_def by (rule framedD [OF frame_gateway [OF frame_ready]])
    with n0 show ?thesis by (rule near_frame)
  qed (use n0 in simp)
  have k: "p_flags (procs ?t r) = (if r = p then ?F else p_flags (procs s r))" "r \<noteq> p \<Longrightarrow> p_getfrom (procs ?t r) = p_getfrom (procs s r)"
    "p_sendto (procs ?t r) = p_sendto (procs s r) \<and> p_sendlink (procs ?t r) = p_sendlink (procs s r)
      \<and> p_callerq (procs ?t r) = p_callerq (procs s r)" for r
    using only_links_same [OF x(3)] f(1) unfolding pt by (auto simp: same_procs_def patch_def)
  have "ipc_ok cf ?t (woken ?v p Q) C"
    by (rule ipc_keep [OF ok cpu_invD(1) [OF ct] _ k(3)]) (use k(1) f(2) in auto)
  moreover have "flags_ok cf ?t" by (rule flags_near [OF fo n mm k(1,2) f(3)])
  moreover have "best (woken ?v p Q) (proc_ptr ?t)"
  proof -
    have "best (woken ?v p Q) (if p_flags (procs ?v p) = {} \<and> istaskp (procs ?v p) \<and> Q TASK_Q = [] then p else proc_ptr s)"
      by (rule best_woken [OF b]) (use working_heavy [OF iv b w] in \<open>auto simp: heavy_def\<close>)
    moreover have pv: "proc_ptr ?v = proc_ptr s" by simp
    ultimately show ?thesis unfolding pt x(4) pv by blast
  qed
  ultimately show ?thesis using e kernel_ok_near [OF assms(1) n np _ ct] by blast
qed


section \<open>Handlers that write one entry\<close>

lemma upd_twice [simp]: "upd p f (upd p g s) = upd p (\<lambda>r. f (g r)) s"
  by (simp add: upd_def)

lemma newmap_keeps:
  assumes k: "kernel_ok cf sm (kn s)" and w: "working (kn s)"
    and g: "isokprocn cf (fld m PROC1) \<Longrightarrow> isuserp (procs (kn s) (fld m PROC1)) \<and> fld m PROC1 \<in> set (all_procs cf)
      \<and> p_flags (procs (kn s) (fld m PROC1)) \<noteq> {} \<and> umap cf (procs (kn s) (m_source m)) D (addr m M1_p1) (sizeof_map ev) \<noteq> 0"
  shows "\<exists>r t. do_newmap cf ev m s = Ok (r, t) \<and> kernel_ok cf sm t"
proof (cases "isokprocn cf (fld m PROC1)")
  case False
  with k show ?thesis by (simp add: do_newmap_def)
next
  case True
  let ?k = "fld m PROC1" and ?a = "umap cf (procs (kn s) (m_source m)) D (addr m M1_p1) (sizeof_map ev)"
  let ?g = "\<lambda>p. alloc_segments cf ev (p\<lparr>p_map := get_map ev (ram s) ?a\<rparr>)"
  let ?f = "\<lambda>p. (?g p)\<lparr>p_flags := p_flags (?g p) - {NO_MAP}\<rparr>"
  have a: "p_flags (?g p) = p_flags p" for p by (simp add: alloc_segments_def Let_def)
  have pf: "patch ?f" by (simp add: patch_def alloc_segments_def Let_def)
  have fp: "PENDING \<in> p_flags (procs (kn s) ?k) \<longrightarrow> SIG_PENDING \<in> p_flags (procs (kn s) ?k)"
    using k by (auto simp: kernel_ok_def kinv_def flags_ok_def)
  have h: "isuserp (procs (kn s) ?k)" "?k \<in> set (all_procs cf)" "p_flags (procs (kn s) ?k) \<noteq> {}" and u: "?a \<noteq> 0"
    using g [OF True] by blast+
  have "SENDING \<in> p_flags (?f (procs (kn s) ?k)) \<longleftrightarrow> SENDING \<in> p_flags (procs (kn s) ?k)"
    "PENDING \<in> p_flags (?f (procs (kn s) ?k)) \<Longrightarrow> SIG_PENDING \<in> p_flags (?f (procs (kn s) ?k))"
    using fp by (simp_all add: a)
  from patch_wake [OF k w h pf this] obtain t where t: "(if p_flags (?f (procs (kn s) ?k)) = {}
      then lock_ready cf ?k (upd ?k ?f (kn s)) else Ok (upd ?k ?f (kn s))) = Ok t" "kernel_ok cf sm t" by blast
  have "do_newmap cf ev m s = Ok (OK, t)"
    using True u h(3) t(1) by (simp add: do_newmap_def assert_def set_flags_def Let_def split: if_splits)
  with t(2) show ?thesis by blast
qed

lemma endsig_keeps:
  assumes k: "kernel_ok cf sm s" and w: "working s"
    and g: "isemptyp (procs s p) \<or> isuserp (procs s p) \<and> p \<in> set (all_procs cf)
      \<and> (p_pendcount (procs s p) \<noteq> 0 \<longrightarrow> SIG_PENDING \<in> p_flags (procs s p))
      \<and> (p_pendcount (procs s p) = 1 \<longrightarrow> PENDING \<notin> p_flags (procs s p))" and p: "p = fld m PROC1"
  shows "\<exists>r t. do_endsig cf m s = Ok (r, t) \<and> kernel_ok cf sm t"
proof (cases "isemptyp (procs s p) \<or> p_pendcount (procs s p) = 0")
  case True
  with k g show ?thesis by (auto simp: do_endsig_def p assert_def Let_def)
next
  case False
  then have h: "isuserp (procs s p)" "p \<in> set (all_procs cf)" "SIG_PENDING \<in> p_flags (procs s p)" and ne: "p_flags (procs s p) \<noteq> {}"
    using g by auto
  have fp: "PENDING \<in> p_flags (procs s p) \<longrightarrow> SIG_PENDING \<in> p_flags (procs s p)" using h by simp
  show ?thesis
  proof (cases "p_pendcount (procs s p) = 1")
    case True
    let ?f = "\<lambda>r. r\<lparr>p_pendcount := p_pendcount r - 1, p_flags := p_flags r - {SIG_PENDING}\<rparr>"
    have "patch ?f" by (simp add: patch_def)
    from patch_wake [OF k w h(1,2) ne this] g False True obtain t where t: "(if p_flags (?f (procs s p)) = {}
        then lock_ready cf p (upd p ?f s) else Ok (upd p ?f s)) = Ok t" "kernel_ok cf sm t" by auto
    have "do_endsig cf m s = Ok (OK, t)"
      using t(1) h(1) False True unfolding do_endsig_def p [symmetric] by (simp add: assert_def set_flags_def Let_def split: if_splits)
    with t(2) show ?thesis by blast
  next
    case other: False
    let ?f = "\<lambda>r. r\<lparr>p_pendcount := p_pendcount r - 1\<rparr>"
    have "patch ?f" by (simp add: patch_def)
    from patch_wake [OF k w h(1,2) ne this] fp ne have "kernel_ok cf sm (upd p ?f s)" by auto
    moreover have "do_endsig cf m s = Ok (OK, upd p ?f s)"
      using h(1) False other unfolding do_endsig_def p [symmetric] by (simp add: assert_def Let_def)
    ultimately show ?thesis by blast
  qed
qed

lemma setgroup_keeps:
  assumes k: "kernel_ok cf sm s" and w: "working s"
    and g: "isuserp (procs s (fld m M1_i1)) \<longrightarrow> fld m M1_i1 \<in> set (all_procs cf) \<and> p_flags (procs s (fld m M1_i1)) \<noteq> {}"
  shows "kernel_ok cf sm (snd (do_setgroup m s))"
proof (cases "isuserp (procs s (fld m M1_i1))")
  case False
  with k show ?thesis by (simp add: do_setgroup_def)
next
  case True
  let ?f = "\<lambda>p. p\<lparr>sched_group := fld m M1_i2, wait_ticks := 0, rr_counter := 0,
                 cpu_estimate := (if fld m M1_i2 = 3 then fld m M1_i3 else 100)\<rparr>"
  have fp: "PENDING \<in> p_flags (procs s (fld m M1_i1)) \<longrightarrow> SIG_PENDING \<in> p_flags (procs s (fld m M1_i1))"
    using k by (auto simp: kernel_ok_def kinv_def flags_ok_def)
  have "patch ?f" by (simp add: patch_def)
  from patch_wake [OF k w True _ _ this] g True fp have "kernel_ok cf sm (upd (fld m M1_i1) ?f s)" by auto
  with True show ?thesis by (simp add: do_setgroup_def Let_def)
qed


lemma task_works:
  assumes k: "kernel_ok cf sm s" and c: "c \<in> set (all_procs cf)" "istaskp (procs s c)" "p_flags (procs s c) = {}" "c \<notin> {IDLE, HARDWARE}"
  shows "working s"
proof -
  from k obtain Q C where iv: "kinv cf sm s Q C" and b: "best Q (proc_ptr s)" by (auto simp: kernel_ok_def)
  have ci: "cpu_inv cf {} s Q" using iv by (simp add: kinv_def)
  have "occupied cf s c" using c by (auto simp: occupied_def istaskp_def isemptyp_def)
  then have "queued Q c" using ci c(3) by (auto simp: cpu_inv_def)
  then obtain q where q: "c \<in> set (Q q)" by (auto simp: queued_def)
  then have "belongs (procs s c) = q" by (rule belongs_queue [OF cpu_invD(1) [OF ci]])
  then have "Q TASK_Q \<noteq> []" using q c(2) by (auto simp: belongs_def)
  then have "proc_ptr s \<in> set (Q TASK_Q)" using best_first(1) [OF b] by simp
  then have "belongs (procs s (proc_ptr s)) = TASK_Q" by (rule belongs_queue [OF cpu_invD(1) [OF ci]])
  then show ?thesis by (auto simp: working_def belongs_def group_queue_def split: if_splits)
qed

lemma worker:
  assumes k: "kernel_ok cf sm s" and w: "working s"
  shows "proc_ptr s \<in> set (all_procs cf) \<and> p_flags (procs s (proc_ptr s)) = {} \<and> proc_ptr s \<notin> {IDLE, HARDWARE}"
proof -
  from k obtain Q C where iv: "kinv cf sm s Q C" and b: "best Q (proc_ptr s)" by (auto simp: kernel_ok_def)
  have ci: "cpu_inv cf {} s Q" using iv by (simp add: kinv_def)
  have q: "queued Q (proc_ptr s)" using working_heavy [OF iv b w] by (auto simp: heavy_def queued_def)
  then have "proc_ptr s \<in> set (all_procs cf)" using cpu_invD(1) [OF ci] by (auto simp: queued_def sched_ok_def)
  with queued_flags [OF cpu_invD(1) [OF ci] q] cpu_invD(4) [OF ci, of "proc_ptr s"] q show ?thesis by blast
qed

text \<open>A signal for another process leaves the task at work.\<close>

lemma signal_works:
  assumes k: "kernel_ok cf sm s" and w: "working s" and u: "isuserp (procs s p)"
  shows "\<exists>t. cause_sig cf sm p n s = Ok t \<and> kernel_ok cf sm t \<and> working t \<and> frame s t \<and> same_waiting cf p s t"
proof -
  from k obtain Q C where iv: "kinv cf sm s Q C" and b: "best Q (proc_ptr s)" by (auto simp: kernel_ok_def)
  from cause_sig_step [OF iv u, of n] b obtain t R where t: "cause_sig cf sm p n s = Ok t" "kinv cf sm t R C" "frame s t"
    "best R (proc_ptr t)" "same_waiting cf p s t" by blast
  have kt: "kernel_ok cf sm t" by (rule kernel_okI [OF k t(2,4,3)])
  note c = worker [OF k w]
  have "proc_ptr s \<noteq> p" using w u by (auto simp: working_def istaskp_def isuserp_def)
  then have "p_flags (procs t (proc_ptr s)) = {}" using c t(5) by (auto simp: same_waiting_def)
  moreover have "istaskp (procs t (proc_ptr s))" using w t(3) by (simp add: working_def istaskp_def frame_def static_def)
  ultimately have "working t" using task_works [OF kt] c by blast
  with t kt show ?thesis by blast
qed

lemma quiet_keeps:
  assumes k: "kernel_ok cf sm s" and f: "\<And>r. quiet r (f r) \<and> rr_counter (f r) = rr_counter r"
  shows "kernel_ok cf sm (upd p f s)"
  by (rule kernel_ok_upd [OF k]) (use f k in \<open>auto simp: kernel_ok_def side_ok_def\<close>)

lemma exec_keeps:
  assumes k: "kernel_ok cf (sys_m ev) (kn s)" and w: "working (kn s)" and p: "p = fld m PROC1"
    and g: "isuserp (procs (kn s) p)" "p \<in> set (all_procs cf)" "RECEIVING \<in> p_flags (procs (kn s) p)"
  shows "\<exists>t. do_exec cf ev m s = Ok (OK, t) \<and> kernel_ok cf (sys_m ev) t"
proof -
  have "\<exists>t. (if fld m PROC2 \<noteq> 0 then cause_sig cf (sys_m ev) p (SIGTRAP cf) (kn s) else Ok (kn s)) = Ok t
      \<and> kernel_ok cf (sys_m ev) t \<and> working t \<and> frame (kn s) t \<and> same_waiting cf p (kn s) t"
    using signal_works [OF k w g(1), of "SIGTRAP cf"] k w by (auto simp: same_waiting_def)
  then obtain u where u: "(if fld m PROC2 \<noteq> 0 then cause_sig cf (sys_m ev) p (SIGTRAP cf) (kn s) else Ok (kn s)) = Ok u"
    "kernel_ok cf (sys_m ev) u" "working u" "frame (kn s) u" "same_waiting cf p (kn s) u" by blast
  have ro: "roles cf (sys_m ev) (kn s)" and fo: "flags_ok cf u" using k u(2) by (auto simp: kernel_ok_def kinv_def)
  have up: "isuserp (procs u p)" using g(1) u(4) by (simp add: isuserp_def frame_def static_def)
  have "p \<noteq> MM_PROC_NR cf" using g(1) ro by (auto simp: roles_def isuserp_def isservp_def)
  then have r: "RECEIVING \<in> p_flags (procs u p)" using g(3) u(5) by (simp add: same_waiting_def)
  then have ne: "p_flags (procs u p) \<noteq> {}" by auto
  let ?f = "\<lambda>r. r\<lparr>p_reg := (p_reg r)\<lparr>r_sp := addr m M1_p1, r_pc := addr m M1_p3\<rparr>, p_flags := p_flags r - {RECEIVING}\<rparr>"
  have pf: "patch ?f" by (simp add: patch_def)
  have fl: "SENDING \<in> p_flags (?f (procs u p)) \<longleftrightarrow> SENDING \<in> p_flags (procs u p)"
    "PENDING \<in> p_flags (?f (procs u p)) \<Longrightarrow> SIG_PENDING \<in> p_flags (?f (procs u p))"
    using fo by (auto simp: flags_ok_def)
  from patch_wake [OF u(2,3) up g(2) ne pf fl] obtain v where v: "(if p_flags (?f (procs u p)) = {} then lock_ready cf p (upd p ?f u)
      else Ok (upd p ?f u)) = Ok v" "kernel_ok cf (sys_m ev) v" by blast
  let ?n = "numap cf v (m_source m) (addr m M1_p2) 15"
  let ?t = "if ?n \<noteq> 0 then upd p (\<lambda>p. p\<lparr>p_name := takeWhile (\<lambda>c. (32 :: nat) \<le> of_char c) (get_name ev (ram s) ?n)\<rparr>) v else v"
  have "kernel_ok cf (sys_m ev) ?t" using v(2) quiet_keeps [OF v(2), of "\<lambda>p. p\<lparr>p_name := _ p\<rparr>"] by (simp add: quiet_def)
  moreover have "do_exec cf ev m s = Ok (OK, ?t)"
    using g(1) u(1) v(1) unfolding do_exec_def p [symmetric] by (simp add: assert_def Let_def split: if_splits)
  ultimately show ?thesis by blast
qed


section \<open>Tracing and signal handlers\<close>

definition trace_fits :: "config \<Rightarrow> env \<Rightarrow> kern \<Rightarrow> message \<Rightarrow> bool" where
  "trace_fits cf ev s m \<longleftrightarrow> isemptyp (procs s (fld m M2_i1)) \<or>
     (case trace_of ev (fld m M2_i2) of
        T_STOP \<Rightarrow> isuserp (procs s (fld m M2_i1))
      | T_RESUME \<Rightarrow> isuserp (procs s (fld m M2_i1)) \<and> fld m M2_i1 \<in> set (all_procs cf) \<and> P_STOP \<in> p_flags (procs s (fld m M2_i1))
      | T_STEP \<Rightarrow> isuserp (procs s (fld m M2_i1)) \<and> fld m M2_i1 \<in> set (all_procs cf) \<and> P_STOP \<in> p_flags (procs s (fld m M2_i1))
      | T_GETUSER \<Rightarrow> False | T_SETUSER \<Rightarrow> False | _ \<Rightarrow> True)"

lemma resume_keeps:
  assumes k: "kernel_ok cf sm s" and w: "working s" and p: "isuserp (procs s p)" "p \<in> set (all_procs cf)" "P_STOP \<in> p_flags (procs s p)"
    and v: "kn v = upd p (\<lambda>r. r\<lparr>p_reg := g (p_reg r)\<rparr>) s"
  shows "\<exists>t. resume cf p v = Ok (OK, v\<lparr>kn := t\<rparr>) \<and> kernel_ok cf sm t"
proof -
  let ?f = "\<lambda>r. r\<lparr>p_reg := g (p_reg r), p_flags := p_flags r - {P_STOP}\<rparr>"
  have pf: "patch ?f" by (simp add: patch_def)
  have ne: "p_flags (procs s p) \<noteq> {}" using p(3) by auto
  have "flags_ok cf s" using k by (auto simp: kernel_ok_def kinv_def)
  then have fl: "SENDING \<in> p_flags (?f (procs s p)) \<longleftrightarrow> SENDING \<in> p_flags (procs s p)"
    "PENDING \<in> p_flags (?f (procs s p)) \<Longrightarrow> SIG_PENDING \<in> p_flags (?f (procs s p))" by (auto simp: flags_ok_def)
  from patch_wake [OF k w p(1,2) ne pf fl] obtain t where t: "(if p_flags (?f (procs s p)) = {} then lock_ready cf p (upd p ?f s)
      else Ok (upd p ?f s)) = Ok t" "kernel_ok cf sm t" by blast
  have "resume cf p v = Ok (OK, v\<lparr>kn := t\<rparr>)"
    using t(1) v by (simp add: resume_def set_flags_def Let_def split: if_splits)
  with t(2) show ?thesis by blast
qed

lemma stop_keeps:
  assumes k: "kernel_ok cf sm s" and u: "isuserp (procs s p)"
  shows "\<exists>t. (if p_flags (procs s p) = {} then lock_unready cf p s else Ok s) = Ok t
    \<and> kernel_ok cf sm (upd p (\<lambda>p. p\<lparr>p_flags := insert P_STOP (p_flags p), p_reg := h (p_reg p)\<rparr>) t)"
proof -
  from k obtain Q C where iv: "kinv cf sm s Q C" and b: "best Q (proc_ptr s)" by (auto simp: kernel_ok_def)
  from stop_step [OF iv u, of "{P_STOP}"] b obtain t R where t: "(if p_flags (procs s p) = {} then lock_unready cf p s else Ok s) = Ok t"
    "kinv cf sm (set_flags p (\<lambda>f. f \<union> {P_STOP}) t) R C" "frame s t" "best R (proc_ptr t)" by auto
  let ?t = "set_flags p (\<lambda>f. f \<union> {P_STOP}) t"
  have "best R (proc_ptr ?t)" "frame s ?t" using t(3,4) by (simp_all add: frame_updates)
  with kernel_okI [OF k t(2)] have "kernel_ok cf sm ?t" by blast
  then have "kernel_ok cf sm (upd p (\<lambda>p. p\<lparr>p_reg := h (p_reg p)\<rparr>) ?t)" by (rule quiet_keeps) (simp add: quiet_def)
  with t(1) show ?thesis by (auto simp: set_flags_def)
qed

lemma trace_keeps:
  assumes k: "kernel_ok cf sm (kn s)" and w: "working (kn s)" and g: "trace_fits cf ev (kn s) m"
  shows "\<exists>r m' t. do_trace cf ev m s = Ok (r, m', t) \<and> kernel_ok cf sm (kn t)"
proof (cases "isemptyp (procs (kn s) (fld m M2_i1))")
  case True
  with k show ?thesis by (simp add: do_trace_def Let_def)
next
  case False
  let ?k = "fld m M2_i1"
  show ?thesis
  proof (cases "trace_of ev (fld m M2_i2)")
    case T_STOP
    then have "isuserp (procs (kn s) ?k)" using g False by (simp add: trace_fits_def)
    from stop_keeps [OF k this, of "\<lambda>r. r\<lparr>r_psw := and (r_psw r) (not (TRACEBIT cf))\<rparr>"] False T_STOP
    show ?thesis by (cases "p_flags (procs (kn s) ?k) = {}") (auto simp: do_trace_def Let_def)
  next
    case T_RESUME
    then have u: "isuserp (procs (kn s) ?k)" "?k \<in> set (all_procs cf)" "P_STOP \<in> p_flags (procs (kn s) ?k)"
      using g False by (simp_all add: trace_fits_def)
    have "kn s = upd ?k (\<lambda>r. r\<lparr>p_reg := id (p_reg r)\<rparr>) (kn s)" by (simp add: upd_def)
    from resume_keeps [OF k w u this] False T_RESUME show ?thesis by (auto simp: do_trace_def Let_def)
  next
    case T_STEP
    then have u: "isuserp (procs (kn s) ?k)" "?k \<in> set (all_procs cf)" "P_STOP \<in> p_flags (procs (kn s) ?k)"
      using g False by (simp_all add: trace_fits_def)
    let ?s = "s\<lparr>kn := upd ?k (\<lambda>p. p\<lparr>p_reg := (p_reg p)\<lparr>r_psw := or (r_psw (p_reg p)) (TRACEBIT cf)\<rparr>\<rparr>) (kn s)\<rparr>"
    have "kn ?s = upd ?k (\<lambda>r. r\<lparr>p_reg := (\<lambda>r. r\<lparr>r_psw := or (r_psw r) (TRACEBIT cf)\<rparr>) (p_reg r)\<rparr>) (kn s)" by simp
    from resume_keeps [OF k w u this] False T_STEP show ?thesis by (auto simp: do_trace_def Let_def)
  qed (use k g False in \<open>auto simp: do_trace_def Let_def trace_fits_def\<close>)
qed

lemma sendsig_keeps:
  assumes k: "kernel_ok cf sm (kn s)"
    and g: "isuserp (procs (kn s) (fld m PROC1))" "umap cf (procs (kn s) (MM_PROC_NR cf)) D (addr m M1_p1) (sizeof_sigmsg ev) \<noteq> 0"
  shows "\<exists>r t. do_sendsig cf ev m s = Ok (r, t) \<and> kernel_ok cf sm (kn t)"
proof -
  have q: "kernel_ok cf sm (upd p (\<lambda>r. r\<lparr>p_reg := h (p_reg r)\<rparr>) (kn s))" for p h
    by (rule quiet_keeps [OF k]) (simp add: quiet_def)
  show ?thesis
    unfolding do_sendsig_def Let_def assert_def
    using g k q [of "fld m PROC1" "\<lambda>r. r\<lparr>r_fp := _\<rparr>"] q [of "fld m PROC1" "\<lambda>r. r\<lparr>r_fp := _, r_sp := _, r_pc := _\<rparr>"] by simp
qed

lemma sigreturn_keeps:
  assumes k: "kernel_ok cf sm (kn s)" and g: "isuserp (procs (kn s) (fld m PROC1))"
  shows "\<exists>r t. do_sigreturn cf ev m s = Ok (r, t) \<and> kernel_ok cf sm (kn t)"
proof -
  have "kernel_ok cf sm (upd p (\<lambda>r. r\<lparr>p_reg := h\<rparr>) (kn s))" for p h
    by (rule quiet_keeps [OF k]) (simp add: quiet_def)
  then show ?thesis using g k by (simp add: do_sigreturn_def Let_def assert_def)
qed


section \<open>Birth and death\<close>

definition fork_fits :: "config \<Rightarrow> kern \<Rightarrow> int \<Rightarrow> int \<Rightarrow> bool" where
  "fork_fits cf s p c \<longleftrightarrow> isuserp (procs s p) \<and> SENDING \<notin> p_flags (procs s p) \<and> p_callerq (procs s p) = None
     \<and> isemptyp (procs s c) \<and> c \<in> set (all_procs cf) \<and> c \<notin> {IDLE, HARDWARE} \<and> p_callerq (procs s c) = None"

lemma fork_keeps:
  assumes k: "kernel_ok cf sm s" and g: "fork_fits cf s (fld m PROC1) (fld m PROC2)"
  shows "\<exists>t. do_fork m s = Ok (OK, t) \<and> kernel_ok cf sm t"
proof -
  let ?p = "fld m PROC1" and ?c = "fld m PROC2"
  note g' = g [unfolded fork_fits_def]
  from k obtain Q C H where iv: "kinv cf sm s Q C" and b: "best Q (proc_ptr s)" and h: "held_ok cf s H"
    by (auto simp: kernel_ok_def side_ok_def)
  have ok: "ipc_ok cf s Q C" and ci: "cpu_inv cf {} s Q" and fo: "flags_ok cf s" and ro: "roles cf sm s"
    using iv by (simp_all add: kinv_def)
  define f where "f = (\<lambda>rpc :: proc. (procs s ?p)\<lparr>p_ldt_sel := p_ldt_sel rpc, p_nr := ?c,
           p_flags := insert NO_MAP (p_flags (procs s ?p)) - {PENDING, SIG_PENDING, P_STOP},
           sched_group := 0, wait_ticks := 0, cpu_estimate := 0, rr_counter := 0,
           p_pending := {}, p_pendcount := 0, p_pid := fld m PID, p_reg := (p_reg (procs s ?p))\<lparr>r_retreg := 0\<rparr>,
           user_time := 0, sys_time := 0, child_utime := 0, child_stime := 0\<rparr>)"
  let ?t = "upd ?c f s"
  have run: "do_fork m s = Ok (OK, ?t)" using g' by (simp add: do_fork_def assert_def Let_def f_def)
  have e: "p_flags (procs s ?c) = {}" "\<not> queued Q ?c" "?c \<noteq> ?p" "?c \<noteq> MM_PROC_NR cf"
    using ci g' ro by (auto simp: cpu_inv_def isuserp_def isemptyp_def roles_def isservp_def)
  have pu: "p_priority (procs s ?p) = PPRI_USER" "p_priority (procs s ?c) = PPRI_NONE" using g' by (simp_all add: isuserp_def isemptyp_def)
  have nh: "\<not> p_int_held (procs s ?p)" "\<not> p_int_held (procs s ?c)"
    using h pu by (auto simp: held_ok_def istaskp_def)
  have fl: "p_flags (procs ?t r) = (if r = ?c then insert NO_MAP (p_flags (procs s ?p)) - {PENDING, SIG_PENDING, P_STOP}
      else p_flags (procs s r))" for r by (simp add: f_def)
  have n: "near ?c s ?t" using pu nh by (auto simp: near_def f_def upd_def)
  have nq: "?c \<notin> set (Q q)" for q using e(2) by (auto simp: queued_def)
  have sk: "sched_ok cf ?t Q" using sched_ok_upd_other [of ?c Q cf f s] nq cpu_invD(1) [OF ci] by simp
  have ct: "cpu_inv cf {} ?t Q"
  proof -
    have "occupied cf ?t r \<longleftrightarrow> occupied cf s r" if "r \<noteq> ?c" for r using that by (simp add: occupied_def)
    moreover have "NO_MAP \<in> p_flags (procs ?t ?c)" "\<not> isemptyp (procs ?t ?c)"
      using pu by (simp_all add: f_def isemptyp_def)
    ultimately show ?thesis using ci sk e(2) g' unfolding cpu_inv_def by (auto split: if_splits)
  qed
  have w: "waits_for ?t = waits_for s" using e(1) g' by (auto simp: waits_for_def fun_eq_iff f_def)
  have co: "callers_ok s C" and nd: "no_deadlock cf s" using ok by (simp_all add: ipc_ok_def)
  have cq: "p_callerq (procs ?t d) = p_callerq (procs s d)" for d using g' by (simp add: f_def)
  have "linked (link_of ?t) (p_callerq (procs s d)) (C d) = linked (link_of s) (p_callerq (procs s d)) (C d)" for d
  proof (rule chain_cong)
    fix x
    assume "x \<in> set (C d)"
    then have "waits_for s x = Some d" using co by (simp add: callers_ok_def)
    then have "x \<noteq> ?c" using e(1) by (auto simp: waits_for_def)
    then show "link_of ?t x = link_of s x" by (simp add: link_of_def)
  qed
  then have "callers_ok ?t C" using co unfolding callers_ok_def w cq by simp
  then have "ipc_ok cf ?t Q C" using sk nd no_deadlock_frame [OF w] by (simp add: ipc_ok_def)
  moreover have "flags_ok cf ?t" by (rule flags_near [OF fo n e(4) fl]) (simp_all add: f_def)
  moreover have "best Q (proc_ptr ?t)" using b by simp
  ultimately show ?thesis using run kernel_ok_near [OF k n _ _ ct] g' by blast
qed

definition exit_fits :: "config \<Rightarrow> kern \<Rightarrow> int \<Rightarrow> int \<Rightarrow> bool" where
  "exit_fits cf s p c \<longleftrightarrow> isuserp (procs s p) \<and> isuserp (procs s c)
     \<and> (SENDING \<in> p_flags (procs s c) \<longrightarrow> p_sendto (procs s c) \<in> set (all_procs cf))"

lemma asleep_remove:
  assumes "sched_ok cf s Q" shows "asleep s p Q = (\<lambda>q. remove1 p (Q q))"
proof
  fix q
  show "asleep s p Q q = remove1 p (Q q)"
  proof (cases "p \<in> set (Q q)")
    case True
    then show ?thesis using assms by (auto simp: asleep_def sched_ok_def Let_def)
  qed (auto simp: asleep_def Let_def remove1_idem)
qed

text \<open>The child leaves its queue, if it is in one.\<close>

lemma exit_sleep:
  assumes ci: "cpu_inv cf {} v Q" and b: "best Q (proc_ptr v)" and nt: "\<not> istaskp (procs v c)"
  shows "\<exists>u. (if p_flags (procs v c) = {} then lock_unready cf c v else Ok v) = Ok u \<and> cpu_inv cf {c} u (\<lambda>q. remove1 c (Q q))
    \<and> same_procs v u \<and> frame v u \<and> best (\<lambda>q. remove1 c (Q q)) (proc_ptr u)"
proof -
  have "\<exists>u. (if p_flags (procs v c) = {} then lock_unready cf c v else Ok v) = Ok u \<and> cpu_inv cf {c} u (asleep v c Q)
      \<and> same_procs v u \<and> frame v u \<and> best (asleep v c Q) (proc_ptr u)"
  proof (cases "p_flags (procs v c) = {}")
    case True
    with sleep_gateway [OF ci True] nt b show ?thesis by auto
  next
    case False
    then have "asleep v c Q = Q" by (simp add: asleep_def Let_def)
    with False ci b show ?thesis by (auto simp: cpu_inv_def)
  qed
  then show ?thesis unfolding asleep_remove [OF cpu_invD(1) [OF ci]] .
qed

text \<open>Its cleared entry is in no queue, and the scheduler's part of the others is as it was.\<close>

lemma exit_cpu:
  assumes u: "cpu_inv cf {c} u R" and nq: "\<And>q. c \<notin> set (R q)" and sv: "same_vars u t"
    and f: "\<And>p. p \<noteq> c \<Longrightarrow> relinked (procs u p) (procs t p)" and r: "procs t c = cleared r"
  shows "sched_ok cf t R \<and> cpu_inv cf {} t R"
proof -
  note fo' = relinkedD [OF f]
  have sq: "sched_ok cf t R"
  proof (rule sched_ok_members [OF cpu_invD(1) [OF u]])
    fix p q
    assume "p \<in> set (R q)"
    then have "p \<noteq> c" using nq by auto
    then show "p_nextready (procs t p) = p_nextready (procs u p) \<and> p_flags (procs t p) = p_flags (procs u p)
        \<and> p_priority (procs t p) = p_priority (procs u p) \<and> sched_group (procs t p) = sched_group (procs u p)
        \<and> cpu_estimate (procs t p) = cpu_estimate (procs u p)" by (simp add: fo')
  qed (use sv in \<open>simp_all add: same_vars_def\<close>)
  have "occupied cf t p \<longleftrightarrow> occupied cf u p" "isemptyp (procs t p) \<longleftrightarrow> isemptyp (procs u p)" "p_flags (procs t p) = p_flags (procs u p)"
    if "p \<noteq> c" for p using that by (simp_all add: occupied_def isemptyp_def fo')
  moreover have "isemptyp (procs t c)" "p_flags (procs t c) = {}" by (simp_all add: r cleared_def isemptyp_def)
  moreover have "\<not> queued R c" using nq by (simp add: queued_def)
  ultimately show ?thesis using u sq unfolding cpu_inv_def by (metis occupied_def singletonD)
qed

lemma exit_keeps:
  assumes k: "kernel_ok cf sm s" and g: "exit_fits cf s (fld m PROC1) (fld m PROC2)"
  shows "\<exists>t. do_xit cf m s = Ok (OK, t) \<and> kernel_ok cf sm t"
proof -
  let ?p = "fld m PROC1" and ?c = "fld m PROC2"
  have us: "isuserp (procs s ?p)" "isuserp (procs s ?c)" using g by (simp_all add: exit_fits_def)
  have wd: "\<forall>d. waits_for s ?c = Some d \<longrightarrow> d \<in> set (all_procs cf)" using g by (auto simp: exit_fits_def waits_for_def)
  define v where "v = upd ?c (\<lambda>p. p\<lparr>p_alarm := 0\<rparr>) (upd ?p (kids (procs s ?c)) s)"
  have "kernel_ok cf sm (upd ?p (kids (procs s ?c)) s)" by (rule quiet_keeps [OF k]) (simp add: quiet_def kids_def)
  then have kv: "kernel_ok cf sm v" unfolding v_def by (rule quiet_keeps) (simp add: quiet_def)
  then obtain Q C where iv: "kinv cf sm v Q C" and b: "best Q (proc_ptr v)" by (auto simp: kernel_ok_def)
  have ok: "ipc_ok cf v Q C" and ci: "cpu_inv cf {} v Q" and fo: "flags_ok cf v" and ro: "roles cf sm v"
    using iv by (simp_all add: kinv_def)
  have uv: "isuserp (procs v ?c)" using us(2) by (auto simp: v_def kids_def isuserp_def)
  have nt: "\<not> istaskp (procs v ?c)" and np: "?c \<notin> {IDLE, HARDWARE}" and mm: "?c \<noteq> MM_PROC_NR cf"
    using uv ro by (auto simp: roles_def isuserp_def istaskp_def isservp_def)
  note sk = cpu_invD(1) [OF ci]
  from exit_sleep [OF ci b nt] obtain u where u: "(if p_flags (procs v ?c) = {} then lock_unready cf ?c v else Ok v) = Ok u"
    "cpu_inv cf {?c} u (\<lambda>q. remove1 ?c (Q q))" "same_procs v u" "frame v u" "best (\<lambda>q. remove1 ?c (Q q)) (proc_ptr u)" by blast
  have ws: "waits_for v = waits_for s" "link_of v = link_of s" "p_callerq (procs v d) = p_callerq (procs s d)" for d
    unfolding v_def by (auto simp: waits_for_def link_of_def fun_eq_iff kids_def)
  have co: "callers_ok s C" "no_deadlock cf s"
    using ok callers_ok_frame [of v s C] no_deadlock_frame [of v s cf] ws by (simp_all add: ipc_ok_def)
  from do_xit_run [OF co us wd v_def u(1,3)] obtain t where t: "do_xit cf m s = Ok (OK, t)"
    "callers_ok t (\<lambda>d. remove1 ?c (C d))" "no_deadlock cf t" "same_vars u t"
    "\<forall>p. \<exists>r. relinked (procs u p) r \<and> procs t p = (if p = ?c then cleared r else r)" by blast
  have f: "p \<noteq> ?c \<Longrightarrow> relinked (procs u p) (procs t p)" "\<exists>r. relinked (procs u ?c) r \<and> procs t ?c = cleared r" for p
    using t(5) [rule_format, of p] t(5) [rule_format, of ?c] by auto
  note fo' = relinkedD [OF f(1)]
  obtain r where r: "relinked (procs u ?c) r" "procs t ?c = cleared r" using f(2) by blast
  note fc = relinkedD [OF r(1)]
  let ?R = "\<lambda>q. remove1 ?c (Q q)"
  have nq: "?c \<notin> set (?R q)" for q using sk queues_distinct by (auto simp: sched_ok_def)
  from exit_cpu [OF u(2) nq t(4) f(1) r(2)] have sq: "sched_ok cf t ?R" and ct: "cpu_inv cf {} t ?R" by blast+
  have uu: "p_priority (procs u ?c) = PPRI_USER" using u(3) uv by (simp add: same_procs_def isuserp_def)
  have al: "p_int_held (procs t p) = p_int_held (procs u p) \<and> rr_counter (procs t p) = rr_counter (procs u p)
      \<and> wait_ticks (procs t p) = wait_ticks (procs u p)" for p
  proof (cases "p = ?c")
    case True
    then show ?thesis using fc(12-14) r(2) by (simp add: cleared_def)
  qed (simp add: fo')
  have "p_priority (procs t ?c) = PPRI_NONE" using r(2) by (simp add: cleared_def)
  then have "near ?c u t" using t(4) uu fo'(2,9-11) al unfolding near_def same_vars_def by simp
  with u(4) have n: "near ?c v t" by (rule frame_near)
  have fl: "p_flags (procs t p) = (if p = ?c then {} else p_flags (procs v p))" "p \<noteq> ?c \<Longrightarrow> p_getfrom (procs t p) = p_getfrom (procs v p)" for p
    using u(3) by (auto simp: fo' r(2) cleared_def same_procs_def)
  have "flags_ok cf t" by (rule flags_near [OF fo n mm fl]) auto
  moreover have "ipc_ok cf t ?R (\<lambda>d. remove1 ?c (C d))" using sq t(2,3) by (simp add: ipc_ok_def)
  moreover have "best ?R (proc_ptr t)" using u(5) t(4) by (simp add: same_vars_def)
  ultimately show ?thesis using t(1) kernel_ok_near [OF kv n np _ ct] by blast
qed

end
