(* ===== verification/Kernel_Requests.thy ===== *)
theory Kernel_Requests
  imports Kernel_Life
begin

text \<open>
  The system task in the running kernel: whatever request it serves, the invariant is kept. What
  the memory manager has to promise about its requests is \<open>request_fits\<close>.
\<close>

section \<open>Requests\<close>

definition request_fits :: "config \<Rightarrow> env \<Rightarrow> kern \<Rightarrow> message \<Rightarrow> bool" where
  "request_fits cf ev s m \<longleftrightarrow>
     (case map_of sys_codes (m_type m) of
        None \<Rightarrow> True
      | Some request \<Rightarrow>
         (case request of
            SYS_FORK \<Rightarrow> fork_fits cf s (fld m PROC1) (fld m PROC2)
          | SYS_XIT \<Rightarrow> exit_fits cf s (fld m PROC1) (fld m PROC2)
          | SYS_NEWMAP \<Rightarrow> isokprocn cf (fld m PROC1) \<longrightarrow>
              isuserp (procs s (fld m PROC1)) \<and> fld m PROC1 \<in> set (all_procs cf) \<and> p_flags (procs s (fld m PROC1)) \<noteq> {}
              \<and> umap cf (procs s (m_source m)) D (addr m M1_p1) (sizeof_map ev) \<noteq> 0
          | SYS_GETMAP \<Rightarrow> isokprocn cf (fld m PROC1) \<and> umap cf (procs s (m_source m)) D (addr m M1_p1) (sizeof_map ev) \<noteq> 0
          | SYS_EXEC \<Rightarrow> isuserp (procs s (fld m PROC1)) \<and> fld m PROC1 \<in> set (all_procs cf) \<and> RECEIVING \<in> p_flags (procs s (fld m PROC1))
          | SYS_GETSP \<Rightarrow> isuserp (procs s (fld m PROC1))
          | SYS_ABORT \<Rightarrow> False
          | SYS_SENDSIG \<Rightarrow> isuserp (procs s (fld m PROC1))
              \<and> umap cf (procs s (MM_PROC_NR cf)) D (addr m M1_p1) (sizeof_sigmsg ev) \<noteq> 0
          | SYS_SIGRETURN \<Rightarrow> isuserp (procs s (fld m PROC1))
          | SYS_KILL \<Rightarrow> isuserp (procs s (fld m M6_i1))
          | SYS_ENDSIG \<Rightarrow> isemptyp (procs s (fld m PROC1)) \<or> isuserp (procs s (fld m PROC1)) \<and> fld m PROC1 \<in> set (all_procs cf)
              \<and> (p_pendcount (procs s (fld m PROC1)) \<noteq> 0 \<longrightarrow> SIG_PENDING \<in> p_flags (procs s (fld m PROC1)))
              \<and> (p_pendcount (procs s (fld m PROC1)) = 1 \<longrightarrow> PENDING \<notin> p_flags (procs s (fld m PROC1)))
          | SYS_TRACE \<Rightarrow> trace_fits cf ev s m
          | SYS_SYSCTL \<Rightarrow> fld m M2_i2 \<noteq> SYSSIGNON ev
          | SYS_SETGROUP \<Rightarrow> isuserp (procs s (fld m M1_i1)) \<longrightarrow>
              fld m M1_i1 \<in> set (all_procs cf) \<and> p_flags (procs s (fld m M1_i1)) \<noteq> {}
          | _ \<Rightarrow> True))"

section \<open>Requests that leave the process table alone\<close>

lemma kn_copy: "kn (snd (do_copy cf ev m s)) = kn s"
  by (simp add: do_copy_def Let_def)

lemma kn_vcopy_loop: "kn (snd (vcopy_loop cf ev p q vs s)) = kn s"
  by (induction cf ev p q vs s rule: vcopy_loop.induct) (auto simp: Let_def)

lemma kn_vcopy: "kn (snd (do_vcopy cf ev m s)) = kn s"
  by (simp add: do_vcopy_def Let_def kn_vcopy_loop)

lemma kn_puts_loop: "kn (snd (puts_loop cf p a n s)) = kn s"
  by (induction cf p a n s rule: puts_loop.induct) (auto simp: Let_def)

lemma kn_puts: "kn (snd (do_puts cf m s)) = kn s"
  using kn_puts_loop [of cf "m_source m" "addr m M1_p1" "nat (fld m M1_i1)" s]
  by (auto simp: do_puts_def Let_def split: prod.split)

lemma kn_sysctl: "fld m M2_i2 \<noteq> SYSSIGNON ev \<Longrightarrow> kn (snd (do_sysctl cf ev m s)) = kn s"
  by (auto simp: do_sysctl_def Let_def split: prod.split option.split)

lemma kn_mem: "kn (snd (snd (do_mem m s))) = kn s"
  by (auto simp: do_mem_def Let_def split: prod.split)

lemmas kn_same = kn_copy kn_vcopy kn_puts kn_sysctl kn_mem

lemma kernel_ok_put [simp]: "kernel_ok cf sm (put_msg c a m s) = kernel_ok cf sm s"
proof -
  have h: "held_ok cf (put_msg c a m s) H = held_ok cf s H" for H by (simp add: held_ok_def held_link_def [abs_def] put_msg_def)
  have "side_ok cf (put_msg c a m s) = side_ok cf s"
    unfolding side_ok_def h by (simp add: waits_ok_def one_idle_def put_msg_def)
  moreover have "proc_ptr (put_msg c a m s) = proc_ptr s" by (simp add: put_msg_def)
  ultimately show ?thesis by (simp add: kernel_ok_def)
qed

section \<open>sys_handle\<close>

lemma on_kern_ok: "\<exists>r t. f = Ok (r, t) \<and> P t \<Longrightarrow> \<exists>r t. on_kern s f = Ok (r, t) \<and> P (kn t)"
  by (auto simp: on_kern_def)

lemma kill_keeps:
  assumes "kernel_ok cf (sys_m ev) s" and "isuserp (procs s (fld m M6_i1))"
  shows "\<exists>r t. do_kill cf ev m s = Ok (r, t) \<and> kernel_ok cf (sys_m ev) t"
  using signal_keeps [OF assms, of "nat (fld m M6_i2)"] assms(2) by (auto simp: do_kill_def assert_def)

lemma serve_keeps:
  assumes k: "kernel_ok cf (sys_m ev) (kn s)" and w: "working (kn s)"
    and g: "request_fits cf ev (kn s) (get_msg SYSTASK (sys_m ev) (kn s))"
  shows "\<exists>r t. sys_handle cf ev uptime s = Ok (r, t) \<and> kernel_ok cf (sys_m ev) (kn t)"
proof (cases "map_of sys_codes (m_type (get_msg SYSTASK (sys_m ev) (kn s)))")
  case None
  with k show ?thesis by (simp add: sys_handle_def Let_def)
next
  case (Some request)
  let ?m = "get_msg SYSTASK (sys_m ev) (kn s)"
  have same: "\<exists>r t. Ok x = Ok (r, t) \<and> kernel_ok cf (sys_m ev) (kn t)" if "kn (snd x) = kn s" for x :: "status \<times> sysk"
    using that k by (cases x) auto
  have ans: "\<exists>r t. Ok (with_answer ev s' x) = Ok (r, t) \<and> kernel_ok cf (sys_m ev) (kn t)" if "kernel_ok cf (sys_m ev) (kn s')" for s' x
    using that by (simp add: with_answer_def answer_def)
  note on_kern = on_kern_ok [where P = "kernel_ok cf (sys_m ev)" and s = s]
  have on_kern_OK: "\<exists>r t. on_kern s f = Ok (r, t) \<and> kernel_ok cf (sys_m ev) (kn t)" if "\<exists>t. f = Ok (OK, t) \<and> kernel_ok cf (sys_m ev) t" for f
    using that on_kern by blast
  note g' = g [unfolded request_fits_def Some option.case]
  note e = sys_handle_def Let_def Some option.case
  show ?thesis
  proof (cases request)
    case SYS_FORK
    then have "fork_fits cf (kn s) (fld ?m PROC1) (fld ?m PROC2)" using g' by simp
    from on_kern_OK [OF fork_keeps [OF k this]] show ?thesis by (simp add: e SYS_FORK)
  next
    case SYS_XIT
    then have "exit_fits cf (kn s) (fld ?m PROC1) (fld ?m PROC2)" using g' by simp
    from on_kern_OK [OF exit_keeps [OF k this]] show ?thesis by (simp add: e SYS_XIT)
  next
    case SYS_NEWMAP
    have "\<exists>r t. do_newmap cf ev ?m s = Ok (r, t) \<and> kernel_ok cf (sys_m ev) t"
      by (rule newmap_keeps [OF k w]) (use g' SYS_NEWMAP in simp)
    from on_kern [OF this] show ?thesis by (simp add: e SYS_NEWMAP)
  next
    case SYS_GETMAP
    then show ?thesis using k g' by (simp add: e do_getmap_def assert_def Let_def)
  next
    case SYS_EXEC
    have "\<exists>t. do_exec cf ev ?m s = Ok (OK, t) \<and> kernel_ok cf (sys_m ev) t"
      by (rule exec_keeps [OF k w refl]) (use g' SYS_EXEC in simp_all)
    from on_kern_OK [OF this] show ?thesis by (simp add: e SYS_EXEC)
  next
    case SYS_GETSP
    then show ?thesis using ans [OF k] g' by (simp add: e do_getsp_def assert_def)
  next
    case SYS_ABORT
    with g' show ?thesis by simp
  next
    case SYS_SENDSIG
    then show ?thesis using sendsig_keeps [OF k] g' by (simp add: e)
  next
    case SYS_SIGRETURN
    then show ?thesis using sigreturn_keeps [OF k] g' by (simp add: e)
  next
    case SYS_KILL
    then have "isuserp (procs (kn s) (fld ?m M6_i1))" using g' by simp
    from on_kern [OF kill_keeps [OF k this]] show ?thesis by (simp add: e SYS_KILL)
  next
    case SYS_ENDSIG
    have "\<exists>r t. do_endsig cf ?m (kn s) = Ok (r, t) \<and> kernel_ok cf (sys_m ev) t"
      by (rule endsig_keeps [OF k w _ refl]) (use g' SYS_ENDSIG in simp)
    from on_kern [OF this] show ?thesis by (simp add: e SYS_ENDSIG)
  next
    case SYS_TRACE
    then have "trace_fits cf ev (kn s) ?m" using g' by simp
    from trace_keeps [OF k w this] obtain r m' t where "do_trace cf ev ?m s = Ok (r, m', t)" "kernel_ok cf (sys_m ev) (kn t)" by blast
    with ans [of t "(r, m')"] SYS_TRACE show ?thesis by (simp add: e)
  next
    case SYS_SETGROUP
    have "kernel_ok cf (sys_m ev) (snd (do_setgroup ?m (kn s)))" by (rule setgroup_keeps [OF k w]) (use g' SYS_SETGROUP in simp)
    then have "\<exists>r t. Ok (do_setgroup ?m (kn s)) = Ok (r, t) \<and> kernel_ok cf (sys_m ev) t" by (metis prod.collapse)
    from on_kern [OF this] show ?thesis by (simp add: e SYS_SETGROUP)
  next
    case SYS_MEM
    obtain r m' t where "do_mem ?m s = (r, m', t)" by (cases "do_mem ?m s")
    with kn_mem [of ?m s] k ans [of t "(r, m')"] SYS_MEM show ?thesis by (simp add: e)
  qed (use g' same ans [OF k] kn_same in \<open>simp_all add: e del: kernel_ok_put\<close>)
qed

end
