(* ===== verification/Kernel_Clock.thy ===== *)
theory Kernel_Clock
  imports Kernel_Ipc
begin

text \<open>
  The clock task, \<^verbatim>\<open>kernel/clock.c\<close>: time of day, alarms and watchdogs, the synchronous alarm
  task, and the interrupt handler that runs at every tick. Programming the timer chip is left
  out.
\<close>

section \<open>State\<close>

text \<open>A watchdog is \<open>cause_alarm\<close> or a function of the task that set it.\<close>

datatype watchdog = Cause_alarm | Task_function int

record clk =
  ck :: kern
  realtime :: int
  boot_time :: int
  next_alarm :: int
  watch_dog :: "int \<Rightarrow> watchdog option"
  syn_al_alive :: bool
  syn_table :: "int \<Rightarrow> bool"
  pending_ticks :: int
  sched_ticks :: int
  prev_ptr :: "int option"
  lost_ticks :: int

definition LONG_MAX :: int where "LONG_MAX = 2 ^ 31 - 1"

text \<open>A quantum is a tenth of a second.\<close>

definition MILLISEC :: int where "MILLISEC = 100"

definition SCHED_RATE :: "config \<Rightarrow> int" where
  "SCHED_RATE cf = cdiv (MILLISEC * HZ cf) 1000"

definition alarm :: "clk \<Rightarrow> int \<Rightarrow> int" where
  "alarm s p = p_alarm (procs (ck s) p)"

definition set_p_alarm :: "int \<Rightarrow> int \<Rightarrow> clk \<Rightarrow> clk" where
  "set_p_alarm p v s = s\<lparr>ck := upd p (\<lambda>r. r\<lparr>p_alarm := v\<rparr>) (ck s)\<rparr>"

section \<open>Time\<close>

definition get_uptime :: "clk \<Rightarrow> int" where
  "get_uptime s = int32 (realtime s + pending_ticks s)"

definition do_get_time :: "config \<Rightarrow> clk \<Rightarrow> int" where
  "do_get_time cf s = int32 (boot_time s + cdiv (realtime s) (HZ cf))"

definition do_set_time :: "config \<Rightarrow> int \<Rightarrow> clk \<Rightarrow> clk" where
  "do_set_time cf new_time s = s\<lparr>boot_time := int32 (new_time - cdiv (realtime s) (HZ cf))\<rparr>"

text \<open>The start of every round of the clock task.\<close>

definition collect_ticks :: "clk \<Rightarrow> clk" where
  "collect_ticks s = s\<lparr>realtime := int32 (realtime s + pending_ticks s), pending_ticks := 0\<rparr>"

section \<open>Alarms\<close>

definition next_of :: "clk \<Rightarrow> int list \<Rightarrow> int" where
  "next_of s ps = fold (\<lambda>p n. if alarm s p \<noteq> 0 \<and> alarm s p < n then alarm s p else n) ps LONG_MAX"

definition common_setalarm :: "config \<Rightarrow> int \<Rightarrow> int \<Rightarrow> watchdog option \<Rightarrow> clk \<Rightarrow> clk" where
  "common_setalarm cf proc_nr delta_ticks f s =
     (let s = set_p_alarm proc_nr (if delta_ticks = 0 then 0 else int32 (realtime s + delta_ticks)) s;
          s = s\<lparr>watch_dog := (watch_dog s)(proc_nr := f)\<rparr>
      in s\<lparr>next_alarm := next_of s (all_procs cf)\<rparr>)"

definition seconds_left :: "config \<Rightarrow> int \<Rightarrow> clk \<Rightarrow> int" where
  "seconds_left cf proc_nr s =
     (if alarm s proc_nr = 0 then 0 else cdiv (int32 (alarm s proc_nr - realtime s + (HZ cf - 1))) (HZ cf))"

text \<open>The seconds that were left of the old alarm, and the new state.\<close>

definition do_setalarm :: "config \<Rightarrow> int \<Rightarrow> int \<Rightarrow> watchdog option \<Rightarrow> clk \<Rightarrow> int \<times> clk" where
  "do_setalarm cf proc_nr delta_ticks f s =
     (seconds_left cf proc_nr s,
      common_setalarm cf proc_nr delta_ticks (if istaskp (procs (ck s) proc_nr) then f else None) s)"

definition do_setsyn_alrm :: "config \<Rightarrow> int \<Rightarrow> int \<Rightarrow> clk \<Rightarrow> int \<times> clk" where
  "do_setsyn_alrm cf proc_nr delta_ticks s =
     (seconds_left cf proc_nr s, common_setalarm cf proc_nr delta_ticks (Some Cause_alarm) s)"

text \<open>\<open>cause_alarm\<close> for the process \<open>watchdog_proc\<close>; \<open>mess\<close> is the address of its message.\<close>

definition cause_alarm :: "config \<Rightarrow> 32 word \<Rightarrow> int \<Rightarrow> clk \<Rightarrow> clk res" where
  "cause_alarm cf mess watchdog_proc s =
     (let s = s\<lparr>syn_table := (syn_table s)(watchdog_proc := True)\<rparr>
      in if syn_al_alive s then Ok s
         else bind_res (mini_send cf CLOCK SYN_ALRM_TASK mess (ck s)) (\<lambda>(r, n). Ok (s\<lparr>ck := n\<rparr>)))"

text \<open>One alarm that has gone off; \<open>task_fun\<close> runs a function of a task.\<close>

definition fire :: "config \<Rightarrow> 32 word \<Rightarrow> 32 word \<Rightarrow> (int \<Rightarrow> int \<Rightarrow> clk \<Rightarrow> clk res) \<Rightarrow> int \<Rightarrow> clk \<Rightarrow> clk res" where
  "fire cf sys_m mess task_fun p s =
     (case watch_dog s p of
        Some Cause_alarm \<Rightarrow> cause_alarm cf mess p s
      | Some (Task_function f) \<Rightarrow> task_fun f p s
      | None \<Rightarrow> bind_res (cause_sig cf sys_m p (SIGALRM cf) (ck s)) (\<lambda>n. Ok (s\<lparr>ck := n\<rparr>)))"

fun alarm_loop :: "config \<Rightarrow> 32 word \<Rightarrow> 32 word \<Rightarrow> (int \<Rightarrow> int \<Rightarrow> clk \<Rightarrow> clk res) \<Rightarrow> int list \<Rightarrow> clk \<Rightarrow> clk res" where
  "alarm_loop cf sys_m mess task_fun [] s = Ok s"
| "alarm_loop cf sys_m mess task_fun (p # ps) s =
     bind_res
       (if alarm s p \<noteq> 0 \<and> alarm s p \<le> realtime s
        then bind_res (fire cf sys_m mess task_fun p s) (\<lambda>s. Ok (set_p_alarm p 0 s)) else Ok s)
       (\<lambda>s. alarm_loop cf sys_m mess task_fun ps
          (if alarm s p \<noteq> 0 \<and> alarm s p < next_alarm s then s\<lparr>next_alarm := alarm s p\<rparr> else s))"

definition do_clocktick :: "config \<Rightarrow> 32 word \<Rightarrow> 32 word \<Rightarrow> (int \<Rightarrow> int \<Rightarrow> clk \<Rightarrow> clk res) \<Rightarrow> clk \<Rightarrow> clk res" where
  "do_clocktick cf sys_m mess task_fun s =
     bind_res
       (if next_alarm s \<le> realtime s
        then alarm_loop cf sys_m mess task_fun (all_procs cf) (s\<lparr>next_alarm := LONG_MAX\<rparr>) else Ok s)
       (\<lambda>s. let s = s\<lparr>sched_ticks := int32 (sched_ticks s - 1)\<rparr>
            in if sched_ticks s = 0
               then bind_res (if Some (bill_ptr (ck s)) = prev_ptr s then lock_sched cf (ck s) else Ok (ck s))
                 (\<lambda>n. Ok (s\<lparr>ck := n, sched_ticks := SCHED_RATE cf, prev_ptr := Some (bill_ptr n)\<rparr>))
               else Ok s)"

text \<open>One pass of the synchronous alarm task over its table: whether it slept, and the state.\<close>

fun syn_alrm_pass :: "config \<Rightarrow> 32 word \<Rightarrow> int list \<Rightarrow> bool \<Rightarrow> clk \<Rightarrow> (bool \<times> clk) res" where
  "syn_alrm_pass cf mess [] work_done s = Ok (work_done, s)"
| "syn_alrm_pass cf mess (p # ps) work_done s =
     (if syn_table s p
      then let s = s\<lparr>syn_table := (syn_table s)(p := False)\<rparr>;
               n = put_msg SYN_ALRM_TASK mess ((get_msg SYN_ALRM_TASK mess (ck s))\<lparr>m_type := CLOCK_INT\<rparr>) (ck s)
           in bind_res (mini_send cf SYN_ALRM_TASK p mess n)
                (\<lambda>(r, n). syn_alrm_pass cf mess ps False (s\<lparr>ck := n\<rparr>))
      else syn_alrm_pass cf mess ps work_done s)"

text \<open>The synchronous alarm task starts with an empty table. A round ends after a pass that sent
  something, or with the call of \<open>receive\<close>; when that call has returned the task is awake.\<close>

definition syn_alrm_init :: "clk \<Rightarrow> clk" where
  "syn_alrm_init s = s\<lparr>syn_al_alive := True, syn_table := (\<lambda>_. False)\<rparr>"

definition syn_alrm_round :: "config \<Rightarrow> 32 word \<Rightarrow> 32 word \<Rightarrow> clk \<Rightarrow> clk res" where
  "syn_alrm_round cf sys_m mess s =
     bind_res (syn_alrm_pass cf mess (all_procs cf) True s)
       (\<lambda>(work_done, s).
          if work_done
          then let s = s\<lparr>syn_al_alive := False\<rparr>
               in bind_res (mini_rec cf sys_m SYN_ALRM_TASK CLOCK mess (ck s)) (\<lambda>(r, n). Ok (s\<lparr>ck := n\<rparr>))
          else Ok s)"

definition syn_alrm_wake :: "clk \<Rightarrow> clk" where
  "syn_alrm_wake s = s\<lparr>syn_al_alive := True\<rparr>"

section \<open>The clock task\<close>

datatype clock_request = Tick | GET_UPTIME | GET_TIME | SET_TIME | SET_ALARM | SET_SYNC_AL

definition clock_codes :: "(int \<times> clock_request) list" where
  "clock_codes = [(HARD_INT, Tick), (5, GET_UPTIME), (3, GET_TIME), (4, SET_TIME), (1, SET_ALARM), (6, SET_SYNC_AL)]"

text \<open>Code addresses as the message carries them: \<open>watchdog_of\<close> is the function at an address.\<close>

record clock_env =
  mc :: "32 word"
  c_sys_m :: "32 word"
  c_mess :: "32 word"
  task_fun :: "int \<Rightarrow> int \<Rightarrow> clk \<Rightarrow> clk res"
  watchdog_of :: "int \<Rightarrow> watchdog option"

text \<open>The answer is a value in field \<open>m6_l1\<close> of the message.\<close>

definition clock_answer :: "clock_env \<Rightarrow> int \<Rightarrow> clk \<Rightarrow> clk" where
  "clock_answer ce v s =
     (let m = get_msg CLOCK (mc ce) (ck s)
      in s\<lparr>ck := put_msg CLOCK (mc ce) (m\<lparr>m_field := (m_field m)(M6_l1 := v)\<rparr>) (ck s)\<rparr>)"

definition clock_handle :: "config \<Rightarrow> clock_env \<Rightarrow> clk \<Rightarrow> clk res" where
  "clock_handle cf ce s =
     (let m = get_msg CLOCK (mc ce) (ck s)
      in case map_of clock_codes (m_type m) of
        None \<Rightarrow> Panic ''clock task got bad message''
      | Some request \<Rightarrow>
         (case request of
            Tick \<Rightarrow> do_clocktick cf (c_sys_m ce) (c_mess ce) (task_fun ce) s
          | GET_UPTIME \<Rightarrow> Ok (clock_answer ce (realtime s) s)
          | GET_TIME \<Rightarrow> Ok (clock_answer ce (do_get_time cf s) s)
          | SET_TIME \<Rightarrow> Ok (do_set_time cf (m_field m M6_l1) s)
          | SET_ALARM \<Rightarrow>
              (let (v, s) = do_setalarm cf (m_field m M6_i1) (m_field m M6_l1) (watchdog_of ce (m_field m M6_f1)) s
               in Ok (clock_answer ce v s))
          | SET_SYNC_AL \<Rightarrow>
              (let (v, s) = do_setsyn_alrm cf (m_field m M6_i1) (m_field m M6_l1) s
               in Ok (clock_answer ce v s))))"

text \<open>One round, from the message received to the reply sent.\<close>

definition clock_task :: "config \<Rightarrow> clock_env \<Rightarrow> clk \<Rightarrow> clk res" where
  "clock_task cf ce s =
     (let opcode = m_type (get_msg CLOCK (mc ce) (ck s))
      in bind_res (clock_handle cf ce (collect_ticks s))
        (\<lambda>s. let m = (get_msg CLOCK (mc ce) (ck s))\<lparr>m_type := status_code cf OK\<rparr>;
                 n = put_msg CLOCK (mc ce) m (ck s)
             in if opcode = HARD_INT then Ok (s\<lparr>ck := n\<rparr>)
                else bind_res (mini_send cf CLOCK (m_source m) (mc ce) n) (\<lambda>(_, n). Ok (s\<lparr>ck := n\<rparr>))))"

section \<open>The interrupt handler\<close>

definition charge :: "int \<Rightarrow> int \<Rightarrow> kern \<Rightarrow> kern" where
  "charge rp ticks s =
     (let s = upd rp (\<lambda>p. p\<lparr>user_time := int32 (user_time p + ticks)\<rparr>) s
      in if rp \<noteq> bill_ptr s \<and> rp \<noteq> IDLE
         then upd (bill_ptr s) (\<lambda>p. p\<lparr>sys_time := int32 (sys_time p + ticks)\<rparr>) s else s)"

definition clock_handler :: "config \<Rightarrow> clk \<Rightarrow> clk res" where
  "clock_handler cf s =
     (let rp = (if k_reenter (ck s) \<noteq> 0 then HARDWARE else proc_ptr (ck s));
          ticks = int32 (lost_ticks s + 1);
          s = s\<lparr>lost_ticks := 0, ck := charge rp ticks (ck s), pending_ticks := int32 (pending_ticks s + ticks)\<rparr>;
          now = int32 (realtime s + pending_ticks s)
      in bind_res (handle_clock_tick cf (ck s))
        (\<lambda>n. let s = s\<lparr>ck := n\<rparr>
             in if next_alarm s \<le> now \<or> sched_ticks s = 1 \<and> Some (bill_ptr n) = prev_ptr s \<and> q_head n USER_Q \<noteq> None
                then bind_res (interrupt CLOCK n) (\<lambda>n. Ok (s\<lparr>ck := n\<rparr>))
                else let s = s\<lparr>sched_ticks := int32 (sched_ticks s - 1)\<rparr>
                     in Ok (if sched_ticks s = 0
                            then s\<lparr>sched_ticks := SCHED_RATE cf, prev_ptr := Some (bill_ptr n)\<rparr> else s)))"

end
