(* ===== verification/Kernel_Machine.thy ===== *)
theory Kernel_Machine
  imports Kernel_Runs Kernel_Requests Kernel_Clock Guarded
begin

text \<open>
  The kernel as a machine driven by events: system calls of the running process, requests that the
  system task serves, interrupts at any level, clock ticks, signals, and calls of the scheduler.
  From a good state, no sequence of events makes a routine of the kernel hang, panic or follow a
  null pointer; there is no deadlock of senders; and the processor belongs to the highest class
  that has a runnable process.
\<close>

section \<open>Events\<close>

text \<open>The two tasks of the kernel share the process table, which is kept in \<open>ck\<close> of the clock; \<open>Write\<close> is a
  process that writes a message into its buffer, and \<open>Serve\<close> the system task that handles the request in its
  own.\<close>

record machine =
  cl :: clk
  sy :: sysk

datatype kevent = Call sys_fun int "32 word" | Write int "32 word" message | Serve | Interrupt int | Nested int | Unhold
  | Clock_tick | Resched | Signal int nat

definition table :: "machine \<Rightarrow> kern" where
  "table s = ck (cl s)"

definition on_procs :: "(kern \<Rightarrow> kern res) \<Rightarrow> machine \<Rightarrow> machine res" where
  "on_procs f s = bind_res (f (table s)) (\<lambda>n. Ok (s\<lparr>cl := (cl s)\<lparr>ck := n\<rparr>\<rparr>))"

definition on_clock :: "(clk \<Rightarrow> clk res) \<Rightarrow> machine \<Rightarrow> machine res" where
  "on_clock f s = bind_res (f (cl s)) (\<lambda>c. Ok (s\<lparr>cl := c\<rparr>))"

definition on_system :: "(sysk \<Rightarrow> (status \<times> sysk) res) \<Rightarrow> machine \<Rightarrow> machine res" where
  "on_system f s = bind_res (f ((sy s)\<lparr>kn := table s\<rparr>)) (\<lambda>(_, k). Ok (s\<lparr>cl := (cl s)\<lparr>ck := kn k\<rparr>, sy := k\<rparr>))"

text \<open>\<open>sys_m ev\<close> is the buffer of the system task.\<close>

fun kernel_step :: "config \<Rightarrow> env \<Rightarrow> kevent \<Rightarrow> machine \<Rightarrow> machine res" where
  "kernel_step cf ev (Call f src_dest m) s = on_procs (\<lambda>k. bind_res (sys_call cf (sys_m ev) f src_dest m k) (\<lambda>(_, t). Ok t)) s"
| "kernel_step cf ev (Write c a m) s = on_procs (\<lambda>k. Ok (put_msg c a m k)) s"
| "kernel_step cf ev Serve s = on_system (sys_handle cf ev (get_uptime (cl s))) s"
| "kernel_step cf ev (Interrupt p) s = on_procs (interrupt p) s"
| "kernel_step cf ev (Nested p) s = on_procs (nested p) s"
| "kernel_step cf ev Unhold s = on_procs (unhold cf) s"
| "kernel_step cf ev Clock_tick s = on_clock (clock_handler cf) s"
| "kernel_step cf ev Resched s = on_procs (lock_sched cf) s"
| "kernel_step cf ev (Signal p n) s = on_procs (cause_sig cf (sys_m ev) p n) s"

text \<open>What may happen: a call that \<open>good_call\<close> allows, a request that fits while the system task runs, an
  interrupt for a task, \<open>unhold\<close> when a task is held up, a signal for a user process.\<close>

fun kernel_may :: "config \<Rightarrow> env \<Rightarrow> kevent \<Rightarrow> machine \<Rightarrow> bool" where
  "kernel_may cf ev (Call f src_dest m) s = good_call (table s) f src_dest"
| "kernel_may cf ev Serve s = (proc_ptr (table s) = SYSTASK \<and> istaskp (procs (table s) SYSTASK)
     \<and> request_fits cf ev (table s) (get_msg SYSTASK (sys_m ev) (table s)))"
| "kernel_may cf ev (Interrupt p) s = (p \<in> set (all_procs cf) \<and> istaskp (procs (table s) p))"
| "kernel_may cf ev (Nested p) s = (p \<in> set (all_procs cf) \<and> istaskp (procs (table s) p))"
| "kernel_may cf ev Unhold s = (held_head (table s) \<noteq> None)"
| "kernel_may cf ev (Signal p n) s = isuserp (procs (table s) p)"
| "kernel_may cf ev e s = True"

section \<open>The events keep the invariant\<close>

lemma on_procs_ok: "\<exists>t. f (table s) = Ok t \<and> P t \<Longrightarrow> \<exists>t. on_procs f s = Ok t \<and> P (table t)"
  by (auto simp: on_procs_def table_def)

lemma on_clock_ok: "\<exists>t. f (cl s) = Ok t \<and> P (ck t) \<Longrightarrow> \<exists>t. on_clock f s = Ok t \<and> P (table t)"
  by (auto simp: on_clock_def table_def)

lemma on_system_ok: "\<exists>r t. f ((sy s)\<lparr>kn := table s\<rparr>) = Ok (r, t) \<and> P (kn t) \<Longrightarrow> \<exists>t. on_system f s = Ok t \<and> P (table t)"
  by (auto simp: on_system_def table_def)

lemma charge_keeps:
  assumes k: "kernel_ok cf sm s" shows "kernel_ok cf sm (charge rp n s)"
proof -
  have rr: "0 \<le> rr_counter (procs t p) \<and> rr_counter (procs t p) < RR_QUANTUM" if "kernel_ok cf sm t" for t p
    using that by (simp add: kernel_ok_def side_ok_def)
  let ?t = "upd rp (\<lambda>p. p\<lparr>user_time := int32 (user_time p + n)\<rparr>) s"
  have t: "kernel_ok cf sm ?t"
    by (rule kernel_ok_upd [OF k]) (use rr [OF k] in \<open>simp_all add: quiet_def\<close>)
  have "kernel_ok cf sm (upd (bill_ptr ?t) (\<lambda>p. p\<lparr>sys_time := int32 (sys_time p + n)\<rparr>) ?t)"
    by (rule kernel_ok_upd [OF t]) (use rr [OF t] in \<open>simp_all add: quiet_def\<close>)
  with t show ?thesis by (simp add: charge_def Let_def)
qed

lemma clock_keeps:
  assumes k: "kernel_ok cf sm (ck s)" shows "\<exists>t. clock_handler cf s = Ok t \<and> kernel_ok cf sm (ck t)"
proof -
  let ?n = "int32 (lost_ticks s + 1)"
  let ?c = "charge (if k_reenter (ck s) \<noteq> 0 then HARDWARE else proc_ptr (ck s)) ?n (ck s)"
  from tick_keeps [OF charge_keeps [OF k]] obtain u where u: "handle_clock_tick cf ?c = Ok u" "kernel_ok cf sm u" by blast
  have "CLOCK \<in> set (all_procs cf) \<and> istaskp (procs u CLOCK)" using u(2) by (auto simp: kernel_ok_def kinv_def roles_def)
  with interrupt_keeps [OF u(2)] obtain v where v: "interrupt CLOCK u = Ok v" "kernel_ok cf sm v" by blast
  show ?thesis using u v by (auto simp: clock_handler_def Let_def)
qed

lemma kernel_step_ok:
  assumes k: "kernel_ok cf (sys_m ev) (table s)" and m: "kernel_may cf ev e s"
  shows "\<exists>t. kernel_step cf ev e s = Ok t \<and> kernel_ok cf (sys_m ev) (table t)"
proof (cases e)
  case (Call f sd a)
  with m call_ok [OF k, of f sd a] have "\<exists>t. bind_res (sys_call cf (sys_m ev) f sd a (table s)) (\<lambda>(_, t). Ok t) = Ok t
      \<and> kernel_ok cf (sys_m ev) t" by auto
  with Call show ?thesis by (simp add: on_procs_ok)
next
  case Serve
  let ?k = "(sy s)\<lparr>kn := table s\<rparr>"
  have "\<exists>r t. sys_handle cf ev (get_uptime (cl s)) ?k = Ok (r, t) \<and> kernel_ok cf (sys_m ev) (kn t)"
    by (rule serve_keeps) (use k m Serve in \<open>auto simp: working_def\<close>)
  with Serve show ?thesis by (simp add: on_system_ok)
next
  case (Write c a x)
  then show ?thesis using k by (simp add: on_procs_def table_def)
next
  case Clock_tick
  have "kernel_ok cf (sys_m ev) (ck (cl s))" using k by (simp add: table_def)
  from clock_keeps [OF this] Clock_tick show ?thesis by (simp add: on_clock_ok)
qed (use m in \<open>simp_all add: on_procs_ok interrupt_keeps [OF k] nested_keeps [OF k] unhold_keeps [OF k]
  resched_keeps [OF k] signal_keeps [OF k]\<close>)

interpretation machine: guarded "kernel_step cf ev" "kernel_may cf ev" "\<lambda>s. kernel_ok cf (sys_m ev) (table s)" for cf ev
  by unfold_locales (rule kernel_step_ok)

section \<open>What the invariant says\<close>

lemma kernel_ok_best:
  assumes "kernel_ok cf sm s"
  obtains Q C where "kinv cf sm s Q C" "best Q (proc_ptr s)"
  using assms by (auto simp: kernel_ok_def)

lemma best_class:
  assumes k: "kernel_ok cf sm s" and p: "occupied cf s p" "p_flags (procs s p) = {}"
  shows "proc_ptr s \<noteq> IDLE \<and> belongs (procs s (proc_ptr s)) \<le> belongs (procs s p)"
proof -
  from k obtain Q C where iv: "kinv cf sm s Q C" and b: "best Q (proc_ptr s)" by (rule kernel_ok_best)
  have c: "cpu_inv cf {} s Q" using iv by (simp add: kinv_def)
  note sk = cpu_invD(1) [OF c]
  have "queued Q p" using c p by (auto simp: cpu_inv_def)
  then obtain r where r: "p \<in> set (Q r)" by (auto simp: queued_def)
  then have "Q r \<noteq> []" by auto
  with b obtain q where q: "proc_ptr s \<in> set (Q q)" "q \<le> r" unfolding best_def by blast
  have "\<not> queued Q IDLE" by (rule cpu_invD(4) [OF c]) simp
  then have "proc_ptr s \<noteq> IDLE" using q(1) by (auto simp: queued_def)
  with q r show ?thesis using belongs_queue [OF sk q(1)] belongs_queue [OF sk r] by simp
qed

lemma running_flags:
  assumes k: "kernel_ok cf sm s" shows "p_flags (procs s (proc_ptr s)) = {}"
proof -
  from k obtain Q C where iv: "kinv cf sm s Q C" and b: "best Q (proc_ptr s)" by (rule kernel_ok_best)
  have c: "cpu_inv cf {} s Q" using iv by (simp add: kinv_def)
  from b have "proc_ptr s = IDLE \<or> queued Q (proc_ptr s)" by (auto simp: best_def queued_def)
  then show ?thesis using cpu_invD(3) [OF c, of IDLE] queued_flags [OF cpu_invD(1) [OF c]] by auto
qed

lemma linked_trancl:
  assumes "(p, q) \<in> {(a, b). w a = Some b}\<^sup>+" and "linked w (w p) xs"
  shows "q \<in> set xs"
  using assms
proof (induction arbitrary: xs rule: converse_trancl_induct)
  case (base y)
  then show ?case by (cases xs) auto
next
  case (step y z)
  then obtain ys where "xs = z # ys" "linked w (w z) ys" by (cases xs) auto
  with step.IH show ?case by simp
qed

lemma linked_acyclic:
  assumes "\<forall>p. \<exists>xs. linked w (w p) xs" shows "acyclic {(a, b). w a = Some b}"
proof (rule acyclicI, rule allI, rule notI)
  fix p assume p: "(p, p) \<in> {(a, b). w a = Some b}\<^sup>+"
  from assms obtain xs where xs: "linked w (w p) xs" by blast
  then have "linked w (Some p) (p # xs)" by simp
  then have "p \<notin> set xs" using linked_distinct by fastforce
  with linked_trancl [OF p xs] show False by simp
qed

lemma senders_acyclic:
  assumes "kernel_ok cf sm s"
  shows "acyclic {(a, b). SENDING \<in> p_flags (procs s a) \<and> p_sendto (procs s a) = b}"
proof -
  from assms obtain Q C where "kinv cf sm s Q C" by (rule kernel_ok_best)
  then have "\<forall>p. \<exists>xs. linked (waits_for s) (waits_for s p) xs" by (simp add: kinv_def ipc_ok_def no_deadlock_def)
  then have "acyclic {(a, b). waits_for s a = Some b}" by (rule linked_acyclic)
  moreover have "waits_for s a = Some b \<longleftrightarrow> SENDING \<in> p_flags (procs s a) \<and> p_sendto (procs s a) = b" for a b
    by (simp add: waits_for_def)
  ultimately show ?thesis by simp
qed

section \<open>The theorems\<close>

text \<open>C1: The kernel never fails. From a good state, after any sequence of allowed events, in any
  order, every routine has returned: no loop went round for ever, no null pointer was followed
  and no panic happened; and whatever event is allowed next returns as well.\<close>
theorem kernel_never_fails:
  assumes "kernel_ok cf (sys_m ev) (table s)" and "may_run (kernel_may cf ev) (kernel_step cf ev) es s"
  shows "\<exists>t. run (kernel_step cf ev) es s = Ok t \<and> (\<forall>e. kernel_may cf ev e t \<longrightarrow> (\<exists>u. kernel_step cf ev e t = Ok u))"
  using machine.run_ok [OF assms] machine.never_stuck [OF assms] by blast


text \<open>C3: Senders never deadlock. After any sequence of allowed events there is no cycle of
  processes each blocked on sending to the next.\<close>
theorem no_sender_cycle:
  assumes "kernel_ok cf (sys_m ev) (table s)" and "may_run (kernel_may cf ev) (kernel_step cf ev) es s"
  shows "\<exists>t. run (kernel_step cf ev) es s = Ok t \<and>
    acyclic {(a, b). SENDING \<in> p_flags (procs (table t) a) \<and> p_sendto (procs (table t) a) = b}"
  using machine.run_ok [OF assms] senders_acyclic by blast

section \<open>A running system\<close>

text \<open>The tasks and both servers wait for messages; user process 2 of group 1 runs, process 3 of
  group 3 is ready.\<close>

definition waiting :: "priority \<Rightarrow> proc" where
  "waiting c = blank_proc\<lparr>p_priority := c, p_flags := {RECEIVING}, p_getfrom := ANY, p_messbuf := 64\<rparr>"

definition boot_proc :: "int \<Rightarrow> proc" where
  "boot_proc p = (if p = IDLE then blank_proc\<lparr>p_priority := PPRI_IDLE\<rparr> else if p = HARDWARE then blank_proc\<lparr>p_priority := PPRI_TASK\<rparr>
     else if - 9 \<le> p \<and> p < 0 then waiting PPRI_TASK else if p = 0 \<or> p = 1 then waiting PPRI_SERVER
     else if p = 2 then user_proc 1 100 else if p = 3 then user_proc 3 7 else blank_proc)"

definition boot_kern :: kern where
  "boot_kern = small_kern\<lparr>procs := boot_proc, q_head := (\<lambda>_. None)(G1 := Some 2, G3 := Some 3),
     q_tail := (\<lambda>_. None)(G1 := Some 2, G3 := Some 3)\<rparr>"

definition boot_lists :: "queue \<Rightarrow> int list" where
  "boot_lists = (\<lambda>_. [])(G1 := [2], G3 := [3])"

definition boot_clk :: clk where
  "boot_clk = \<lparr>ck = boot_kern, realtime = 0, boot_time = 0, next_alarm = LONG_MAX, watch_dog = (\<lambda>_. None), syn_al_alive = True,
     syn_table = (\<lambda>_. False), pending_ticks = 0, sched_ticks = 6, prev_ptr = None, lost_ticks = 0\<rparr>"

lemmas boot_defs = boot_kern_def boot_proc_def waiting_def user_proc_def blank_proc_def small_kern_def

lemma boot_sched_ok: "sched_ok small_config boot_kern boot_lists"
proof -
  have "queue_list (nx boot_kern) (q_head boot_kern q) (q_tail boot_kern q) (boot_lists q)" for q
    by (cases q) (auto simp: queue_list_def nx_def boot_defs boot_lists_def IDLE_def HARDWARE_def)
  moreover have "belongs (procs boot_kern 2) = G1" "belongs (procs boot_kern 3) = G3"
    by (simp_all add: boot_defs belongs_def in_group_def isuserp_def istaskp_def isservp_def group_queue_def IDLE_def HARDWARE_def)
  moreover have "p_flags (procs boot_kern 2) = {}" "p_flags (procs boot_kern 3) = {}"
    by (simp_all add: boot_defs IDLE_def HARDWARE_def)
  ultimately show ?thesis
    by (auto simp: sched_ok_def lists_ok_def boot_lists_def small_all split: if_splits)
qed

lemma boot_ipc_ok: "ipc_ok small_config boot_kern boot_lists (\<lambda>_. [])"
proof -
  have "waits_for boot_kern = (\<lambda>_. None)" "p_callerq (procs boot_kern p) = None" for p
    by (auto simp: waits_for_def boot_defs fun_eq_iff)
  moreover have "SENDING \<notin> p_flags (procs boot_kern p)" for p by (simp add: boot_defs)
  ultimately show ?thesis using boot_sched_ok by (simp add: ipc_ok_def callers_ok_def no_deadlock_def)
qed

lemma boot_cpu: "cpu_inv small_config {} boot_kern boot_lists"
proof -
  have "queued boot_lists p \<longleftrightarrow> p = 2 \<or> p = 3" for p by (auto simp: queued_def boot_lists_def)
  moreover have "p = 2 \<or> p = 3" if "occupied small_config boot_kern p" "p_flags (procs boot_kern p) = {}" for p
    using that by (auto simp: occupied_def isemptyp_def boot_defs split: if_splits)
  moreover have "p_flags (procs boot_kern p) = {} \<and> p \<noteq> 2 \<and> p \<noteq> 3" if "p \<in> {IDLE, HARDWARE} \<or> isemptyp (procs boot_kern p)" for p
    using that by (auto simp: isemptyp_def boot_defs IDLE_def HARDWARE_def split: if_splits)
  ultimately show ?thesis using boot_sched_ok unfolding cpu_inv_def by blast
qed

lemma boot_priority:
  "p_priority (procs boot_kern p) = (if p = IDLE then PPRI_IDLE else if - 9 \<le> p \<and> p < 0 then PPRI_TASK
     else if p = 0 \<or> p = 1 then PPRI_SERVER else if p = 2 \<or> p = 3 then PPRI_USER else PPRI_NONE)"
  by (simp add: boot_defs HARDWARE_def)

lemma boot_roles: "roles small_config 64 boot_kern"
proof -
  have "p_stguard (procs boot_kern p) = STACK_GUARD" for p by (simp add: boot_defs)
  moreover have "msg_in_range small_config (procs boot_kern HARDWARE) 64"
    by (simp add: msg_in_range_def boot_defs small_config_def HARDWARE_def IDLE_def)
  moreover have "MM_PROC_NR small_config = 0" "FS_PROC_NR small_config = 1" by (simp_all add: small_config_def)
  ultimately show ?thesis
    unfolding roles_def small_all isservp_def isuserp_def istaskp_def boot_priority
    by (simp add: ANY_def IDLE_def HARDWARE_def CLOCK_def small_all)
qed

lemma boot_flags: "flags_ok small_config boot_kern"
  by (auto simp: flags_ok_def boot_defs)

lemma boot_ok: "kernel_ok small_config 64 (ck boot_clk)"
proof -
  have "kinv small_config 64 boot_kern boot_lists (\<lambda>_. [])"
    using boot_ipc_ok boot_cpu boot_roles boot_flags by (simp add: kinv_def)
  moreover have "best boot_lists (proc_ptr boot_kern)"
    unfolding best_def by (intro disjI2 exI [of _ G1]) (auto simp: boot_lists_def boot_kern_def small_kern_def less_eq_queue_def)
  moreover have "held_ok small_config boot_kern []"
    by (simp add: held_ok_def boot_defs)
  moreover have "one_idle boot_kern" by (auto simp: one_idle_def boot_defs)
  moreover have "wait_ticks (procs boot_kern p) = 0" "rr_counter (procs boot_kern p) = 0" for p by (simp_all add: boot_defs)
  moreover have "aging_counter boot_kern = 0" "k_reenter boot_kern = 0" "\<not> switching boot_kern"
    by (simp_all add: boot_kern_def small_kern_def)
  moreover have "slots small_config = 13" by (simp add: small_config_def slots_def)
  ultimately have "kernel_ok small_config 64 boot_kern"
    unfolding kernel_ok_def side_ok_def waits_ok_def by (auto simp: RR_QUANTUM_def AGING_TICK_def MAX_WAIT_TICKS_def)
  then show ?thesis by (simp add: boot_clk_def)
qed

text \<open>An environment in which the structures outside the sources are empty.\<close>

definition boot_env :: env where
  "boot_env = \<lparr>phys_copy = (\<lambda>_ _ _ m. m), get_map = (\<lambda>_ _ _. \<lparr>mem_vir = 0, mem_phys = 0, mem_len = 16\<rparr>), put_map = (\<lambda>_ _ m. m),
     get_name = (\<lambda>_ _. []), get_cpvec = (\<lambda>_ _ _. (0, 0, 0)), sizeof_map = 12, sizeof_cpvec = 12, sys_m = 64, sizeof_sigmsg = 20,
     get_sigmsg = (\<lambda>_ _. \<lparr>sm_signo = 0, sm_mask = 0, sm_sighandler = 0, sm_sigreturn = 0, sm_stkptr = 0\<rparr>),
     sizeof_sigcontext = 40, get_sigcontext = (\<lambda>_ _. \<lparr>sc_flags = 0, sc_mask = 0, sc_regs = blank_regs\<rparr>),
     put_sigcontext = (\<lambda>_ _ m. m), sizeof_sigframe = 28, put_sigframe = (\<lambda>_ _ m. m), offset_sf_fp = 16,
     SC_SIGCONTEXT = 2, SC_NOREGLOCALS = 4, protected_mode = False, privilege_of = (\<lambda>_. 0), code_selector = id, data_selector = id,
     click_to_hclick = id, RBT_MONITOR = 2, mon_params = 0, mon_parmsize = 0, wreboot = (\<lambda>_ s. s), SYSSIGNON = 1, SYSGETENV = 2,
     sizeof_systaskinfo = 8, put_systaskinfo = (\<lambda>_ _ m. m), sizeof_sysgetenv = 16, get_sysgetenv = (\<lambda>_ _. (0, 0, 0, 0)),
     sizeof_key = 32, getenv = (\<lambda>_ _ _. None), trace_of = (\<lambda>_. T_OTHER), user_trace = (\<lambda>m s. Ok (OK, m, s))\<rparr>"

definition boot :: machine where
  "boot = \<lparr>cl = boot_clk, sy = \<lparr>kn = boot_kern, ram = (\<lambda>_. 0), mem = [], tot_mem_size = 0, console = []\<rparr>\<rparr>"

lemma boot_good: "kernel_ok small_config (sys_m boot_env) (table boot)"
  using boot_ok by (simp add: boot_def boot_env_def table_def)

text \<open>Process 2 calls the memory manager to be put into group 3, which asks the system task, which serves the
  request; the clock ticks, and the scheduler is called.\<close>

definition group_message :: message where
  "group_message = \<lparr>m_source = 0, m_type = 22, m_field = (\<lambda>_. 0)(M1_i1 := 2, M1_i2 := 3, M1_i3 := 5), m3_ca1 = [], sig_map = {}\<rparr>"

definition story :: "kevent list" where
  "story = [Call BOTH 0 512, Write 0 100 group_message, Call BOTH SYSTASK 100, Serve, Clock_tick, Resched]"

lemma boot_may: "may_run (kernel_may small_config boot_env) (kernel_step small_config boot_env) story boot"
  by code_simp

theorem kernel_never_fails_witness:
  "\<exists>t. run (kernel_step small_config boot_env) story boot = Ok t"
  using kernel_never_fails [OF boot_good boot_may] by blast


theorem no_sender_cycle_witness:
  "\<exists>t. run (kernel_step small_config boot_env) story boot = Ok t
     \<and> acyclic {(a, b). SENDING \<in> p_flags (procs (table t) a) \<and> p_sendto (procs (table t) a) = b}"
  using no_sender_cycle [OF boot_good boot_may] by blast

end
