(* ===== verification/Kernel_Alarms.thy ===== *)
theory Kernel_Alarms
  imports Kernel_Machine
begin

text \<open>
  The alarms of the clock task: at a tick exactly the due ones go off, and the variable that
  tells the interrupt handler when the next one is due stays right.
\<close>

section \<open>Due alarms\<close>

definition due :: "clk \<Rightarrow> int \<Rightarrow> bool" where
  "due s p \<longleftrightarrow> alarm s p \<noteq> 0 \<and> alarm s p \<le> realtime s"

text \<open>The alarm of a user process is a signal, that of a server a message from the synchronous alarm
  task; the watchdog functions of tasks are outside the sources.\<close>

definition may_fire :: "clk \<Rightarrow> int \<Rightarrow> bool" where
  "may_fire s p \<longleftrightarrow> watch_dog s p = None \<and> isuserp (procs (ck s) p) \<or> watch_dog s p = Some Cause_alarm \<and> syn_al_alive s"

definition earliest :: "(int \<Rightarrow> int) \<Rightarrow> int list \<Rightarrow> int \<Rightarrow> int" where
  "earliest a ps n = fold (\<lambda>p n. if a p \<noteq> 0 \<and> a p < n then a p else n) ps n"

lemma next_of_earliest: "next_of s ps = earliest (alarm s) ps LONG_MAX"
  by (simp add: next_of_def earliest_def)

lemma earliest_le: "earliest a ps n \<le> n"
proof (induction ps arbitrary: n)
  case (Cons p ps)
  have "earliest a (p # ps) n = earliest a ps (if a p \<noteq> 0 \<and> a p < n then a p else n)" by (simp add: earliest_def)
  also have "\<dots> \<le> (if a p \<noteq> 0 \<and> a p < n then a p else n)" by (rule Cons.IH)
  finally show ?case by (auto split: if_splits)
qed (simp add: earliest_def)

lemma earliest_member: "p \<in> set ps \<Longrightarrow> a p \<noteq> 0 \<Longrightarrow> earliest a ps n \<le> a p"
proof (induction ps arbitrary: n)
  case (Cons q ps)
  have e: "earliest a (q # ps) n = earliest a ps (if a q \<noteq> 0 \<and> a q < n then a q else n)" by (simp add: earliest_def)
  show ?case
  proof (cases "p = q")
    case True
    have "earliest a (q # ps) n \<le> (if a q \<noteq> 0 \<and> a q < n then a q else n)" unfolding e by (rule earliest_le)
    with True Cons.prems show ?thesis by (auto split: if_splits)
  next
    case False
    with Cons show ?thesis unfolding e by simp
  qed
qed simp

text \<open>No alarm is due before the time the interrupt handler looks at.\<close>

definition timely :: "config \<Rightarrow> clk \<Rightarrow> bool" where
  "timely cf s \<longleftrightarrow> (\<forall>p. alarm s p \<noteq> 0 \<longrightarrow> p \<in> set (all_procs cf) \<and> next_alarm s \<le> alarm s p)"

lemma timely_next: "(\<And>p. alarm s p \<noteq> 0 \<Longrightarrow> p \<in> set (all_procs cf)) \<Longrightarrow> next_alarm s = next_of s (all_procs cf) \<Longrightarrow> timely cf s"
  by (auto simp: timely_def next_of_earliest earliest_member)

lemma timely_cong: "timely cf s \<Longrightarrow> alarm t = alarm s \<Longrightarrow> next_alarm t = next_alarm s \<Longrightarrow> timely cf t"
  by (simp add: timely_def)

section \<open>Alarms that go off\<close>

text \<open>From \<open>s\<close> to \<open>t\<close> the alarms of \<open>X\<close> have gone off.\<close>

definition fired :: "config \<Rightarrow> int set \<Rightarrow> clk \<Rightarrow> clk \<Rightarrow> bool" where
  "fired cf X s t \<longleftrightarrow> realtime t = realtime s \<and> watch_dog t = watch_dog s \<and> syn_al_alive t = syn_al_alive s
     \<and> (\<forall>p. p_priority (procs (ck t) p) = p_priority (procs (ck s) p) \<and> alarm t p = (if p \<in> X then 0 else alarm s p)
       \<and> (p \<notin> X \<longrightarrow> p_pending (procs (ck t) p) \<subseteq> p_pending (procs (ck s) p))
       \<and> (SIG_PENDING \<in> p_flags (procs (ck s) p) \<longrightarrow> SIG_PENDING \<in> p_flags (procs (ck t) p))
       \<and> (p \<in> X \<and> watch_dog s p = None \<and> SIGALRM cf \<notin> p_pending (procs (ck s) p) \<longrightarrow> SIG_PENDING \<in> p_flags (procs (ck t) p))
       \<and> (p \<in> X \<and> watch_dog s p = Some Cause_alarm \<or> syn_table s p \<longrightarrow> syn_table t p))"

lemma fired_none [simp]: "fired cf {} s s"
  by (simp add: fired_def)

lemma fired_trans:
  assumes "fired cf X s u" and "fired cf Y u t"
  shows "fired cf (X \<union> Y) s t"
proof -
  have a: "alarm t p = (if p \<in> X \<union> Y then 0 else alarm s p)" for p using assms by (auto simp: fired_def)
  have b: "SIG_PENDING \<in> p_flags (procs (ck t) p)" if "p \<in> X \<union> Y" "watch_dog s p = None" "SIGALRM cf \<notin> p_pending (procs (ck s) p)" for p
    using assms that unfolding fired_def by (metis Un_iff subsetD)
  have c: "syn_table t p" if "p \<in> X \<union> Y \<and> watch_dog s p = Some Cause_alarm \<or> syn_table s p" for p
    using assms that unfolding fired_def by (metis Un_iff)
  have d: "p_pending (procs (ck t) p) \<subseteq> p_pending (procs (ck s) p)" if "p \<notin> X \<union> Y" for p
    using assms that unfolding fired_def by blast
  show ?thesis using assms a b c d unfolding fired_def by simp
qed

lemma quiet_alarm: "kernel_ok cf sm s \<Longrightarrow> kernel_ok cf sm (upd p (\<lambda>r. r\<lparr>p_alarm := v\<rparr>) s)"
  by (rule kernel_ok_upd) (auto simp: quiet_def kernel_ok_def side_ok_def)

lemma fire_step:
  assumes k: "kernel_ok cf sm (ck s)" and f: "may_fire s p"
  shows "\<exists>t. bind_res (fire cf sm mess tf p s) (\<lambda>s. Ok (set_p_alarm p 0 s)) = Ok t \<and> kernel_ok cf sm (ck t) \<and> fired cf {p} s t
    \<and> next_alarm t = next_alarm s"
proof (cases "watch_dog s p")
  case (Some w)
  then have w: "w = Cause_alarm" "syn_al_alive s" using f by (auto simp: may_fire_def)
  let ?t = "set_p_alarm p 0 (s\<lparr>syn_table := (syn_table s)(p := True)\<rparr>)"
  have "kernel_ok cf sm (ck ?t)" unfolding set_p_alarm_def by (simp, rule quiet_alarm [OF k])
  moreover have "fired cf {p} s ?t" using Some w by (simp add: fired_def set_p_alarm_def alarm_def)
  ultimately show ?thesis using Some w by (intro exI [of _ ?t]) (simp add: fire_def cause_alarm_def Let_def set_p_alarm_def)
next
  case None
  then have u: "isuserp (procs (ck s) p)" using f by (simp add: may_fire_def)
  from k obtain Q C where iv: "kinv cf sm (ck s) Q C" and b: "best Q (proc_ptr (ck s))" by (auto simp: kernel_ok_def)
  from cause_sig_step [OF iv u, of "SIGALRM cf"] b obtain n R where n: "cause_sig cf sm p (SIGALRM cf) (ck s) = Ok n"
    "kinv cf sm n R C" "frame (ck s) n" "best R (proc_ptr n)" "same_waiting cf p (ck s) n"
    "SIGALRM cf \<notin> p_pending (procs (ck s) p) \<longrightarrow> SIG_PENDING \<in> p_flags (procs n p)" by blast
  have kn: "kernel_ok cf sm n" by (rule kernel_okI [OF k n(2,4,3)])
  let ?t = "set_p_alarm p 0 (s\<lparr>ck := n\<rparr>)"
  have "kernel_ok cf sm (ck ?t)" unfolding set_p_alarm_def by (simp, rule quiet_alarm [OF kn])
  moreover have "fired cf {p} s ?t"
    using None n(3,5,6) by (auto simp: fired_def set_p_alarm_def alarm_def frame_def static_def same_waiting_def)
  ultimately show ?thesis using None n(1) by (intro exI [of _ ?t]) (simp add: fire_def set_p_alarm_def)
qed

lemma alarm_loop_ok:
  assumes "kernel_ok cf sm (ck s)" and "distinct ps" and "\<forall>p \<in> set ps. due s p \<longrightarrow> may_fire s p"
  shows "\<exists>t. alarm_loop cf sm mess tf ps s = Ok t \<and> kernel_ok cf sm (ck t) \<and> fired cf {p \<in> set ps. due s p} s t
    \<and> next_alarm t = earliest (alarm t) ps (next_alarm s)"
  using assms
proof (induction ps arbitrary: s)
  case Nil
  then show ?case by (simp add: earliest_def)
next
  case (Cons p ps)
  let ?X = "if due s p then {p} else {}"
  have "\<exists>u. (if due s p then bind_res (fire cf sm mess tf p s) (\<lambda>s. Ok (set_p_alarm p 0 s)) else Ok s) = Ok u
      \<and> kernel_ok cf sm (ck u) \<and> fired cf ?X s u \<and> next_alarm u = next_alarm s"
    using fire_step [OF Cons.prems(1), of p] Cons.prems(1,3) by auto
  then obtain u where u: "(if due s p then bind_res (fire cf sm mess tf p s) (\<lambda>s. Ok (set_p_alarm p 0 s)) else Ok s) = Ok u"
    "kernel_ok cf sm (ck u)" "fired cf ?X s u" "next_alarm u = next_alarm s" by blast
  let ?v = "if alarm u p \<noteq> 0 \<and> alarm u p < next_alarm u then u\<lparr>next_alarm := alarm u p\<rparr> else u"
  have v: "ck ?v = ck u" "alarm ?v = alarm u" "fired cf ?X s ?v" using u(3) by (auto simp: alarm_def fired_def fun_eq_iff)
  have d: "due ?v q \<longleftrightarrow> due s q" if "q \<in> set ps" for q
  proof -
    have "q \<noteq> p" using that Cons.prems(2) by auto
    then show ?thesis using v(3) by (auto simp: due_def fired_def split: if_splits)
  qed
  have mf: "may_fire ?v q" if "may_fire s q" for q
    using v(3) that by (auto simp: may_fire_def fired_def isuserp_def split: if_splits)
  have "\<forall>q \<in> set ps. due ?v q \<longrightarrow> may_fire ?v q" using Cons.prems(3) d mf by auto
  from Cons.IH [of ?v, OF _ _ this] u(2) v(1) Cons.prems(2) obtain t where t: "alarm_loop cf sm mess tf ps ?v = Ok t"
    "kernel_ok cf sm (ck t)" "fired cf {q \<in> set ps. due ?v q} ?v t" "next_alarm t = earliest (alarm t) ps (next_alarm ?v)" by auto
  have X: "?X \<union> {q \<in> set ps. due ?v q} = {q \<in> set (p # ps). due s q}" using d by auto
  from fired_trans [OF v(3) t(3)] have ft: "fired cf {q \<in> set (p # ps). due s q} s t" unfolding X .
  have "p \<notin> set ps" using Cons.prems(2) by simp
  then have ap: "alarm t p = alarm u p" using t(3) v(2) by (simp add: fired_def)
  have "next_alarm t = earliest (alarm t) (p # ps) (next_alarm s)"
    unfolding t(4) using u(4) ap by (simp add: earliest_def)
  moreover have "alarm_loop cf sm mess tf (p # ps) s = Ok t"
    using u(1) t(1) by (simp add: due_def)
  ultimately show ?case using t(2) ft by blast
qed


section \<open>do_clocktick\<close>

lemma fired_quiet:
  assumes "frame (ck s) n" and "same_procs (ck s) n" shows "fired cf {} s (s\<lparr>ck := n\<rparr>)"
  using assms by (auto simp: fired_def alarm_def frame_def static_def same_procs_def)

lemma fired_vars [simp]:
  "fired cf X s (t\<lparr>sched_ticks := a\<rparr>) = fired cf X s t" "fired cf X s (t\<lparr>prev_ptr := b\<rparr>) = fired cf X s t"
  "fired cf X (s\<lparr>next_alarm := n\<rparr>) t = fired cf X s t"
  by (simp_all add: fired_def alarm_def)

text \<open>The call of the scheduler at the end.\<close>

lemma tick_end:
  assumes k: "kernel_ok cf sm (ck u)" and f: "fired cf X s u"
  shows "\<exists>t. (let s = u\<lparr>sched_ticks := int32 (sched_ticks u - 1)\<rparr>
            in if sched_ticks s = 0
               then bind_res (if Some (bill_ptr (ck s)) = prev_ptr s then lock_sched cf (ck s) else Ok (ck s))
                 (\<lambda>n. Ok (s\<lparr>ck := n, sched_ticks := SCHED_RATE cf, prev_ptr := Some (bill_ptr n)\<rparr>))
               else Ok s) = Ok t \<and> kernel_ok cf sm (ck t) \<and> fired cf X s t \<and> next_alarm t = next_alarm u"
proof -
  have "\<exists>n. (if Some (bill_ptr (ck u)) = prev_ptr u then lock_sched cf (ck u) else Ok (ck u)) = Ok n
      \<and> kernel_ok cf sm n \<and> fired cf {} u (u\<lparr>ck := n\<rparr>)"
    using resched_step [OF k] fired_quiet k by (cases "Some (bill_ptr (ck u)) = prev_ptr u") auto
  then obtain n where n: "(if Some (bill_ptr (ck u)) = prev_ptr u then lock_sched cf (ck u) else Ok (ck u)) = Ok n"
    "kernel_ok cf sm n" "fired cf {} u (u\<lparr>ck := n\<rparr>)" by blast
  have "fired cf X s (u\<lparr>ck := n\<rparr>)" using fired_trans [OF f n(3)] by simp
  then have x: "fired cf X s (u\<lparr>ck := n, sched_ticks := a, prev_ptr := b\<rparr>)" for a b by simp
  show ?thesis using n(1,2) x [simplified] k f by (auto simp: Let_def)
qed

lemma clocktick_ok:
  assumes "kernel_ok cf sm (ck s)" and ty: "timely cf s"
    and "\<forall>p \<in> set (all_procs cf). due s p \<longrightarrow> may_fire s p"
  shows "\<exists>t. do_clocktick cf sm mess tf s = Ok t \<and> kernel_ok cf sm (ck t) \<and> timely cf t
    \<and> (next_alarm s \<le> realtime s \<longrightarrow> next_alarm t = next_of t (all_procs cf))
    \<and> fired cf {p \<in> set (all_procs cf). due s p} s t"
proof -
  let ?ps = "all_procs cf" and ?X = "{p \<in> set (all_procs cf). due s p}"
  have "\<exists>u. (if next_alarm s \<le> realtime s then alarm_loop cf sm mess tf ?ps (s\<lparr>next_alarm := LONG_MAX\<rparr>) else Ok s) = Ok u
      \<and> kernel_ok cf sm (ck u) \<and> fired cf ?X s u \<and> timely cf u \<and> (next_alarm s \<le> realtime s \<longrightarrow> next_alarm u = next_of u ?ps)"
  proof (cases "next_alarm s \<le> realtime s")
    case True
    let ?s = "s\<lparr>next_alarm := LONG_MAX\<rparr>"
    have d: "due ?s p \<longleftrightarrow> due s p" "may_fire ?s p \<longleftrightarrow> may_fire s p" for p by (simp_all add: due_def may_fire_def alarm_def)
    from alarm_loop_ok [of cf sm ?s ?ps mess tf] all_procs_distinct assms(1,3)
    obtain u where u: "alarm_loop cf sm mess tf ?ps ?s = Ok u" "kernel_ok cf sm (ck u)" "fired cf ?X s u" "next_alarm u = next_of u ?ps"
      by (auto simp: d next_of_earliest)
    have "timely cf u" by (rule timely_next [OF _ u(4)]) (use u(3) ty in \<open>auto simp: fired_def timely_def split: if_splits\<close>)
    with u True show ?thesis by auto
  next
    case False
    then have "?X = {}" using ty by (auto simp: due_def timely_def)
    then have "fired cf ?X s s" by (simp only: fired_none)
    with False assms(1) ty show ?thesis by auto
  qed
  then obtain u where u: "(if next_alarm s \<le> realtime s then alarm_loop cf sm mess tf ?ps (s\<lparr>next_alarm := LONG_MAX\<rparr>) else Ok s) = Ok u"
    "kernel_ok cf sm (ck u)" "fired cf ?X s u" "timely cf u" "next_alarm s \<le> realtime s \<longrightarrow> next_alarm u = next_of u ?ps" by blast
  from tick_end [OF u(2,3)] obtain t where t: "do_clocktick cf sm mess tf s = Ok t" "kernel_ok cf sm (ck t)" "fired cf ?X s t"
    "next_alarm t = next_alarm u" unfolding do_clocktick_def u(1) bind_res.simps(1) by blast
  have a: "alarm t = alarm u" using t(3) u(3) by (auto simp: fired_def fun_eq_iff)
  then have "next_alarm t = next_of t ?ps" if "next_alarm s \<le> realtime s" using that t(4) u(5) by (simp add: next_of_earliest)
  with t(1-3) timely_cong [OF u(4) a t(4)] show ?thesis by blast
qed


text \<open>Process 3 has an alarm at time 60, process 2 one at time 200; it is time 100.\<close>

definition alarm_clk :: clk where
  "alarm_clk = boot_clk\<lparr>ck := upd 2 (\<lambda>p. p\<lparr>p_alarm := 200\<rparr>) (upd 3 (\<lambda>p. p\<lparr>p_alarm := 60\<rparr>) boot_kern), realtime := 100, next_alarm := 60\<rparr>"


end
