(* ===== verification/Kernel_Steady.thy ===== *)
theory Kernel_Steady
  imports Kernel_Alarms
begin

text \<open>
  Alarms belong to the clock task: no other routine of the kernel sets one. All leave them as they are
  but \<open>do_fork\<close>, where the child gets the alarm of its parent, and \<open>do_xit\<close>, which clears one.
\<close>

section \<open>Routines that leave the alarms alone\<close>

definition alarms :: "kern \<Rightarrow> int \<Rightarrow> int" where
  "alarms s p = p_alarm (procs s p)"

lemma alarms_upd [simp]: "(\<And>r. p_alarm (f r) = p_alarm r) \<Longrightarrow> alarms (upd p f s) = alarms s"
  by (simp add: alarms_def fun_eq_iff)

lemma alarms_sets [simp]:
  "alarms (s\<lparr>q_head := a\<rparr>) = alarms s" "alarms (s\<lparr>q_tail := a\<rparr>) = alarms s" "alarms (s\<lparr>proc_ptr := b\<rparr>) = alarms s"
  "alarms (s\<lparr>bill_ptr := b\<rparr>) = alarms s" "alarms (s\<lparr>held_head := h\<rparr>) = alarms s" "alarms (s\<lparr>held_tail := h\<rparr>) = alarms s"
  "alarms (s\<lparr>switching := sw\<rparr>) = alarms s" "alarms (s\<lparr>k_reenter := b\<rparr>) = alarms s" "alarms (s\<lparr>sig_procs := b\<rparr>) = alarms s"
  "alarms (s\<lparr>aging_counter := b\<rparr>) = alarms s" "alarms (put_msg p x m s) = alarms s" "alarms (set_head q v s) = alarms s"
  "alarms (set_tail q v s) = alarms s" "alarms (set_flags p g s) = alarms s" "alarms (cp_mess c d x e y s) = alarms s"
  by (simp_all add: alarms_def put_msg_def set_head_def set_tail_def set_flags_def cp_mess_def fun_eq_iff)

definition steady :: "(kern \<Rightarrow> kern res) \<Rightarrow> bool" where
  "steady f \<longleftrightarrow> (\<forall>s. on_Ok (f s) (\<lambda>t. alarms t = alarms s))"

lemma steadyI: "(\<And>s. on_Ok (f s) (\<lambda>t. alarms t = alarms s)) \<Longrightarrow> steady f"
  by (simp add: steady_def)

lemma steadyD: "steady f \<Longrightarrow> f s = Ok t \<Longrightarrow> alarms t = alarms s"
  by (auto simp: steady_def on_Ok_def)

lemma steady_call: "steady f \<Longrightarrow> (\<And>t. alarms t = alarms u \<Longrightarrow> P t) \<Longrightarrow> on_Ok (f u) P"
  by (auto simp: steady_def on_Ok_def)

lemma framed_steady: "framed f \<Longrightarrow> steady f"
  by (intro steadyI) (auto simp: framed_def on_Ok_def frame_def static_def alarms_def fun_eq_iff)

lemma steady_gateway: "steady f \<Longrightarrow> steady (gateway f)"
  unfolding gateway_def by (rule steadyI, rule on_Ok_bind, erule steady_call) simp

lemmas steady_framed =
  frame_ready [THEN framed_steady] frame_unready [THEN framed_steady] frame_pick_proc [THEN framed_steady]
  frame_enqueue [THEN framed_steady] frame_deliver [THEN framed_steady] frame_block_sender [THEN framed_steady]
  frame_accept [THEN framed_steady] frame_sched [THEN framed_steady]

lemma steady_locks: "steady (lock_ready cf p)" "steady (lock_unready cf p)" "steady (lock_pick_proc cf)" "steady (lock_sched cf)"
  by (simp_all add: lock_ready_def lock_unready_def lock_pick_proc_def lock_sched_def steady_gateway steady_framed)

section \<open>Message passing\<close>

text \<open>For a routine with a status as well.\<close>

abbreviation calm_call :: "kern \<Rightarrow> (status \<times> kern) res \<Rightarrow> bool" where
  "calm_call s m \<equiv> on_Ok m (\<lambda>x. alarms (snd x) = alarms s)"

lemma steady_mini_send: "calm_call s (mini_send cf c d m s)"
  unfolding mini_send_def
  by (intro on_Ok_rules on_OkI [of "locked _ _ _ _"] steady_call [OF steady_framed(5)] steady_call [OF steady_framed(6)]; simp)

lemma steady_lock_mini_send: "calm_call s (lock_mini_send cf c d m s)"
  unfolding lock_mini_send_def
  by (rule on_Ok_bind, rule on_Ok_mono [OF steady_mini_send]) (auto intro!: on_Ok_rules)

lemma steady_inform: "steady (inform cf sm)"
proof (rule steadyI)
  fix s
  show "on_Ok (inform cf sm s) (\<lambda>t. alarms t = alarms s)"
    unfolding inform_def Let_def
    by (intro on_Ok_rules on_Ok_mono [OF steady_lock_mini_send]; simp?)
      (auto intro!: on_Ok_rules steady_call [OF steady_locks(3)])
qed

lemma steady_cause_sig: "steady (cause_sig cf sm p n)"
  unfolding cause_sig_def
  by (intro steadyI on_Ok_rules steady_call [OF steady_locks(2)] steady_call [OF steady_inform]; simp)

lemma steady_block_receiver: "steady (block_receiver cf sm c sd m)"
  unfolding block_receiver_def
  by (intro steadyI on_Ok_rules steady_call [OF steady_framed(2)] steady_call [OF steady_inform]; simp)

lemma steady_mini_rec: "calm_call s (mini_rec cf sm c sd m s)"
  unfolding mini_rec_def
  by (intro on_Ok_rules on_OkI [of "find_sender _ _ _ _ _"] steady_call [OF steady_framed(7)] steady_call [OF steady_block_receiver]; simp)

lemma steady_sys_call: "calm_call s (sys_call cf sm f sd m s)"
proof -
  have b: "calm_call s (bind_res (mini_send cf c d m s) (\<lambda>(n, s). if n \<noteq> OK then Ok (n, s) else mini_rec cf sm c d m s))" for c d
    by (rule on_Ok_bind, rule on_Ok_mono [OF steady_mini_send]) (auto intro!: on_Ok_rules intro: on_Ok_mono [OF steady_mini_rec])
  show ?thesis unfolding sys_call_def Let_def
    by (intro on_Ok_if on_Ok_Ok steady_mini_send steady_mini_rec b) simp_all
qed

section \<open>Interrupts and the scheduler\<close>

lemma steady_hold: "steady (hold p)"
  unfolding hold_def by (intro steadyI on_Ok_rules; simp)

lemma steady_interrupt: "steady (interrupt p)"
  unfolding interrupt_def
  by (intro steadyI on_Ok_rules steady_call [OF steady_hold] steady_call [OF steady_framed(4)]; simp)

lemma steady_nested: "steady (nested p)"
  unfolding nested_def by (intro steadyI on_Ok_rules steady_call [OF steady_interrupt]; simp)

lemma steady_unhold_loop: "on_Ok (unhold_loop n p s) (\<lambda>t. alarms t = alarms s)"
proof (induction n arbitrary: p s)
  case (Suc n)
  show ?case unfolding unhold_loop.simps
    by (intro on_Ok_rules steady_call [OF steady_interrupt] on_Ok_mono [OF Suc.IH]; simp)
qed simp

lemma steady_unhold: "steady (unhold cf)"
  unfolding unhold_def by (intro steadyI on_Ok_rules on_Ok_mono [OF steady_unhold_loop]; simp)

lemma steady_age [simp]: "alarms (age p s) = alarms s"
  by (simp add: age_def)

lemma steady_age_queue: "on_Ok (age_queue n p s) (\<lambda>t. alarms t = alarms s)"
  by (induction n p s rule: age_queue.induct) (auto intro!: on_Ok_rules intro: on_Ok_mono split: option.split)

lemma steady_age_blocked [simp]: "alarms (age_blocked cf s) = alarms s"
proof -
  have "alarms (fold (\<lambda>rp s. if b rp s then age rp s else s) ps s) = alarms s" for b ps
    by (induction ps arbitrary: s) auto
  then show ?thesis unfolding age_blocked_def .
qed

lemma steady_tick: "steady (handle_clock_tick cf)"
  unfolding handle_clock_tick_def update_aging_for_group2_def
  by (intro steadyI on_Ok_rules steady_call [OF steady_locks(4)] on_Ok_mono [OF steady_age_queue]; simp)

lemma steady_charge [simp]: "alarms (charge p n s) = alarms s"
  by (simp add: charge_def Let_def)

lemma steady_clock: "on_Ok (clock_handler cf c) (\<lambda>d. alarms (ck d) = alarms (ck c) \<and> next_alarm d = next_alarm c)"
  unfolding clock_handler_def
  by (intro on_Ok_rules steady_call [OF steady_tick] steady_call [OF steady_interrupt]; simp)

section \<open>Requests\<close>

lemma on_Ok_assert: "(b \<Longrightarrow> on_Ok m P) \<Longrightarrow> on_Ok (assert b m) P"
  by (simp add: assert_def)

lemma alarm_segments [simp]: "p_alarm (alloc_segments cf ev r) = p_alarm r"
  by (simp add: alloc_segments_def Let_def)

lemma steady_newmap: "calm_call (kn k) (do_newmap cf ev m k)"
  unfolding do_newmap_def
  by (intro on_Ok_rules on_Ok_assert steady_call [OF steady_locks(1)]; simp)

lemma steady_exec: "calm_call (kn k) (do_exec cf ev m k)"
  unfolding do_exec_def
  by (intro on_Ok_rules on_Ok_assert steady_call [OF steady_cause_sig] steady_call [OF steady_locks(1)]; simp)

lemma steady_kill: "calm_call s (do_kill cf ev m s)"
  unfolding do_kill_def by (intro on_Ok_rules on_Ok_assert steady_call [OF steady_cause_sig]; simp)

lemma steady_endsig: "calm_call s (do_endsig cf m s)"
  unfolding do_endsig_def by (intro on_Ok_rules on_Ok_assert steady_call [OF steady_locks(1)]; simp)

lemma steady_setgroup [simp]: "alarms (snd (do_setgroup m s)) = alarms s"
  by (simp add: do_setgroup_def Let_def)

lemma steady_resume: "on_Ok (resume cf p k) (\<lambda>x. alarms (kn (snd x)) = alarms (kn k))"
  unfolding resume_def by (intro on_Ok_rules steady_call [OF steady_locks(1)]; simp)

lemma steady_trace:
  assumes "trace_fits cf ev (kn k) m"
  shows "on_Ok (do_trace cf ev m k) (\<lambda>x. alarms (kn (snd (snd x))) = alarms (kn k))"
proof (cases "isemptyp (procs (kn k) (fld m M2_i1))")
  case True
  then show ?thesis by (simp add: do_trace_def Let_def)
next
  case False
  with assms have t: "trace_of ev (fld m M2_i2) \<noteq> T_GETUSER" "trace_of ev (fld m M2_i2) \<noteq> T_SETUSER" by (auto simp: trace_fits_def)
  have r: "on_Ok (bind_res (resume cf p (k\<lparr>kn := n\<rparr>)) (\<lambda>(r, s). Ok (r, z, s))) (\<lambda>x. alarms (kn (snd (snd x))) = alarms (kn k))"
    if "alarms n = alarms (kn k)" for p n and z :: message
    by (rule on_Ok_bind, rule on_Ok_mono [OF steady_resume]) (auto simp: that)
  have "on_Ok (if p_flags rp = {} then lock_unready cf p (kn k) else Ok (kn k)) (\<lambda>n. alarms n = alarms (kn k))" for rp p
    by (intro on_Ok_rules steady_call [OF steady_locks(2)]) simp_all
  note st = on_Ok_bind [OF on_Ok_mono [OF this]]
  show ?thesis
    using r [of "kn k"] False t
    by (cases "trace_of ev (fld m M2_i2)") (simp_all add: do_trace_def Let_def st r)
qed

lemma steady_sendsig: "on_Ok (do_sendsig cf ev m k) (\<lambda>x. alarms (kn (snd x)) = alarms (kn k))"
  unfolding do_sendsig_def by (intro on_Ok_rules on_Ok_assert; simp)

lemma steady_sigreturn: "on_Ok (do_sigreturn cf ev m k) (\<lambda>x. alarms (kn (snd x)) = alarms (kn k))"
  unfolding do_sigreturn_def by (intro on_Ok_rules on_Ok_assert; simp)

lemma steady_unqueue_from: "on_Ok (unqueue_from n c p s) (\<lambda>t. alarms t = alarms s)"
  by (induction n c p s rule: unqueue_from.induct) (auto split: option.split)

lemma steady_unqueue: "on_Ok (unqueue cf c ps s) (\<lambda>t. alarms t = alarms s)"
proof (induction ps arbitrary: s)
  case (Cons p ps)
  show ?case unfolding unqueue.simps
    by (intro on_Ok_rules on_Ok_mono [OF steady_unqueue_from] on_Ok_mono [OF Cons.IH]; simp)
qed simp

text \<open>A process that ends has no alarm any more; a new one has that of its parent.\<close>

lemma exit_alarms: "on_Ok (do_xit cf m s) (\<lambda>x. alarms (snd x) = (alarms s)(fld m PROC2 := 0))"
proof -
  have c: "alarms (upd p f s) = (alarms s)(p := 0)" if "\<And>r. p_alarm (f r) = 0" for p f s
    using that by (auto simp: alarms_def fun_eq_iff)
  show ?thesis unfolding do_xit_def
    by (intro on_Ok_rules on_Ok_assert steady_call [OF steady_locks(2)] on_Ok_mono [OF steady_unqueue]; simp add: c)
qed

lemma fork_alarms: "on_Ok (do_fork m s) (\<lambda>x. alarms (snd x) = (alarms s)(fld m PROC2 := alarms s (fld m PROC1)))"
  unfolding do_fork_def Let_def by (intro on_Ok_assert) (auto simp: alarms_def fun_eq_iff)

end
