(* ===== verification/Kernel_Clocked.thy ===== *)
theory Kernel_Clocked
  imports Kernel_Steady
begin

text \<open>
  The kernel with the rounds of the clock task among its events. However calls, requests, interrupts
  and rounds of the clock task follow each other, the interrupt handler knows a time
  that is not later than any alarm, so at a tick where one is due the clock task is woken.
\<close>

section \<open>The kernel's routines and the alarms\<close>

text \<open>An alarm stays, is cleared, or is that of another process (of the parent, for a child).\<close>

definition inherited :: "config \<Rightarrow> (int \<Rightarrow> int) \<Rightarrow> (int \<Rightarrow> int) \<Rightarrow> bool" where
  "inherited cf a b \<longleftrightarrow> (\<forall>p. b p = a p \<or> b p = 0 \<or> p \<in> set (all_procs cf) \<and> b p \<in> range a)"

lemma inherited_refl [simp]: "inherited cf a a"
  by (simp add: inherited_def)

lemma alarm_alarms: "alarm s = alarms (ck s)"
  by (simp add: alarm_def [abs_def] alarms_def [abs_def])

lemma timely_inherited:
  assumes "timely cf s" and "inherited cf (alarms (ck s)) (alarms (ck t))" and "next_alarm t = next_alarm s"
  shows "timely cf t"
  unfolding timely_def alarm_alarms
proof (intro allI impI)
  fix p
  assume z: "alarms (ck t) p \<noteq> 0"
  from assms(2) z consider "alarms (ck t) p = alarms (ck s) p" | q where "p \<in> set (all_procs cf)" "alarms (ck t) p = alarms (ck s) q"
    unfolding inherited_def by blast
  then show "p \<in> set (all_procs cf) \<and> next_alarm t \<le> alarms (ck t) p"
    using assms(1,3) z by cases (auto simp: timely_def alarm_alarms)
qed

text \<open>What a request leaves of the alarms.\<close>

abbreviation inherits :: "config \<Rightarrow> kern \<Rightarrow> (status \<times> sysk) res \<Rightarrow> bool" where
  "inherits cf n m \<equiv> on_Ok m (\<lambda>x. inherited cf (alarms n) (alarms (kn (snd x))))"

lemma inherits_same: "on_Ok m (\<lambda>x. alarms (kn (snd x)) = alarms n) \<Longrightarrow> inherits cf n m"
  by (erule on_Ok_mono) simp

lemma inherits_on_kern: "on_Ok m (\<lambda>x. inherited cf (alarms n) (alarms (snd x))) \<Longrightarrow> inherits cf n (on_kern k m)"
  unfolding on_kern_def by (rule on_Ok_bind, erule on_Ok_mono) (auto simp: case_prod_beta)

lemma inherits_kern: "calm_call n m \<Longrightarrow> inherits cf n (on_kern k m)"
  by (rule inherits_on_kern, erule on_Ok_mono) simp

lemma serve_inherits:
  assumes g: "request_fits cf ev (kn s) (get_msg SYSTASK (sys_m ev) (kn s))"
  shows "inherits cf (kn s) (sys_handle cf ev up s)"
proof (cases "map_of sys_codes (m_type (get_msg SYSTASK (sys_m ev) (kn s)))")
  case None
  then show ?thesis by (simp add: sys_handle_def Let_def)
next
  case (Some request)
  let ?m = "get_msg SYSTASK (sys_m ev) (kn s)"
  note g' = g [unfolded request_fits_def Some option.case]
  note e = sys_handle_def Let_def Some option.case
  have ans: "alarms (kn (snd (with_answer ev k r))) = alarms (kn k)" for k r by (simp add: with_answer_def answer_def)
  show ?thesis
  proof (cases request)
    case SYS_FORK
    have "on_Ok (do_fork ?m (kn s)) (\<lambda>x. inherited cf (alarms (kn s)) (alarms (snd x)))"
      by (rule on_Ok_mono [OF fork_alarms]) (use g' SYS_FORK in \<open>auto simp: inherited_def fork_fits_def\<close>)
    from inherits_on_kern [OF this] show ?thesis by (simp add: e SYS_FORK)
  next
    case SYS_XIT
    have "on_Ok (do_xit cf ?m (kn s)) (\<lambda>x. inherited cf (alarms (kn s)) (alarms (snd x)))"
      by (rule on_Ok_mono [OF exit_alarms]) (auto simp: inherited_def)
    from inherits_on_kern [OF this] show ?thesis by (simp add: e SYS_XIT)
  next
    case SYS_TRACE
    then have "trace_fits cf ev (kn s) ?m" using g' by simp
    from steady_trace [OF this] show ?thesis
      by (simp add: e SYS_TRACE) (rule on_Ok_bind, erule on_Ok_mono, auto simp: ans case_prod_beta)
  next
    case SYS_GETSP
    show ?thesis by (simp add: e SYS_GETSP do_getsp_def assert_def ans)
  next
    case SYS_GETMAP
    show ?thesis by (simp add: e SYS_GETMAP do_getmap_def assert_def)
  next
    case SYS_ABORT
    with g' show ?thesis by simp
  qed (use g' in \<open>simp_all add: e ans inherits_same [OF steady_sendsig] inherits_same [OF steady_sigreturn] inherits_kern [OF steady_newmap]
      inherits_kern [OF steady_exec] inherits_kern [OF steady_kill] inherits_kern [OF steady_endsig]
      inherits_kern [where m = "Ok _"] kn_same case_prod_beta\<close>)
qed

lemma step_timely:
  assumes ty: "timely cf (cl s)" and m: "kernel_may cf ev e s" and e: "kernel_step cf ev e s = Ok t"
  shows "timely cf (cl t)"
proof -
  have procs: "timely cf (cl t)" if "steady f" "on_procs f s = Ok t" for f
  proof -
    from that(2) obtain n where n: "f (table s) = Ok n" "t = s\<lparr>cl := (cl s)\<lparr>ck := n\<rparr>\<rparr>"
      by (auto simp: on_procs_def bind_res_Ok_iff)
    from steadyD [OF that(1) n(1)] show ?thesis
      by (intro timely_inherited [OF ty]) (simp_all add: n(2) table_def)
  qed
  show ?thesis
  proof (cases e)
    case (Call f sd a)
    have "steady (\<lambda>k. bind_res (sys_call cf (sys_m ev) f sd a k) (\<lambda>(_, t). Ok t))"
      by (rule steadyI, rule on_Ok_bind, rule on_Ok_mono [OF steady_sys_call]) auto
    with e Call show ?thesis by (intro procs) simp_all
  next
    case (Write c a x)
    have "steady (\<lambda>k. Ok (put_msg c a x k))" by (rule steadyI) simp
    with e Write show ?thesis by (intro procs) simp_all
  next
    case Serve
    let ?k = "(sy s)\<lparr>kn := table s\<rparr>"
    from e Serve obtain r k where k: "sys_handle cf ev (get_uptime (cl s)) ?k = Ok (r, k)" "t = s\<lparr>cl := (cl s)\<lparr>ck := kn k\<rparr>, sy := k\<rparr>"
      by (auto simp: on_system_def bind_res_Ok_iff)
    have "inherits cf (kn ?k) (sys_handle cf ev (get_uptime (cl s)) ?k)"
      by (rule serve_inherits) (use m Serve in simp)
    from on_OkD [OF this k(1)] show ?thesis by (intro timely_inherited [OF ty]) (simp_all add: k(2) table_def)
  next
    case Clock_tick
    then obtain c where c: "clock_handler cf (cl s) = Ok c" "t = s\<lparr>cl := c\<rparr>"
      using e by (auto simp: on_clock_def bind_res_Ok_iff)
    from on_OkD [OF steady_clock c(1)] show ?thesis by (intro timely_inherited [OF ty]) (simp_all add: c(2))
  qed (use e in \<open>auto intro: procs steady_interrupt steady_nested steady_unhold steady_locks(4) steady_cause_sig\<close>)
qed

section \<open>Rounds of the clock task\<close>

text \<open>The clock task can handle its message: it has a known code; at a tick every due alarm is one that the
  model can follow; and a request comes from a process that can be answered, for a process of the table.\<close>

definition round_fits :: "config \<Rightarrow> clock_env \<Rightarrow> clk \<Rightarrow> bool" where
  "round_fits cf ce s \<longleftrightarrow>
     (let m = get_msg CLOCK (mc ce) (ck s); s' = collect_ticks s
      in case map_of clock_codes (m_type m) of
        None \<Rightarrow> False
      | Some Tick \<Rightarrow> list_all (\<lambda>p. due s' p \<longrightarrow> may_fire s' p) (all_procs cf)
      | Some r \<Rightarrow> proc_ptr (ck s) = CLOCK \<and> isoksrc_dest cf (m_source m) \<and> in_int32 (m_source m) \<and> m_source m \<notin> {ANY, CLOCK}
          \<and> (r \<in> {SET_ALARM, SET_SYNC_AL} \<longrightarrow> m_field m M6_i1 \<in> set (all_procs cf)))"

text \<open>A reply of the running clock task.\<close>

lemma clock_reply:
  assumes k: "kernel_ok cf sm n" and p: "proc_ptr n = CLOCK" and d: "isoksrc_dest cf d" "in_int32 d" "d \<notin> {ANY, CLOCK}"
  shows "\<exists>r t. mini_send cf CLOCK d a n = Ok (r, t) \<and> kernel_ok cf sm t \<and> alarms t = alarms n"
proof -
  have "istaskp (procs n CLOCK)" using k by (auto simp: kernel_ok_def kinv_def roles_def)
  then have nu: "\<not> isuserp (procs n CLOCK)" by (simp add: istaskp_def isuserp_def)
  have "good_call n SEND d" using p d by (simp add: good_call_def CLOCK_def IDLE_def)
  from call_ok [OF k this, of a] obtain r t where t: "sys_call cf sm SEND d a n = Ok (r, t)" "kernel_ok cf sm t" by blast
  then have "mini_send cf CLOCK d a n = Ok (r, t)" using p d(1) nu by (simp add: sys_call_def)
  with t(2) on_OkD [OF steady_mini_send [of cf CLOCK d a n]] show ?thesis by auto
qed

lemma quiet_set: "kernel_ok cf sm (ck s) \<Longrightarrow> kernel_ok cf sm (ck (common_setalarm cf p d f s))"
  by (simp add: common_setalarm_def Let_def set_p_alarm_def quiet_alarm)

lemma set_timely:
  assumes "timely cf s" and "p \<in> set (all_procs cf)"
  shows "timely cf (common_setalarm cf p d f s)"
proof (rule timely_next)
  show "next_alarm (common_setalarm cf p d f s) = next_of (common_setalarm cf p d f s) (all_procs cf)"
    by (simp add: common_setalarm_def Let_def next_of_earliest alarm_alarms)
  fix q
  assume "alarm (common_setalarm cf p d f s) q \<noteq> 0"
  then show "q \<in> set (all_procs cf)"
    using assms by (auto simp: common_setalarm_def Let_def set_p_alarm_def alarm_def timely_def split: if_splits)
qed

text \<open>What a handler does, before the reply.\<close>

lemma handle_request:
  assumes k: "kernel_ok cf sm (ck s)" and ty: "timely cf s" and r: "map_of clock_codes (m_type (get_msg CLOCK (mc ce) (ck s))) = Some r"
    and nt: "r \<noteq> Tick" and p: "r \<in> {SET_ALARM, SET_SYNC_AL} \<longrightarrow> m_field (get_msg CLOCK (mc ce) (ck s)) M6_i1 \<in> set (all_procs cf)"
  shows "\<exists>t. clock_handle cf ce s = Ok t \<and> kernel_ok cf sm (ck t) \<and> timely cf t \<and> proc_ptr (ck t) = proc_ptr (ck s)
    \<and> m_source (get_msg CLOCK (mc ce) (ck t)) = m_source (get_msg CLOCK (mc ce) (ck s))"
proof -
  have ans: "kernel_ok cf sm (ck (clock_answer ce v u)) = kernel_ok cf sm (ck u)" "timely cf (clock_answer ce v u) = timely cf u"
    "proc_ptr (ck (clock_answer ce v u)) = proc_ptr (ck u)"
    "m_source (get_msg CLOCK (mc ce) (ck (clock_answer ce v u))) = m_source (get_msg CLOCK (mc ce) (ck u))" for v u
    by (simp_all add: clock_answer_def Let_def timely_def alarm_alarms) (simp_all add: put_msg_def get_msg_def)
  have set: "proc_ptr (ck (common_setalarm cf p d f s)) = proc_ptr (ck s)"
    "get_msg CLOCK (mc ce) (ck (common_setalarm cf p d f s)) = get_msg CLOCK (mc ce) (ck s)" for p d f
    by (simp_all add: common_setalarm_def Let_def set_p_alarm_def upd_def get_msg_def)
  have time: "kernel_ok cf sm (ck (do_set_time cf v s))" "timely cf (do_set_time cf v s)" for v
    using k ty by (simp_all add: do_set_time_def timely_def alarm_alarms)
  show ?thesis
    using k ty r nt p time quiet_set [OF k] set_timely [OF ty]
    by (cases r) (auto simp: clock_handle_def Let_def ans do_setalarm_def do_setsyn_alrm_def set, simp_all add: do_set_time_def)
qed

lemma collected:
  "ck (collect_ticks s) = ck s" "timely cf (collect_ticks s) = timely cf s"
  by (simp_all add: collect_ticks_def timely_def alarm_alarms)

lemma round_ok:
  assumes k: "kernel_ok cf (c_sys_m ce) (ck s)" and ty: "timely cf s" and g: "round_fits cf ce s"
  shows "\<exists>t. clock_task cf ce s = Ok t \<and> kernel_ok cf (c_sys_m ce) (ck t) \<and> timely cf t"
proof -
  let ?m = "get_msg CLOCK (mc ce) (ck s)" and ?s = "collect_ticks s"
  from g obtain r where r: "map_of clock_codes (m_type ?m) = Some r" by (auto simp: round_fits_def Let_def split: option.splits)
  have ks: "kernel_ok cf (c_sys_m ce) (ck ?s)" "timely cf ?s" using k ty by (simp_all add: collected)
  have put: "timely cf (t\<lparr>ck := put_msg p a x (ck t)\<rparr>) = timely cf t" for t p a x by (simp add: timely_def alarm_alarms)
  show ?thesis
  proof (cases "r = Tick")
    case True
    have mt: "m_type ?m = HARD_INT" using r True by (simp add: clock_codes_def split: if_splits)
    have "\<forall>p \<in> set (all_procs cf). due ?s p \<longrightarrow> may_fire ?s p" using g r True by (simp add: round_fits_def Let_def list_all_iff)
    from clocktick_ok [OF ks this] obtain t where t: "do_clocktick cf (c_sys_m ce) (c_mess ce) (task_fun ce) ?s = Ok t"
      "kernel_ok cf (c_sys_m ce) (ck t)" "timely cf t" by blast
    have "clock_handle cf ce ?s = Ok t" using r True t(1) by (simp add: clock_handle_def Let_def collected)
    with t mt show ?thesis by (simp add: clock_task_def Let_def put)
  next
    case False
    then have h: "proc_ptr (ck s) = CLOCK" "isoksrc_dest cf (m_source ?m)" "in_int32 (m_source ?m)" "m_source ?m \<notin> {ANY, CLOCK}"
      "r \<in> {SET_ALARM, SET_SYNC_AL} \<longrightarrow> m_field ?m M6_i1 \<in> set (all_procs cf)"
      using g r unfolding round_fits_def Let_def by (auto split: clock_request.splits)
    from handle_request [OF ks, of ce r] r False h(5) obtain u where u: "clock_handle cf ce ?s = Ok u" "kernel_ok cf (c_sys_m ce) (ck u)"
      "timely cf u" "proc_ptr (ck u) = CLOCK" "m_source (get_msg CLOCK (mc ce) (ck u)) = m_source ?m"
      by (auto simp: collected h(1))
    let ?x = "(get_msg CLOCK (mc ce) (ck u))\<lparr>m_type := status_code cf OK\<rparr>"
    let ?n = "put_msg CLOCK (mc ce) ?x (ck u)"
    have "kernel_ok cf (c_sys_m ce) ?n" "proc_ptr ?n = CLOCK" using u(2,4) by simp_all
    from clock_reply [OF this h(2-4), of "mc ce"] obtain q t where t: "mini_send cf CLOCK (m_source ?m) (mc ce) ?n = Ok (q, t)"
      "kernel_ok cf (c_sys_m ce) t" "alarms t = alarms ?n" by blast
    have "timely cf (u\<lparr>ck := t\<rparr>)" using u(3) t(3) by (simp add: timely_def alarm_alarms)
    moreover have "clock_task cf ce s = Ok (if m_type ?m = HARD_INT then u\<lparr>ck := ?n\<rparr> else u\<lparr>ck := t\<rparr>)"
      using u(1,5) t(1) by (simp add: clock_task_def Let_def)
    ultimately show ?thesis using t(2) u(2,3) by (auto simp: put)
  qed
qed

section \<open>Runs\<close>

datatype cevent = Kernel kevent | Clock_round

fun clock_step :: "config \<Rightarrow> env \<Rightarrow> clock_env \<Rightarrow> cevent \<Rightarrow> machine \<Rightarrow> machine res" where
  "clock_step cf ev ce (Kernel e) s = kernel_step cf ev e s"
| "clock_step cf ev ce Clock_round s = on_clock (clock_task cf ce) s"

fun clock_may :: "config \<Rightarrow> env \<Rightarrow> clock_env \<Rightarrow> cevent \<Rightarrow> machine \<Rightarrow> bool" where
  "clock_may cf ev ce (Kernel e) s = kernel_may cf ev e s"
| "clock_may cf ev ce Clock_round s = round_fits cf ce (cl s)"

text \<open>\<open>cause_sig\<close> works with the message buffer of the system task.\<close>

definition clocked_ok :: "config \<Rightarrow> env \<Rightarrow> clock_env \<Rightarrow> machine \<Rightarrow> bool" where
  "clocked_ok cf ev ce s \<longleftrightarrow> c_sys_m ce = sys_m ev \<and> kernel_ok cf (sys_m ev) (table s) \<and> timely cf (cl s)"

lemma clock_step_ok:
  assumes i: "clocked_ok cf ev ce s" and m: "clock_may cf ev ce e s"
  shows "\<exists>t. clock_step cf ev ce e s = Ok t \<and> clocked_ok cf ev ce t"
proof (cases e)
  case (Kernel k)
  with i m kernel_step_ok [of cf ev s k] obtain t where t: "kernel_step cf ev k s = Ok t" "kernel_ok cf (sys_m ev) (table t)"
    by (auto simp: clocked_ok_def)
  with i m Kernel step_timely [OF _ _ t(1)] show ?thesis by (auto simp: clocked_ok_def)
next
  case Clock_round
  with i m round_ok [of cf ce "cl s"] show ?thesis by (auto simp: clocked_ok_def on_clock_def table_def)
qed

interpretation clocked: guarded "clock_step cf ev ce" "clock_may cf ev ce" "clocked_ok cf ev ce" for cf ev ce
  by unfold_locales (rule clock_step_ok)

section \<open>No alarm is missed\<close>

text \<open>The clock task has been told of an interrupt: it is held up, it is remembered until the task
  receives, or the task has the message.\<close>

definition told :: "kern \<Rightarrow> bool" where
  "told s \<longleftrightarrow> p_int_held (procs s CLOCK) \<or> p_int_blocked (procs s CLOCK)
     \<or> RECEIVING \<notin> p_flags (procs s CLOCK) \<and> m_type (get_msg CLOCK (p_messbuf (procs s CLOCK)) s) = HARD_INT"

lemma told_sets [simp]:
  "told (set_nextready p v s) = told s" "told (set_head q v s) = told s" "told (set_tail q v s) = told s" "told (s\<lparr>proc_ptr := p\<rparr>) = told s"
  by (cases "p = CLOCK") (simp_all add: told_def set_nextready_def set_head_def set_tail_def upd_def get_msg_def)

lemma enqueue_told: "enqueue q p s = Ok t \<Longrightarrow> told s \<Longrightarrow> told t"
  by (auto simp: enqueue_def bind_res_Ok_iff split: option.splits)

lemma interrupt_told: "interrupt CLOCK s = Ok t \<Longrightarrow> told t"
proof -
  assume e: "interrupt CLOCK s = Ok t"
  consider "k_reenter s \<noteq> 0 \<or> switching s"
    | "\<not> (k_reenter s \<noteq> 0 \<or> switching s)" "p_flags (procs s CLOCK) \<inter> {RECEIVING, SENDING} \<noteq> {RECEIVING} \<or> \<not> isrxhardware (p_getfrom (procs s CLOCK))"
    | "\<not> (k_reenter s \<noteq> 0 \<or> switching s)" "\<not> (p_flags (procs s CLOCK) \<inter> {RECEIVING, SENDING} \<noteq> {RECEIVING} \<or> \<not> isrxhardware (p_getfrom (procs s CLOCK)))"
    by blast
  then show ?thesis
  proof cases
    case 1
    then have "hold CLOCK s = Ok t" using e by (simp add: interrupt_def)
    then show ?thesis by (auto simp: hold_def Let_def bind_res_Ok_iff told_def split: if_splits option.splits)
  next
    case 2
    then have "t = upd CLOCK (\<lambda>p. p\<lparr>p_int_blocked := True\<rparr>) s" using e by (simp add: interrupt_def)
    then show ?thesis by (simp add: told_def)
  next
    case 3
    then show ?thesis using e
      by (simp add: interrupt_def Let_def) (erule enqueue_told, simp add: told_def put_msg_def get_msg_def)
  qed
qed

text \<open>The time that the interrupt handler compares with.\<close>

definition now_at :: "clk \<Rightarrow> int" where
  "now_at s = int32 (realtime s + int32 (pending_ticks s + int32 (lost_ticks s + 1)))"

lemma tick_told:
  assumes "clock_handler cf s = Ok t" and "next_alarm s \<le> now_at s" shows "told (ck t)"
  using assms unfolding clock_handler_def now_at_def
  by (auto simp: Let_def bind_res_Ok_iff interrupt_told simp del: int32_add_left int32_add_right split: if_splits)


text \<open>At time 100 the alarm of process 3, due at 60, is still set. After a tick and a look for the next
  process it is not forgotten: another tick finds it.\<close>

definition alarm_machine :: machine where
  "alarm_machine = boot\<lparr>cl := alarm_clk\<rparr>"

definition boot_clock :: clock_env where
  "boot_clock = \<lparr>mc = 64, c_sys_m = 64, c_mess = 0, task_fun = (\<lambda>_ _ s. Ok s), watchdog_of = (\<lambda>_. None)\<rparr>"

definition alarm_story :: "cevent list" where
  "alarm_story = [Kernel Clock_tick, Kernel Resched]"

lemma alarm_story_may:
  "may_run (clock_may small_config boot_env boot_clock) (clock_step small_config boot_env boot_clock) alarm_story alarm_machine"
  by (simp add: alarm_story_def split: res.split)

lemma alarm_machine_ok: "clocked_ok small_config boot_env boot_clock alarm_machine"
proof -
  have "kernel_ok small_config 64 (ck alarm_clk)"
    using boot_ok by (simp add: alarm_clk_def boot_clk_def quiet_alarm)
  moreover have "timely small_config alarm_clk"
    by (simp add: timely_def alarm_clk_def alarm_def boot_defs small_all)
  ultimately show ?thesis by (simp add: clocked_ok_def alarm_machine_def boot_clock_def boot_env_def table_def)
qed

lemma alarm_is_set:
  "case run (clock_step small_config boot_env boot_clock) alarm_story alarm_machine of
     Ok t \<Rightarrow> alarm (cl t) 3 = 60 \<and> now_at (cl t) = 102 | _ \<Rightarrow> False"
  by code_simp


end
