(* ===== verification/Kernel_Setgroup.thy ===== *)
theory Kernel_Setgroup
  imports Kernel_Exit
begin

text \<open>
  \<open>SYS_SETGROUP\<close> on a process that is runnable: it changes the group but leaves the process in
  the queue of the old group, where \<open>unready\<close> does not look for it any more.
\<close>

lemma belongs_group:
  assumes "isuserp p" and "sched_group p = 1 \<or> sched_group p = 2 \<or> sched_group p = 3"
  shows "belongs p = group_queue (sched_group p)"
  using assms by (auto simp: belongs_def isuserp_def istaskp_def isservp_def in_group_def)

lemma lists_ok_frame:
  assumes "nx t = nx s" "q_head t = q_head s" "q_tail t = q_tail s"
  shows "lists_ok t Q = lists_ok s Q"
  using assms by (simp add: lists_ok_def)

lemma lists_ok_flags [simp]: "lists_ok (set_flags p f s) Q = lists_ok s Q"
  by (rule lists_ok_frame) (auto simp: set_flags_def nx_upd_other)

lemma lists_ok_unique: "lists_ok s Q \<Longrightarrow> lists_ok s Q' \<Longrightarrow> Q' = Q"
  using lists_linked [of s Q] lists_linked [of s Q'] linked_unique by (intro ext) blast

lemma belongs_isuserp: "belongs p \<in> {G1, G2, G3} \<Longrightarrow> isuserp p"
  by (auto simp: belongs_def in_group_def isuserp_def split: if_splits)

lemma choice_first_group:
  assumes "choice s Q p" and "Q TASK_Q = []" "Q SERVER_Q = []" "Q G1 \<noteq> []"
  shows "p = hd (Q G1)"
proof -
  obtain q where q: "p \<in> set (Q q)" "q \<le> G1" "q \<noteq> G2 \<longrightarrow> p = hd (Q q)"
    using assms unfolding choice_def by blast
  then have "q = G1" using assms(2,3) by (cases q) (auto simp: less_eq_queue_def)
  with q show ?thesis by simp
qed

text \<open>C36: \<open>do_setgroup\<close> breaks the ready queues. Moving a runnable process of group 1 to group 2
  or 3 leaves it in the queue of group 1, so that no assignment of processes to queues
  satisfies the invariant of the scheduler any more. When the process blocks later, \<open>unready\<close>
  searches the queue of the new group, and the blocked process stays in the queue of group 1:
  if it is first there and no task or server is ready, the next \<open>pick_proc\<close> runs it although
  it waits for a message.\<close>
theorem setgroup_keeps_old_queue:
  assumes "sched_ok cf s Q" and "p \<in> set (Q G1)" and "fld m M1_i1 = p" and "fld m M1_i2 = 2 \<or> fld m M1_i2 = 3"
  shows "\<exists>t u. do_setgroup m s = (OK, t) \<and> (\<nexists>Q'. sched_ok cf t Q') \<and> unready cf p t = Ok u
    \<and> linked (nx u) (q_head u G1) (Q G1)
    \<and> (Q TASK_Q = [] \<and> Q SERVER_Q = [] \<and> p = hd (Q G1)
        \<longrightarrow> (\<exists>v. pick_proc cf (set_flags p (insert RECEIVING) u) = Ok v \<and> proc_ptr v = p \<and> RECEIVING \<in> p_flags (procs v p)))"
proof -
  let ?f = "\<lambda>p. p\<lparr>sched_group := fld m M1_i2, wait_ticks := 0, rr_counter := 0,
                 cpu_estimate := (if fld m M1_i2 = 3 then fld m M1_i3 else 100)\<rparr>"
  let ?t = "upd p ?f s"
  have l: "lists_ok s Q" and b: "belongs (procs s p) = G1" using assms(1,2) by (simp_all add: sched_ok_def)
  then have us: "isuserp (procs s p)" using belongs_isuserp [of "procs s p"] by simp
  then have t: "do_setgroup m s = (OK, ?t)" using assms(3) by (simp add: do_setgroup_def)
  have lt: "lists_ok ?t Q"
    unfolding lists_ok_frame [of ?t s Q, OF nx_upd_other [of ?f p s] upd_sel(2,3), simplified] by (rule l)
  have bt: "belongs (procs ?t p) = group_queue (fld m M1_i2)"
    using belongs_group [of "procs ?t p"] us assms(4) by (auto simp: isuserp_def)
  then have ne: "belongs (procs ?t p) \<noteq> G1" using assms(4) by (auto simp: group_queue_def)
  have "\<not> sched_ok cf ?t Q'" for Q'
  proof
    assume o: "sched_ok cf ?t Q'"
    then have "lists_ok ?t Q'" by (simp add: sched_ok_def)
    with lt have "Q' = Q" by (rule lists_ok_unique)
    with o have "\<forall>r \<in> set (Q G1). belongs (procs ?t r) = G1" unfolding sched_ok_def by blast
    with assms(2) ne show False by blast
  qed
  then have no: "\<nexists>Q'. sched_ok cf ?t Q'" by blast
  let ?g = "group_queue (fld m M1_i2)"
  have "p \<notin> set (Q ?g)" using assms(1) b ne bt by (auto simp: sched_ok_def)
  then have same: "Q(?g := remove1 p (Q ?g)) = Q" by (simp add: remove1_idem)
  have nt: "istaskp (procs ?t p) \<Longrightarrow> p_stguard (procs ?t p) = STACK_GUARD"
    using us by (simp add: isuserp_def istaskp_def)
  from unready_lists [OF lt sched_ok_length [OF assms(1)] nt bt] same obtain u where u: "unready cf p ?t = Ok u" "lists_ok u Q"
    by (auto simp del: upd_sel)
  have "lists_ok (set_flags p (insert RECEIVING) u) Q"
    using u(2) by simp
  from pick_proc_lists [OF this sched_ok_length [OF assms(1)]] obtain v where
    v: "pick_proc cf (set_flags p (insert RECEIVING) u) = Ok v" "same_procs (set_flags p (insert RECEIVING) u) v"
      "choice (set_flags p (insert RECEIVING) u) Q (proc_ptr v)" by blast
  have "RECEIVING \<in> p_flags (procs v p)" using v(2) by (simp add: same_procs_def)
  moreover have "Q G1 \<noteq> []" using assms(2) by auto
  ultimately show ?thesis
    using t no u v(1) lists_linked [OF u(2), of G1] choice_first_group [OF v(3)] by blast
qed

text \<open>Process 2 of the small kernel, which runs, is moved to group 2.\<close>

theorem setgroup_keeps_old_queue_witness:
  "\<exists>t u v. do_setgroup \<lparr>m_source = 0, m_type = 22, m_field = (\<lambda>_. 2), m3_ca1 = [], sig_map = {}\<rparr> small_kern = (OK, t)
     \<and> unready small_config 2 t = Ok u \<and> pick_proc small_config (set_flags 2 (insert RECEIVING) u) = Ok v
     \<and> proc_ptr v = 2 \<and> RECEIVING \<in> p_flags (procs v 2)"
  using setgroup_keeps_old_queue [OF small_sched_ok, of 2 "\<lparr>m_source = 0, m_type = 22, m_field = (\<lambda>_. 2), m3_ca1 = [], sig_map = {}\<rparr>"]
  by (fastforce simp: small_lists_def fld_def)

end
