(* ===== verification/Kernel_Signals.thy ===== *)
theory Kernel_Signals
  imports Kernel_Task Kernel_Receive
begin

text \<open>
  Signals: the registers of a process survive the way to its handler and back.
\<close>

section \<open>Addresses of one block\<close>

text \<open>Data and stack of a process lie in one block of memory, with the gap between them.\<close>

definition one_block :: "proc \<Rightarrow> bool" where
  "one_block p \<longleftrightarrow> mem_phys (p_map p S) - mem_vir (p_map p S) = mem_phys (p_map p D) - mem_vir (p_map p D)"

lemma umap_linear:
  assumes "one_block p" and "umap cf p D vir n \<noteq> 0"
  shows "umap cf p D vir n = push_bit (CLICK_SHIFT cf) (mem_phys (p_map p D) - mem_vir (p_map p D)) + vir"
proof -
  have "(mem_phys (p_map p S) - mem_vir (p_map p S)) * 2 ^ CLICK_SHIFT cf
      = (mem_phys (p_map p D) - mem_vir (p_map p D)) * 2 ^ CLICK_SHIFT cf"
    using assms(1) by (simp add: one_block_def)
  with assms(2) show ?thesis
    by (auto simp: umap_def Let_def push_bit_eq_mult left_diff_distrib algebra_simps split: if_splits)
qed

lemma umap_below:
  assumes "one_block p" and "umap cf p D (vir - k) n \<noteq> 0" and "umap cf p D vir n' \<noteq> 0"
  shows "umap cf p D vir n' = umap cf p D (vir - k) n + k"
  unfolding umap_linear [OF assms(1,2)] umap_linear [OF assms(1,3)] by (simp add: algebra_simps)

section \<open>The layout of the structures\<close>

text \<open>What the code relies on: a signal context is read back as it was written, writing a frame
  directly below one does not change it, and its kind is told by a flag of its own.\<close>

definition signal_layout :: "env \<Rightarrow> bool" where
  "signal_layout ev \<longleftrightarrow> (\<forall>sc a r. get_sigcontext ev (put_sigcontext ev sc a r) a = sc)
     \<and> (\<forall>fr b r. get_sigcontext ev (put_sigframe ev fr b r) (b + sizeof_sigframe ev) = get_sigcontext ev r (b + sizeof_sigframe ev))
     \<and> and (SC_SIGCONTEXT ev) (SC_SIGCONTEXT ev) \<noteq> 0 \<and> and (SC_SIGCONTEXT ev) (SC_NOREGLOCALS ev) = 0"

text \<open>The message of the memory manager with which a signal starts, and the place of the context.\<close>

definition signal_msg :: "config \<Rightarrow> env \<Rightarrow> message \<Rightarrow> sysk \<Rightarrow> sigmsg" where
  "signal_msg cf ev m s =
     get_sigmsg ev (ram s) (umap cf (procs (kn s) (MM_PROC_NR cf)) D (addr m M1_p1) (sizeof_sigmsg ev))"

definition context_at :: "config \<Rightarrow> env \<Rightarrow> message \<Rightarrow> sysk \<Rightarrow> 32 word" where
  "context_at cf ev m s = sm_stkptr (signal_msg cf ev m s) - sizeof_sigcontext ev"

text \<open>A successful \<open>do_sendsig\<close>.\<close>

lemma do_sendsig_OK:
  assumes ok: "do_sendsig cf ev m s = Ok (OK, t)" and b: "one_block (procs (kn s) (fld m PROC1))" and l: "signal_layout ev"
  shows "isuserp (procs (kn s) (fld m PROC1)) \<and> umap cf (procs (kn s) (fld m PROC1)) D (context_at cf ev m s) (sizeof_sigcontext ev) \<noteq> 0
    \<and> get_sigcontext ev (ram t) (umap cf (procs (kn s) (fld m PROC1)) D (context_at cf ev m s) (sizeof_sigcontext ev))
        = \<lparr>sc_flags = SC_SIGCONTEXT ev, sc_mask = sm_mask (signal_msg cf ev m s), sc_regs = p_reg (procs (kn s) (fld m PROC1))\<rparr>
    \<and> r_pc (p_reg (procs (kn t) (fld m PROC1))) = sm_sighandler (signal_msg cf ev m s)
    \<and> p_map (procs (kn t) (fld m PROC1)) = p_map (procs (kn s) (fld m PROC1)) \<and> isuserp (procs (kn t) (fld m PROC1))"
proof -
  let ?k = "fld m PROC1" and ?scp = "context_at cf ev m s"
  let ?rp = "procs (kn s) ?k" and ?frp = "context_at cf ev m s - sizeof_sigframe ev"
  have u: "umap cf (procs (upd p (\<lambda>p. p\<lparr>p_reg := f p\<rparr>) n) q) g v k = umap cf (procs n q) g v k" for p f n q g v k
    by (simp add: umap_def)
  obtain fr where t: "isuserp ?rp" "umap cf ?rp D ?scp (sizeof_sigcontext ev) \<noteq> 0" "umap cf ?rp D ?frp (sizeof_sigframe ev) \<noteq> 0"
    "ram t = put_sigframe ev fr (umap cf ?rp D ?frp (sizeof_sigframe ev))
      (put_sigcontext ev \<lparr>sc_flags = SC_SIGCONTEXT ev, sc_mask = sm_mask (signal_msg cf ev m s), sc_regs = p_reg ?rp\<rparr>
        (umap cf ?rp D ?scp (sizeof_sigcontext ev)) (ram s))"
    "r_pc (p_reg (procs (kn t) ?k)) = sm_sighandler (signal_msg cf ev m s)"
    "p_map (procs (kn t) ?k) = p_map ?rp" "p_priority (procs (kn t) ?k) = p_priority ?rp"
    using ok by (auto simp: do_sendsig_def assert_def Let_def context_at_def signal_msg_def split: if_splits)
  have "umap cf ?rp D ?scp (sizeof_sigcontext ev) = umap cf ?rp D ?frp (sizeof_sigframe ev) + sizeof_sigframe ev"
    by (rule umap_below [OF b t(3,2)])
  with t l show ?thesis by (simp add: signal_layout_def isuserp_def)
qed


section \<open>A signal on a small machine\<close>

text \<open>Structures as the words of their members, one after the other.\<close>

fun put_words :: "32 word list \<Rightarrow> 32 word \<Rightarrow> ram \<Rightarrow> ram" where
  "put_words [] a r = r"
| "put_words (w # ws) a r = store32 a w (put_words ws (a + 4) r)"

lemma load32_store32: "load32 (store32 a v r) a = v"
proof -
  define b where "b k = (push_bit k (ucast (ucast (drop_bit k v) :: 8 word)) :: 32 word)" for k
  have bit: "bit (b k) n \<longleftrightarrow> k \<le> n \<and> n < k + 8 \<and> n < 32 \<and> bit v n" for k n
    by (auto simp: b_def bit_simps)
  have "and (b 0) (b 8) = 0" "and (or (b 0) (b 8)) (b 16) = 0" "and (or (or (b 0) (b 8)) (b 16)) (b 24) = 0"
    by (rule bit_word_eqI; auto simp: bit bit_and_iff bit_or_iff)+
  then have "b 0 + b 8 + b 16 + b 24 = or (or (or (b 0) (b 8)) (b 16)) (b 24)"
    by (simp add: disjunctive_add_eq_or)
  also have "\<dots> = v"
    by (rule bit_word_eqI) (auto simp: bit bit_or_iff)
  finally show ?thesis by (simp add: load32_def store32_def b_def)
qed

lemma load32_other:
  assumes "a - b \<notin> {0, 1, 2, 3}" and "b - a \<notin> {0, 1, 2, 3}"
  shows "load32 (store32 a v r) b = load32 r b"
  using assms by (auto simp: load32_def store32_def algebra_simps)

lemma load32_offset:
  "i - j \<notin> {0, 1, 2, 3} \<Longrightarrow> j - i \<notin> {0, 1, 2, 3} \<Longrightarrow> load32 (store32 (a + i) v r) (a + j) = load32 r (a + j)"
  "j \<notin> {0, 1, 2, 3} \<Longrightarrow> - j \<notin> {0, 1, 2, 3} \<Longrightarrow> load32 (store32 a v r) (a + j) = load32 r (a + j)"
  "i \<notin> {0, 1, 2, 3} \<Longrightarrow> - i \<notin> {0, 1, 2, 3} \<Longrightarrow> load32 (store32 (a + i) v r) a = load32 r a"
  by (rule load32_other; simp)+

text \<open>The parameters of the kernel, given by concrete functions; those that signals do not use
  are the simplest ones.\<close>

definition sig_env :: env where
  "sig_env = \<lparr>
     phys_copy = (\<lambda>src dst n r a. if a - dst < n then r (src + (a - dst)) else r a),
     get_map = (\<lambda>r a g. \<lparr>mem_vir = load32 r a, mem_phys = load32 r (a + 4), mem_len = load32 r (a + 8)\<rparr>),
     put_map = (\<lambda>mp a. put_words [mem_vir (mp D), mem_phys (mp D), mem_len (mp D)] a),
     get_name = (\<lambda>r a. []), get_cpvec = (\<lambda>r a i. (load32 r a, load32 r (a + 4), load32 r (a + 8))),
     sizeof_map = 36, sizeof_cpvec = 12, sys_m = 256,
     sizeof_sigmsg = 20,
     get_sigmsg = (\<lambda>r a. \<lparr>sm_signo = load32 r a, sm_mask = load32 r (a + 4), sm_sighandler = load32 r (a + 8),
       sm_sigreturn = load32 r (a + 12), sm_stkptr = load32 r (a + 16)\<rparr>),
     sizeof_sigcontext = 52,
     get_sigcontext = (\<lambda>r a. \<lparr>sc_flags = load32 r a, sc_mask = load32 r (a + 4),
       sc_regs = \<lparr>r_retreg = load32 r (a + 8), r_pc = load32 r (a + 12), r_sp = load32 r (a + 16), r_fp = load32 r (a + 20),
         r_psw = load32 r (a + 24), r_cs = load32 r (a + 28), r_ds = load32 r (a + 32), r_es = load32 r (a + 36),
         r_fs = load32 r (a + 40), r_gs = load32 r (a + 44), r_ss = load32 r (a + 48)\<rparr>\<rparr>),
     put_sigcontext = (\<lambda>sc a. put_words [sc_flags sc, sc_mask sc, r_retreg (sc_regs sc), r_pc (sc_regs sc), r_sp (sc_regs sc),
       r_fp (sc_regs sc), r_psw (sc_regs sc), r_cs (sc_regs sc), r_ds (sc_regs sc), r_es (sc_regs sc), r_fs (sc_regs sc),
       r_gs (sc_regs sc), r_ss (sc_regs sc)] a),
     sizeof_sigframe = 28,
     put_sigframe = (\<lambda>fr a. put_words [sf_retadr fr, sf_signo fr, sf_code fr, sf_scp fr, sf_fp fr, sf_retadr2 fr, sf_scpcopy fr] a),
     offset_sf_fp = 16, SC_SIGCONTEXT = 2, SC_NOREGLOCALS = 4, protected_mode = True,
     privilege_of = (\<lambda>t. if t then 1 else 3), code_selector = (\<lambda>a. a + 12), data_selector = (\<lambda>a. a + 20),
     click_to_hclick = push_bit 4, RBT_MONITOR = 2, mon_params = 2048, mon_parmsize = 64, wreboot = (\<lambda>_ s. s),
     SYSSIGNON = 1, SYSGETENV = 2, sizeof_systaskinfo = 8, put_systaskinfo = (\<lambda>n a. put_words [of_int n] a),
     sizeof_sysgetenv = 16, get_sysgetenv = (\<lambda>r a. (load32 r a, load32 r (a + 4), load32 r (a + 8), load32 r (a + 12))),
     sizeof_key = 32, getenv = (\<lambda>_ _ _. None), trace_of = (\<lambda>_. T_OTHER),
     user_trace = (\<lambda>m s. Ok (EINVAL, m, s))\<rparr>"

lemma sig_layout: "signal_layout sig_env"
proof -
  have "get_sigcontext sig_env (put_sigcontext sig_env sc a r) a = sc" for sc a r
    by (simp add: sig_env_def load32_store32 load32_offset add.assoc)
  moreover have "get_sigcontext sig_env (put_sigframe sig_env fr b r) (b + sizeof_sigframe sig_env)
      = get_sigcontext sig_env r (b + sizeof_sigframe sig_env)" for fr b r
    by (simp add: sig_env_def load32_offset load32_other add.assoc)
  ultimately show ?thesis by (simp add: signal_layout_def sig_env_def)
qed

text \<open>Process 2 gets signal 14, with a handler at 1000 and its stack at 2048.\<close>

definition sig_state :: sysk where
  "sig_state = \<lparr>kn = small_kern, ram = put_words [14, 7, 1000, 1100, 2048] 512 (\<lambda>_. 0), mem = [], tot_mem_size = 0, console = []\<rparr>"

definition sig_request :: "int \<Rightarrow> message" where
  "sig_request p = set_fld M1_p1 p (set_fld PROC1 2 (msgs small_kern 0 0))"

lemma sig_request_simps: "fld (sig_request p) PROC1 = 2" "addr (sig_request p) M1_p1 = of_int p"
  by (simp_all add: sig_request_def fld_def set_fld_def addr_def PROC1_def)

lemma sig_context: "context_at small_config sig_env (sig_request 512) sig_state = 1996"
  "sm_stkptr (signal_msg small_config sig_env (sig_request 512) sig_state) = 2048"
  by (simp_all add: context_at_def signal_msg_def sig_request_simps sig_env_def sig_state_def umap_def
      small_config_def small_kern_def blank_proc_def load32_store32 load32_other)

lemma sig_sent: "\<exists>t. do_sendsig small_config sig_env (sig_request 512) sig_state = Ok (OK, t)"
proof -
  let ?m = "sig_request 512"
  have sm: "get_sigmsg sig_env (ram sig_state)
      (umap small_config (procs (kn sig_state) (MM_PROC_NR small_config)) D (addr ?m M1_p1) (sizeof_sigmsg sig_env))
      = signal_msg small_config sig_env ?m sig_state"
    by (simp add: signal_msg_def)
  have "isuserp (procs (kn sig_state) 2)"
    by (simp add: sig_state_def small_kern_def user_proc_def isuserp_def)
  moreover have "umap small_config (procs (kn sig_state) (MM_PROC_NR small_config)) D 512 20 \<noteq> 0"
    "umap small_config (procs (kn sig_state) 2) D 1996 52 \<noteq> 0" "umap small_config (procs (kn sig_state) 2) D 1968 28 \<noteq> 0"
    by (simp_all add: umap_def sig_state_def small_kern_def small_config_def user_proc_def blank_proc_def)
  moreover have "sizeof_sigmsg sig_env = 20" "sizeof_sigcontext sig_env = 52" "sizeof_sigframe sig_env = 28"
    by (simp_all add: sig_env_def)
  ultimately show ?thesis
    unfolding do_sendsig_def Let_def sm sig_context(2) by (simp add: assert_def sig_request_simps)
qed


end
