(* ===== verification/Kernel_Timer.thy ===== *)
theory Kernel_Timer
  imports Kernel_Clock
begin

text \<open>
  The part of \<^verbatim>\<open>kernel/clock.c\<close> that works on the timer chip: \<open>init_clock\<close>, \<open>clock_stop\<close> and the
  delays. The chip is outside the sources: what is written to it is a list of port operations,
  what it shows is an argument. The lemmas compare a delay with the time that the counter tells.
\<close>

unbundle bit_operations_syntax

section \<open>The chip\<close>

definition TIMER_FREQ :: int where "TIMER_FREQ = 1193182"
definition COUNTER_FREQ :: int where "COUNTER_FREQ = 2 * TIMER_FREQ"
definition SQUARE_WAVE :: int where "SQUARE_WAVE = 0x36"

definition TIMER_COUNT :: "config \<Rightarrow> int" where
  "TIMER_COUNT cf = uint32 (cdiv TIMER_FREQ (HZ cf))"

datatype port = TIMER_MODE | TIMER0

text \<open>\<open>out_byte\<close> writes the low byte of its argument.\<close>

datatype chip_op = Wrote port "8 word" | Put_irq_handler | Enable_irq

definition out_byte :: "port \<Rightarrow> int \<Rightarrow> chip_op" where
  "out_byte p v = Wrote p (word_of_int v)"

definition init_clock :: "config \<Rightarrow> chip_op list" where
  "init_clock cf =
     [out_byte TIMER_MODE SQUARE_WAVE, out_byte TIMER0 (TIMER_COUNT cf),
      out_byte TIMER0 (drop_bit 8 (TIMER_COUNT cf)), Put_irq_handler, Enable_irq]"

definition clock_stop :: "chip_op list" where
  "clock_stop = [out_byte TIMER_MODE 0x36, out_byte TIMER0 0, out_byte TIMER0 0]"

section \<open>Delays\<close>

record milli_state =
  prev_count :: "32 word"
  accum_count :: "32 word"

definition milli_start :: milli_state where
  "milli_start = \<lparr>prev_count = 0, accum_count = 0\<rparr>"

text \<open>The two bytes that a latched counter is read in, low byte first.\<close>

definition latched :: "8 word \<times> 8 word \<Rightarrow> 32 word" where
  "latched b = (ucast (fst b) OR push_bit 8 (ucast (snd b)))"

definition milli_elapsed :: "8 word \<times> 8 word \<Rightarrow> milli_state \<Rightarrow> 32 word \<times> milli_state" where
  "milli_elapsed b msp =
     (let count = latched b;
          msp = msp\<lparr>accum_count := accum_count msp + (if count \<le> prev_count msp then prev_count msp - count else 1)\<rparr>;
          msp = msp\<lparr>prev_count := count\<rparr>
      in (accum_count msp div word_of_int (TIMER_FREQ div 1000), msp))"

text \<open>\<open>read n\<close> is what the chip shows at the \<open>n\<close>-th call; the result is the number of calls, and
  \<open>None\<close> that the loop never ends.\<close>

partial_function (option) milli_wait ::
  "32 word \<Rightarrow> (nat \<Rightarrow> 8 word \<times> 8 word) \<Rightarrow> nat \<Rightarrow> milli_state \<Rightarrow> nat option" where
  "milli_wait millisec read n msp =
     (case milli_elapsed (read n) msp of
        (e, msp) \<Rightarrow> if e < millisec then milli_wait millisec read (Suc n) msp else Some (Suc n))"

definition milli_delay :: "32 word \<Rightarrow> (nat \<Rightarrow> 8 word \<times> 8 word) \<Rightarrow> nat option" where
  "milli_delay millisec read = milli_wait millisec read 0 milli_start"

section \<open>A counter that counts down\<close>

text \<open>The counter runs down from \<open>period - 1\<close> to 0 and starts again; \<open>at n\<close> is the number of counts
  that have passed when it is read for the \<open>n\<close>-th time.\<close>

definition shown :: "nat \<Rightarrow> nat \<Rightarrow> nat" where
  "shown period t = period - 1 - t mod period"

definition counts_down :: "nat \<Rightarrow> (nat \<Rightarrow> nat) \<Rightarrow> (nat \<Rightarrow> 8 word \<times> 8 word) \<Rightarrow> bool" where
  "counts_down period at read \<longleftrightarrow> 0 < period \<and> period \<le> 65536 \<and> mono at \<and> (\<forall>n. unat (latched (read n)) = shown period (at n))"

text \<open>The state of the delay before each call.\<close>

primrec polled :: "(nat \<Rightarrow> 8 word \<times> 8 word) \<Rightarrow> nat \<Rightarrow> milli_state" where
  "polled read 0 = milli_start"
| "polled read (Suc n) = snd (milli_elapsed (read n) (polled read n))"

definition accum :: "(nat \<Rightarrow> 8 word \<times> 8 word) \<Rightarrow> nat \<Rightarrow> nat" where
  "accum read n = unat (accum_count (polled read n))"

lemma elapsed_polled: "fst (milli_elapsed (read n) (polled read n)) = accum_count (polled read (Suc n)) div 1193"
  by (simp add: milli_elapsed_def Let_def TIMER_FREQ_def)

lemma prev_polled: "prev_count (polled read (Suc n)) = latched (read n)"
  by (simp add: milli_elapsed_def Let_def)

lemma accum_Suc:
  "accum_count (polled read (Suc n)) = accum_count (polled read n)
     + (if latched (read n) \<le> prev_count (polled read n) then prev_count (polled read n) - latched (read n) else 1)"
  by (simp add: milli_elapsed_def Let_def)

lemma unat_div_1193: "unat (w div 1193 :: 32 word) = unat w div 1193"
  by (simp add: unat_div)

lemma milli_wait_step:
  "milli_wait ms read n (polled read n) =
     (if accum read (Suc n) div 1193 < unat ms then milli_wait ms read (Suc n) (polled read (Suc n)) else Some (Suc n))"
proof -
  have "fst (milli_elapsed (read n) (polled read n)) < ms \<longleftrightarrow> accum read (Suc n) div 1193 < unat ms"
    by (simp only: elapsed_polled word_less_nat_alt unat_div_1193 accum_def)
  then show ?thesis by (subst milli_wait.simps) (simp add: case_prod_beta)
qed

text \<open>The loop returns at the first call that finds enough counts, and does not return when there
  is none.\<close>

lemma milli_wait_returns:
  assumes "accum read (Suc (n + k)) div 1193 \<ge> unat ms" and "\<And>j. j < k \<Longrightarrow> accum read (Suc (n + j)) div 1193 < unat ms"
  shows "milli_wait ms read n (polled read n) = Some (Suc (n + k))"
  using assms
proof (induction k arbitrary: n)
  case 0
  then show ?case by (simp add: milli_wait_step)
next
  case (Suc k)
  from Suc.prems(2) [of 0] have "milli_wait ms read n (polled read n) = milli_wait ms read (Suc n) (polled read (Suc n))"
    by (simp add: milli_wait_step del: polled.simps)
  also have "\<dots> = Some (Suc (Suc n + k))"
  proof (rule Suc.IH)
    show "accum read (Suc (Suc n + k)) div 1193 \<ge> unat ms" using Suc.prems(1) by simp
    show "accum read (Suc (Suc n + j)) div 1193 < unat ms" if "j < k" for j using Suc.prems(2) [of "Suc j"] that by simp
  qed
  finally show ?case by simp
qed

lemma shown_falls: "shown period (t + d) \<le> shown period t \<Longrightarrow> shown period t - shown period (t + d) \<le> d"
proof -
  have "(t + d) mod period \<le> t mod period + d" by (metis mod_add_left_eq mod_less_eq_dividend)
  then show ?thesis by (simp add: shown_def)
qed

lemma shown_moves:
  assumes "0 < d" and "d < period"
  shows "shown period (t + d) \<noteq> shown period t"
proof -
  have "0 < period" using assms by simp
  then have l: "t mod period < period" "(t + d) mod period < period" by simp_all
  have "(t + d) mod period \<noteq> t mod period"
  proof
    assume "(t + d) mod period = t mod period"
    then have "period dvd d" using mod_eq_dvd_iff_nat [of t "t + d" period] by simp
    with assms show False by (simp add: nat_dvd_not_less)
  qed
  with l show ?thesis unfolding shown_def by linarith
qed

section \<open>How long a delay takes\<close>

lemma accum_first: "accum read (Suc 0) \<le> 1"
  by (simp add: accum_def milli_elapsed_def milli_start_def Let_def)

lemma gain:
  assumes "counts_down period at read"
  shows "unat (if latched (read (Suc n)) \<le> latched (read n) then latched (read n) - latched (read (Suc n)) else 1)
           = (if shown period (at (Suc n)) \<le> shown period (at n) then shown period (at n) - shown period (at (Suc n)) else 1)"
  using assms by (simp add: counts_down_def unat_sub word_le_nat_alt)

lemma gain_le:
  assumes "counts_down period at read"
  shows "(if shown period (at (Suc n)) \<le> shown period (at n) then shown period (at n) - shown period (at (Suc n)) else 1)
           \<le> at (Suc n) - at n"
proof -
  have m: "at n \<le> at (Suc n)" using assms by (simp add: counts_down_def mono_def)
  then have e: "at n + (at (Suc n) - at n) = at (Suc n)" by simp
  show ?thesis
  proof (cases "shown period (at (Suc n)) \<le> shown period (at n)")
    case True
    with shown_falls [of period "at n" "at (Suc n) - at n"] e show ?thesis by simp
  next
    case False
    then have "at (Suc n) \<noteq> at n" by auto
    with m False show ?thesis by simp
  qed
qed

lemma unat_add_le: "unat (a + b :: 32 word) \<le> unat a + unat b"
  by (simp add: unat_word_ariths)

lemma accum_le:
  assumes "counts_down period at read"
  shows "accum read (Suc n) \<le> at n - at 0 + 1"
proof (induction n)
  case 0
  show ?case using accum_first [of read] by simp
next
  case (Suc n)
  have m: "at 0 \<le> at n" "at n \<le> at (Suc n)" using assms by (simp_all add: counts_down_def mono_def)
  have "accum read (Suc (Suc n)) \<le> accum read (Suc n) + (at (Suc n) - at n)"
    using gain_le [OF assms, of n] unfolding accum_def accum_Suc [of read "Suc n"] prev_polled gain [OF assms, symmetric]
    by (metis (no_types) add_left_mono order_trans unat_add_le)
  with Suc.IH m show ?case by simp
qed

lemma accum_grows:
  assumes c: "counts_down period at read" and d: "at n < at (Suc n)" "at (Suc n) < at n + period"
    and b: "accum read (Suc n) + 65536 < 2 ^ 32"
  shows "accum read (Suc n) < accum read (Suc (Suc n))"
proof -
  let ?g = "if shown period (at (Suc n)) \<le> shown period (at n) then shown period (at n) - shown period (at (Suc n)) else 1"
  have "at n + (at (Suc n) - at n) = at (Suc n)" using d by simp
  then have "shown period (at (Suc n)) \<noteq> shown period (at n)"
    using shown_moves [of "at (Suc n) - at n" period "at n"] d by simp
  then have p: "0 < ?g" by auto
  have "0 < period" "period \<le> 65536" using c by (simp_all add: counts_down_def)
  then have "shown period (at n) < 65536" unfolding shown_def by linarith
  then have l: "?g < 65536" by auto
  have "accum read (Suc (Suc n)) = (accum read (Suc n) + ?g) mod 2 ^ 32"
    unfolding accum_def accum_Suc [of read "Suc n"] prev_polled gain [OF c, symmetric] by (simp add: unat_word_ariths)
  also have "\<dots> = accum read (Suc n) + ?g" using b l by simp
  finally show ?thesis using p by simp
qed

lemma accum_reaches:
  assumes "counts_down period at read" and "\<And>n. at n < at (Suc n) \<and> at (Suc n) < at n + period" and "goal + 65536 < 2 ^ 32"
  shows "\<exists>k \<le> goal. goal \<le> accum read (Suc k)"
proof (rule ccontr)
  assume "\<not> (\<exists>k \<le> goal. goal \<le> accum read (Suc k))"
  then have n: "\<And>k. k \<le> goal \<Longrightarrow> accum read (Suc k) < goal" by (meson leI)
  have "k \<le> accum read (Suc k)" if "k \<le> goal" for k
    using that
  proof (induction k)
    case (Suc k)
    have "accum read (Suc k) < accum read (Suc (Suc k))"
      using n [of k] Suc.prems assms by (intro accum_grows [OF assms(1)]) auto
    with Suc show ?case by simp
  qed simp
  from this [of goal] n [of goal] show False by simp
qed

lemma milli_wait_forever:
  assumes "3600140 < unat ms"
  shows "milli_wait ms read n msp = None"
proof (rule ccontr)
  assume "milli_wait ms read n msp \<noteq> None"
  then obtain r where r: "milli_wait ms read n msp = Some r" by auto
  have "unat ms \<le> 3600140"
  proof (rule milli_wait.raw_induct [where P = "\<lambda>ms read n msp r. unat ms \<le> 3600140", OF _ r])
    fix f ms read n msp r
    assume IH: "\<And>ms read n msp r. f ms read n msp = Some r \<Longrightarrow> unat ms \<le> 3600140"
      and eq: "(case milli_elapsed (read n) msp of (e, msp) \<Rightarrow> if e < ms then f ms read (Suc n) msp else Some (Suc n)) = Some r"
    obtain e msp' where m: "milli_elapsed (read n) msp = (e, msp')" by (rule prod.exhaust)
    show "unat (ms :: 32 word) \<le> 3600140"
    proof (cases "e < ms")
      case True
      with eq m have "f ms read (Suc n) msp' = Some r" by simp
      then show ?thesis by (rule IH)
    next
      case False
      from m have "e = accum_count msp' div 1193" by (auto simp: milli_elapsed_def Let_def TIMER_FREQ_def)
      then have "unat e = unat (accum_count msp') div 1193" by (simp only: unat_div_1193)
      moreover have "unat (accum_count msp') < 2 ^ 32" using unsigned_less [of "accum_count msp'"] by simp
      ultimately show ?thesis using False by (simp add: word_less_nat_alt not_less)
    qed
  qed
  with assms show False by simp
qed

text \<open>C11: A delay. While the counter is read often enough that it has moved, and by less than a full
  cycle, since the last time, a delay of up to an hour ends: after no more than 1193 calls for a
  millisecond, and not before the counter has counted 1193 for each millisecond but one. As the
  counter counts at twice the frequency of the timer, a delay that sees every count is over
  in half the time asked for. A delay of more than 3600140 milliseconds never ends: the sum of the counts cannot
  become that large.\<close>
theorem milli_delay_spec:
  assumes "counts_down period at read" and "\<And>n. at n < at (Suc n) \<and> at (Suc n) < at n + period"
  shows "(unat ms \<le> 3600000 \<longrightarrow>
      (\<exists>n. milli_delay ms read = Some (Suc n) \<and> n \<le> 1193 * unat ms \<and> 1193 * unat ms \<le> at n - at 0 + 1
        \<and> ((\<forall>n. at (Suc n) = Suc (at n)) \<longrightarrow> 2000 * int (at n - at 0) \<le> int (unat ms) * COUNTER_FREQ)))
    \<and> (3600140 < unat ms \<longrightarrow> milli_delay ms read = None)"
proof (intro conjI impI)
  assume ms: "unat ms \<le> 3600000"
  let ?T = "1193 * unat ms"
  define k where "k = (LEAST k. ?T \<le> accum read (Suc k))"
  obtain j where j: "j \<le> ?T" "?T \<le> accum read (Suc j)"
    using accum_reaches [OF assms, of ?T] ms by auto
  then have k: "?T \<le> accum read (Suc k)" "k \<le> ?T"
    unfolding k_def by (auto intro: LeastI Least_le order_trans)
  have before: "accum read (Suc i) < ?T" if "i < k" for i using not_less_Least [of i "\<lambda>k. ?T \<le> accum read (Suc k)"] that unfolding k_def by simp
  have "milli_delay ms read = Some (Suc k)"
    using milli_wait_returns [of ms read 0 k] k before by (auto simp: milli_delay_def less_mult_imp_div_less mult.commute)
  moreover have "?T \<le> at k - at 0 + 1" using accum_le [OF assms(1), of k] k(1) by simp
  moreover have "2000 * int (at k - at 0) \<le> int (unat ms) * COUNTER_FREQ" if "\<forall>n. at (Suc n) = Suc (at n)"
  proof -
    have "at k = at 0 + k" by (induction k) (simp_all add: that)
    moreover have "int k \<le> 1193 * int (unat ms)" using k(2) by linarith
    ultimately show ?thesis by (simp add: COUNTER_FREQ_def TIMER_FREQ_def)
  qed
  ultimately show "\<exists>n. milli_delay ms read = Some (Suc n) \<and> n \<le> ?T \<and> ?T \<le> at n - at 0 + 1
      \<and> ((\<forall>n. at (Suc n) = Suc (at n)) \<longrightarrow> 2000 * int (at n - at 0) \<le> int (unat ms) * COUNTER_FREQ)"
    using k(2) by blast
next
  assume "3600140 < unat ms"
  then show "milli_delay ms read = None" unfolding milli_delay_def by (rule milli_wait_forever)
qed

lemma latched_bytes:
  assumes "c < 65536"
  shows "unat (latched (word_of_nat c, word_of_nat (c div 256))) = c"
proof -
  have t: "take_bit 16 c = c" using assms by (simp add: take_bit_nat_eq_self)
  have "\<not> n < 8 \<Longrightarrow> bit c n \<Longrightarrow> n - 8 < 8" for n using bit_take_bit_iff [of 16 c n] t by simp
  moreover have "c div 256 = drop_bit 8 c" by (simp add: drop_bit_eq_div)
  ultimately have "latched (word_of_nat c, word_of_nat (c div 256)) = word_of_nat c"
    by (intro bit_word_eqI) (auto simp: latched_def bit_simps)
  with assms show ?thesis by (simp add: unsigned_of_nat take_bit_nat_eq_self)
qed

text \<open>The bytes that \<open>init_clock\<close> loads are those of \<open>TIMER_COUNT\<close>, at 19 cycles a second and more.\<close>

lemma init_clock_loads:
  assumes "19 \<le> HZ cf"
  shows "\<exists>lo hi. init_clock cf = [Wrote TIMER_MODE 0x36, Wrote TIMER0 lo, Wrote TIMER0 hi, Put_irq_handler, Enable_irq]
     \<and> int (unat (latched (lo, hi))) = TIMER_FREQ div HZ cf"
proof -
  let ?c = "TIMER_FREQ div HZ cf"
  have "TIMER_FREQ div HZ cf \<le> TIMER_FREQ div 19" using assms by (intro zdiv_mono2) (simp_all add: TIMER_FREQ_def)
  then have c: "0 \<le> ?c" "?c < 65536" using assms by (simp_all add: TIMER_FREQ_def pos_imp_zdiv_nonneg_iff)
  then have t: "TIMER_COUNT cf = ?c" using assms by (simp add: TIMER_COUNT_def uint32_def cdiv_nonneg TIMER_FREQ_def)
  from c(1) obtain n where n: "?c = int n" by (rule nonneg_int_cases)
  have "drop_bit 8 (int n) = int (n div 256)" by (simp add: drop_bit_eq_div)
  then have "init_clock cf = [Wrote TIMER_MODE 0x36, Wrote TIMER0 (word_of_nat n), Wrote TIMER0 (word_of_nat (n div 256)),
      Put_irq_handler, Enable_irq]"
    unfolding init_clock_def out_byte_def t n SQUARE_WAVE_def by simp
  moreover have "unat (latched (word_of_nat n, word_of_nat (n div 256))) = n" using c(2) n by (intro latched_bytes) simp
  ultimately show ?thesis unfolding n by (metis (no_types))
qed

text \<open>A counter of 60 cycles a second, read at every count.\<close>

definition every_count :: "nat \<Rightarrow> 8 word \<times> 8 word" where
  "every_count n = (let c = shown 19886 n in (word_of_nat c, word_of_nat (c div 256)))"

theorem milli_delay_spec_witness:
  "(\<exists>n. milli_delay 5 every_count = Some (Suc n) \<and> n \<le> 5965 \<and> 5965 \<le> n + 1 \<and> 2000 * int n \<le> 5 * COUNTER_FREQ)
     \<and> milli_delay 4000000 every_count = None"
proof -
  have "unat (latched (every_count n)) = shown 19886 n" for n
    unfolding every_count_def Let_def by (rule latched_bytes) (simp add: shown_def)
  then have c: "counts_down 19886 id every_count" by (simp add: counts_down_def monoI)
  have m: "id n < id (Suc n) \<and> id (Suc n) < id n + 19886" for n :: nat by simp
  show ?thesis using milli_delay_spec [OF c m, of 5] milli_delay_spec [OF c m, of 4000000] by simp
qed

end
