(* ===== verification/Mm_Misc.thy ===== *)
theory Mm_Misc
  imports Swap Kernel_Setgroup
begin

text \<open>
  \<^verbatim>\<open>mm/misc.c\<close>: the system calls of the memory manager that pass a request on to the kernel.
  The caller \<open>mp\<close> is a slot of the process table. The routines of the memory manager that are
  not in the sources are fields of \<open>mm_env\<close>, and so are the numbers of the requests.
\<close>

section \<open>Surroundings\<close>

datatype reboot_req = RBT_HALT | RBT_REBOOT | RBT_PANIC | RBT_RESET | RBT_MON | RBT_OTHER

datatype svr_req = MMSIGNON | MMSWAPON | MMSWAPOFF | SVR_OTHER

record mm_env =
  SUPER_USER :: int
  INIT_PROC_NR :: nat
  reboot_of :: "int \<Rightarrow> reboot_req"
  svr_of :: "int \<Rightarrow> svr_req"
  copy_ok :: "nat \<Rightarrow> 32 word \<Rightarrow> int \<Rightarrow> bool"
  user_byte :: "nat \<Rightarrow> 32 word \<Rightarrow> 8 word"
  sizeof_swapon :: int
  get_swapon :: "nat \<Rightarrow> 32 word \<Rightarrow> string \<times> 32 word \<times> 32 word"
  check_sig :: "mm \<Rightarrow> mm"
  setreply :: "nat \<Rightarrow> int \<Rightarrow> mm \<Rightarrow> mm"
  sysctl :: "nat \<Rightarrow> int \<Rightarrow> bool \<Rightarrow> 32 word \<Rightarrow> status"
  open_fd :: int
  open_errno :: int
  pending :: "nat \<Rightarrow> mm \<Rightarrow> mm"

section \<open>do_setgroup\<close>

definition find_pid :: "config \<Rightarrow> int \<Rightarrow> mm \<Rightarrow> nat option" where
  "find_pid cf who s = find (\<lambda>i. mp_pid (mprocs s i) = who) [0 ..< NR_PROCS cf]"

definition setgroup_target :: "config \<Rightarrow> nat \<Rightarrow> int \<Rightarrow> mm \<Rightarrow> nat option" where
  "setgroup_target cf mp who s = (if who = 0 then Some mp else find_pid cf who s)"

text \<open>\<open>m\<close> is the local message before it is filled in; \<open>taskcall\<close> sends it to the system task,
  waits for the answer and gives its status and the rest of the system afterwards.\<close>

definition do_setgroup_mm ::
  "config \<Rightarrow> (message \<Rightarrow> 'k \<Rightarrow> status \<times> 'k) \<Rightarrow> nat \<Rightarrow> message \<Rightarrow> message \<Rightarrow> mm \<Rightarrow> 'k \<Rightarrow> status \<times> mm \<times> 'k" where
  "do_setgroup_mm cf taskcall mp mm_in m s k =
     (let group = fld mm_in M1_i2; estimate = fld mm_in M1_i3
      in case setgroup_target cf mp (fld mm_in M1_i1) s of
        None \<Rightarrow> (ESRCH, s, k)
      | Some proc_nr \<Rightarrow>
          if group < 1 \<or> 3 < group then (EINVAL, s, k)
          else if group = 3 \<and> estimate \<le> 0 then (EINVAL, s, k)
          else let s = set_mproc proc_nr (\<lambda>p. p\<lparr>mp_sched_group := group\<rparr>) s;
                   m = set_fld M1_i3 estimate (set_fld M1_i2 group (set_fld M1_i1 (int proc_nr) (m\<lparr>m_type := 22\<rparr>)));
                   (result, k) = taskcall m k
               in if result = OK then (result, set_mproc proc_nr (\<lambda>p. p\<lparr>mp_sched_group := group\<rparr>) s, k)
                  else (result, s, k))"

section \<open>do_reboot\<close>

text \<open>The end of the system: the function has no return statement behind \<open>sys_abort\<close>.\<close>

definition shut_down :: "config \<Rightarrow> mm_env \<Rightarrow> int \<Rightarrow> 8 word list \<Rightarrow> int \<Rightarrow> mm \<Rightarrow> status \<times> mm" where
  "shut_down cf e flag code sz s =
     (Unspecified, call [Tell_fs_exit (int (INIT_PROC_NR e)), Tell_fs_exit (MM_PROC_NR cf), Tell_fs_sync,
        Sys_abort flag code sz] (check_sig e s))"

definition do_reboot :: "config \<Rightarrow> mm_env \<Rightarrow> nat \<Rightarrow> int \<Rightarrow> 32 word \<Rightarrow> int \<Rightarrow> mm \<Rightarrow> status \<times> mm" where
  "do_reboot cf e mp reboot_flag reboot_code reboot_size s =
     (if mp_effuid (mprocs s mp) \<noteq> SUPER_USER e then (EPERM, s)
      else case reboot_of e reboot_flag of
        RBT_OTHER \<Rightarrow> (EINVAL, s)
      | RBT_MON \<Rightarrow>
          (let code = map (\<lambda>i. user_byte e mp (reboot_code + of_nat i)) [0 ..< nat (reboot_size + 1)]
           in if 128 \<le> uint32 reboot_size then (EINVAL, s)
              else if \<not> copy_ok e mp reboot_code (reboot_size + 1) then (EFAULT, s)
              else if code ! nat reboot_size \<noteq> 0 then (EINVAL, s)
              else shut_down cf e reboot_flag code reboot_size s)
      | _ \<Rightarrow> shut_down cf e reboot_flag [] reboot_size s)"

section \<open>do_svrctl\<close>

definition disinherit :: "config \<Rightarrow> mm_env \<Rightarrow> nat \<Rightarrow> mm \<Rightarrow> mm" where
  "disinherit cf e who s = fold (\<lambda>i s.
      if IN_USE \<in> mp_flags (mprocs s i) \<and> mp_parent (mprocs s i) = who
      then set_mproc i (\<lambda>p. p\<lparr>mp_parent := INIT_PROC_NR e\<rparr>) s else s) [0 ..< NR_PROCS cf] s"

definition wakes_parent :: "nat \<Rightarrow> mm \<Rightarrow> bool" where
  "wakes_parent mp s =
     (let rmp = mprocs s (mp_parent (mprocs s mp)); pidarg = mp_wpid rmp
      in WAITING \<in> mp_flags rmp \<and> (pidarg = - 1 \<or> pidarg = mp_pid (mprocs s mp)
           \<or> int32 (- pidarg) = mp_procgrp (mprocs s mp)))"

definition sign_on :: "config \<Rightarrow> mm_env \<Rightarrow> nat \<Rightarrow> mm \<Rightarrow> mm" where
  "sign_on cf e mp s =
     (let s = call [Tell_fs_exit (int mp)] s;
          parent = mp_parent (mprocs s mp);
          s = (if wakes_parent mp s
               then set_mproc parent (\<lambda>p. p\<lparr>mp_flags := mp_flags p - {WAITING}\<rparr>)
                      (setreply e parent (mp_pid (mprocs s mp))
                        (set_mproc parent (\<lambda>p. p\<lparr>mp_reply_res2 := 0\<rparr>) s))
               else s)
      in set_mproc mp (\<lambda>p. p\<lparr>mp_pid := 0, mp_procgrp := 0, mp_parent := 0\<rparr>) (disinherit cf e mp s))"

text \<open>\<open>n\<close> bounds the walk of \<open>swap_off\<close> over the holes.\<close>

definition do_svrctl :: "nat \<Rightarrow> config \<Rightarrow> mm_env \<Rightarrow> nat \<Rightarrow> int \<Rightarrow> 32 word \<Rightarrow> mm \<Rightarrow> (status \<times> mm) res" where
  "do_svrctl n cf e mp req ptr s =
     (let super = (mp_effuid (mprocs s mp) = SUPER_USER e)
      in if (req div 256) mod 256 = of_char (CHR ''S'')
         then Ok (sysctl e mp req super ptr, call [Sys_sysctl mp req super ptr] s)
         else case svr_of e req of
           MMSIGNON \<Rightarrow> if \<not> super then Ok (EPERM, s) else Ok (OK, sign_on cf e mp s)
         | MMSWAPON \<Rightarrow>
             if \<not> super then Ok (EPERM, s)
             else if \<not> copy_ok e mp ptr (sizeof_swapon e) then Ok (EFAULT, s)
             else (let (file, offset, sz) = get_swapon e mp ptr
                   in swap_on cf file offset sz (open_fd e) (open_errno e) s)
         | MMSWAPOFF \<Rightarrow> if \<not> super then Ok (EPERM, s) else swap_off n cf (pending e) s
         | SVR_OTHER \<Rightarrow> Ok (EINVAL, s))"

section \<open>Groups of the two tables\<close>

text \<open>The memory manager and the kernel agree on the group of every user process, the group is
  one of 0 to 3, and a process of group 3 has a positive estimate.\<close>

definition groups_agree :: "config \<Rightarrow> mm \<Rightarrow> kern \<Rightarrow> bool" where
  "groups_agree cf s k \<longleftrightarrow> (\<forall>p < NR_PROCS cf. isuserp (procs k (int p)) \<longrightarrow>
     mp_sched_group (mprocs s p) = sched_group (procs k (int p)) \<and> sched_group (procs k (int p)) \<in> {0, 1, 2, 3}
     \<and> (sched_group (procs k (int p)) = 3 \<longrightarrow> 0 < cpu_estimate (procs k (int p))))"

lemma find_pid_Some: "find_pid cf who s = Some p \<Longrightarrow> p < NR_PROCS cf \<and> mp_pid (mprocs s p) = who"
  by (auto simp: find_pid_def find_Some_iff)

lemma find_pid_None: "find_pid cf who s = None \<longleftrightarrow> (\<forall>p < NR_PROCS cf. mp_pid (mprocs s p) \<noteq> who)"
  by (auto simp: find_pid_def find_None_iff)

lemma kernel_setgroup_fields:
  assumes "fld m M1_i1 = int p" "fld m M1_i2 = g" "fld m M1_i3 = est"
  shows "do_setgroup m k = (if isuserp (procs k (int p))
     then (OK, upd (int p) (\<lambda>r. r\<lparr>sched_group := g, wait_ticks := 0, rr_counter := 0,
                              cpu_estimate := (if g = 3 then est else 100)\<rparr>) k)
     else (EINVAL, k))"
  using assms by (simp add: do_setgroup_def)

text \<open>The run of the call through both components.\<close>

lemma setgroup_run:
  assumes "setgroup_target cf mp (fld mm_in M1_i1) s = Some p" "1 \<le> fld mm_in M1_i2" "fld mm_in M1_i2 \<le> 3"
    "fld mm_in M1_i2 = 3 \<longrightarrow> 0 < fld mm_in M1_i3"
  shows "\<exists>s'. mprocs s' = (mprocs s)(p := (mprocs s p)\<lparr>mp_sched_group := fld mm_in M1_i2\<rparr>) \<and>
    do_setgroup_mm cf do_setgroup mp mm_in m s k =
      (if isuserp (procs k (int p))
       then (OK, s', upd (int p) (\<lambda>r. r\<lparr>sched_group := fld mm_in M1_i2, wait_ticks := 0, rr_counter := 0,
                              cpu_estimate := (if fld mm_in M1_i2 = 3 then fld mm_in M1_i3 else 100)\<rparr>) k)
       else (EINVAL, s', k))"
proof -
  let ?m = "set_fld M1_i3 (fld mm_in M1_i3) (set_fld M1_i2 (fld mm_in M1_i2) (set_fld M1_i1 (int p) (m\<lparr>m_type := 22\<rparr>)))"
  have f: "fld ?m M1_i1 = int p" "fld ?m M1_i2 = fld mm_in M1_i2" "fld ?m M1_i3 = fld mm_in M1_i3"
    by (simp_all add: fld_def set_fld_def)
  show ?thesis
    using assms by (auto simp: do_setgroup_mm_def kernel_setgroup_fields [OF f] set_mproc_def Let_def)
qed

end
