(* ===== verification/Mm_Misc_Props.thy ===== *)
theory Mm_Misc_Props
  imports Mm_Misc Swap_Props
begin

text \<open>
  The call \<open>setgroup\<close> through the memory manager and the system task.
\<close>

lemma setgroup_target_slot:
  assumes "setgroup_target cf mp who s = Some p" and "mp < NR_PROCS cf"
  shows "p < NR_PROCS cf"
  using assms find_pid_Some by (auto simp: setgroup_target_def split: if_splits)

lemma groups_agree_set:
  assumes a: "groups_agree cf s k" and g: "g \<in> {1, 2, 3}" "g = 3 \<longrightarrow> 0 < est"
    and s': "mprocs s' = (mprocs s)(p := (mprocs s p)\<lparr>mp_sched_group := g\<rparr>)"
  shows "groups_agree cf s' (upd (int p) (\<lambda>r. r\<lparr>sched_group := g, wait_ticks := 0, rr_counter := 0,
                              cpu_estimate := (if g = 3 then est else 100)\<rparr>) k)"
    and "\<not> isuserp (procs k (int p)) \<Longrightarrow> groups_agree cf s' k"
  using assms by (auto simp: groups_agree_def isuserp_def)

text \<open>C33: \<open>setgroup\<close> through both components keeps the groups well formed: if the memory manager
  and the kernel agree on the group of every user process, every group is one of 0 to 3 and
  processes of group 3 have a positive estimate, then all this holds afterwards, whatever the
  arguments. If the call succeeds, the group of the target is the given one in both tables and
  no other process of the kernel has changed; if it fails, the kernel has not changed. The
  error is \<open>ESRCH\<close> exactly if a process is named that does not exist.\<close>
theorem mm_setgroup_keeps_groups:
  assumes "groups_agree cf s k" and "mp < NR_PROCS cf"
  shows "\<exists>r s' k'. do_setgroup_mm cf do_setgroup mp mm_in m s k = (r, s', k') \<and> groups_agree cf s' k'
    \<and> (r = OK \<longrightarrow> (\<exists>p < NR_PROCS cf. setgroup_target cf mp (fld mm_in M1_i1) s = Some p \<and> isuserp (procs k (int p))
          \<and> sched_group (procs k' (int p)) = fld mm_in M1_i2 \<and> mp_sched_group (mprocs s' p) = fld mm_in M1_i2
          \<and> (\<forall>q. q \<noteq> int p \<longrightarrow> procs k' q = procs k q)))
    \<and> (r \<noteq> OK \<longrightarrow> k' = k)
    \<and> (r = ESRCH \<longleftrightarrow> fld mm_in M1_i1 \<noteq> 0 \<and> (\<forall>p < NR_PROCS cf. mp_pid (mprocs s p) \<noteq> fld mm_in M1_i1))"
proof (cases "setgroup_target cf mp (fld mm_in M1_i1) s")
  case None
  then show ?thesis
    using assms(1) by (auto simp: do_setgroup_mm_def setgroup_target_def find_pid_None split: if_splits)
next
  case (Some p)
  then have ex: "\<not> (fld mm_in M1_i1 \<noteq> 0 \<and> (\<forall>p < NR_PROCS cf. mp_pid (mprocs s p) \<noteq> fld mm_in M1_i1))"
    using find_pid_Some [of cf _ s p] by (auto simp: setgroup_target_def split: if_splits)
  have p: "p < NR_PROCS cf" using setgroup_target_slot [OF Some assms(2)] .
  show ?thesis
  proof (cases "1 \<le> fld mm_in M1_i2 \<and> fld mm_in M1_i2 \<le> 3 \<and> (fld mm_in M1_i2 = 3 \<longrightarrow> 0 < fld mm_in M1_i3)")
    case False
    then have "do_setgroup_mm cf do_setgroup mp mm_in m s k = (EINVAL, s, k)"
      using Some by (auto simp: do_setgroup_mm_def)
    with assms(1) ex show ?thesis by auto
  next
    case True
    then have g: "fld mm_in M1_i2 \<in> {1, 2, 3}" "fld mm_in M1_i2 = 3 \<longrightarrow> 0 < fld mm_in M1_i3" by auto
    from setgroup_run [OF Some, of m k] True obtain s' where
      s': "mprocs s' = (mprocs s)(p := (mprocs s p)\<lparr>mp_sched_group := fld mm_in M1_i2\<rparr>)" and
      run: "do_setgroup_mm cf do_setgroup mp mm_in m s k =
        (if isuserp (procs k (int p))
         then (OK, s', upd (int p) (\<lambda>r. r\<lparr>sched_group := fld mm_in M1_i2, wait_ticks := 0, rr_counter := 0,
                              cpu_estimate := (if fld mm_in M1_i2 = 3 then fld mm_in M1_i3 else 100)\<rparr>) k)
         else (EINVAL, s', k))" by blast
    note ag = groups_agree_set [OF assms(1) g s']
    show ?thesis
    proof (cases "isuserp (procs k (int p))")
      case True
      with run ag(1) ex Some p s' show ?thesis by auto
    next
      case False
      with run ag(2) ex show ?thesis by auto
    qed
  qed
qed

text \<open>Process 101, which is user process 1 of the small kernel, asks for process 102 to be put
  into group 3.\<close>

definition group_mm :: mm where
  "group_mm = small_mm\<lparr>mprocs := (\<lambda>i. idle_proc\<lparr>mp_pid := int i + 100, mp_sched_group := sched_group (procs small_kern (int i))\<rparr>)\<rparr>"

definition setgroup_msg :: "int \<Rightarrow> int \<Rightarrow> int \<Rightarrow> message" where
  "setgroup_msg who g est = \<lparr>m_source = 0, m_type = 78,
     m_field = (\<lambda>_. 0)(M1_i1 := who, M1_i2 := g, M1_i3 := est), m3_ca1 = [], sig_map = {}\<rparr>"

theorem mm_setgroup_keeps_groups_witness:
  "\<exists>r s' k'. do_setgroup_mm small_config do_setgroup 1 (setgroup_msg 102 3 50) (setgroup_msg 0 0 0) group_mm small_kern = (r, s', k')
     \<and> groups_agree small_config s' k' \<and> r \<noteq> ESRCH"
proof -
  have n: "NR_PROCS small_config = 4" by (simp add: small_config_def)
  have "groups_agree small_config group_mm small_kern"
    by (auto simp: groups_agree_def group_mm_def small_kern_def user_proc_def blank_proc_def isuserp_def)
  moreover have "mp_pid (mprocs group_mm 2) = 102" by (simp add: group_mm_def)
  moreover have "fld (setgroup_msg 102 3 50) M1_i1 = 102" by (simp add: setgroup_msg_def fld_def)
  ultimately show ?thesis
    using mm_setgroup_keeps_groups [of small_config group_mm small_kern 1 "setgroup_msg 102 3 50" "setgroup_msg 0 0 0"] n by fastforce
qed

end
