(* ===== verification/Call_Tables.thy ===== *)
theory Call_Tables
  imports Main
begin

text \<open>
  The numbers of the system calls (\<^verbatim>\<open>include/minix/callnr.h\<close>) and the tables of the memory
  manager and of the file system that map them to routines (\<^verbatim>\<open>mm/table.c\<close>, \<^verbatim>\<open>fs/table.c\<close>), of
  the system of exercise 2 (suffix \<open>_2\<close>, with \<open>setgroup\<close>) and of exercise 5 (suffix \<open>_5\<close>, with
  \<open>hole_map\<close> and \<open>worst_fit\<close>). A routine is a name: the tables hold pointers to code most of
  which is not in the sources.
\<close>

section \<open>Routines\<close>

text \<open>Of the memory manager, and of the file system.\<close>

datatype mm_routine =
    Mm_no_sys | Mm_do_mm_exit | Mm_do_fork | Mm_do_waitpid | Mm_do_brk | Mm_do_getset |
    Mm_do_trace | Mm_do_alarm | Mm_do_pause | Mm_do_kill | Mm_do_exec | Mm_do_ksig |
    Mm_do_sigaction | Mm_do_sigsuspend | Mm_do_sigpending | Mm_do_sigprocmask |
    Mm_do_sigreturn | Mm_do_reboot | Mm_do_svrctl | Mm_do_setgroup | Mm_do_hole_map |
    Mm_do_worst_fit

datatype fs_routine =
    Fs_no_sys | Fs_do_exit | Fs_do_fork | Fs_do_read | Fs_do_write | Fs_do_open | Fs_do_close |
    Fs_do_creat | Fs_do_link | Fs_do_unlink | Fs_do_chdir | Fs_do_time | Fs_do_mknod |
    Fs_do_chmod | Fs_do_chown | Fs_do_stat | Fs_do_lseek | Fs_do_mount | Fs_do_umount |
    Fs_do_set | Fs_do_stime | Fs_do_fstat | Fs_do_utime | Fs_do_access | Fs_do_sync |
    Fs_do_rename | Fs_do_mkdir | Fs_do_dup | Fs_do_pipe | Fs_do_tims | Fs_do_ioctl |
    Fs_do_fcntl | Fs_do_exec | Fs_do_umask | Fs_do_chroot | Fs_do_setsid | Fs_do_unpause |
    Fs_do_revive | Fs_do_svrctl

section \<open>Numbers\<close>

definition NCALLS_2 :: nat where "NCALLS_2 = 79"

definition callnr_2 :: "(string \<times> nat) list" where
  "callnr_2 =
    [(''EXIT'', 1), (''FORK'', 2), (''READ'', 3), (''WRITE'', 4), (''OPEN'', 5),
     (''CLOSE'', 6), (''WAIT'', 7), (''CREAT'', 8), (''LINK'', 9), (''UNLINK'', 10),
     (''WAITPID'', 11), (''CHDIR'', 12), (''TIME'', 13), (''MKNOD'', 14), (''CHMOD'', 15),
     (''CHOWN'', 16), (''BRK'', 17), (''STAT'', 18), (''LSEEK'', 19), (''GETPID'', 20),
     (''MOUNT'', 21), (''UMOUNT'', 22), (''SETUID'', 23), (''GETUID'', 24), (''STIME'', 25),
     (''PTRACE'', 26), (''ALARM'', 27), (''FSTAT'', 28), (''PAUSE'', 29), (''UTIME'', 30),
     (''ACCESS'', 33), (''SYNC'', 36), (''KILL'', 37), (''RENAME'', 38), (''MKDIR'', 39),
     (''RMDIR'', 40), (''DUP'', 41), (''PIPE'', 42), (''TIMES'', 43), (''SETGID'', 46),
     (''GETGID'', 47), (''SIGNAL'', 48), (''IOCTL'', 54), (''FCNTL'', 55), (''EXEC'', 59),
     (''UMASK'', 60), (''CHROOT'', 61), (''SETSID'', 62), (''GETPGRP'', 63), (''KSIG'', 64),
     (''UNPAUSE'', 65), (''REVIVE'', 67), (''TASK_REPLY'', 68), (''SIGACTION'', 71),
     (''SIGSUSPEND'', 72), (''SIGPENDING'', 73), (''SIGPROCMASK'', 74), (''SIGRETURN'', 75),
     (''REBOOT'', 76), (''SVRCTL'', 77), (''SETGROUP'', 78)]"

definition NCALLS_5 :: nat where "NCALLS_5 = 80"

definition callnr_5 :: "(string \<times> nat) list" where
  "callnr_5 =
    [(''EXIT'', 1), (''FORK'', 2), (''READ'', 3), (''WRITE'', 4), (''OPEN'', 5),
     (''CLOSE'', 6), (''WAIT'', 7), (''CREAT'', 8), (''LINK'', 9), (''UNLINK'', 10),
     (''WAITPID'', 11), (''CHDIR'', 12), (''TIME'', 13), (''MKNOD'', 14), (''CHMOD'', 15),
     (''CHOWN'', 16), (''BRK'', 17), (''STAT'', 18), (''LSEEK'', 19), (''GETPID'', 20),
     (''MOUNT'', 21), (''UMOUNT'', 22), (''SETUID'', 23), (''GETUID'', 24), (''STIME'', 25),
     (''PTRACE'', 26), (''ALARM'', 27), (''FSTAT'', 28), (''PAUSE'', 29), (''UTIME'', 30),
     (''ACCESS'', 33), (''SYNC'', 36), (''KILL'', 37), (''RENAME'', 38), (''MKDIR'', 39),
     (''RMDIR'', 40), (''DUP'', 41), (''PIPE'', 42), (''TIMES'', 43), (''SETGID'', 46),
     (''GETGID'', 47), (''SIGNAL'', 48), (''IOCTL'', 54), (''FCNTL'', 55), (''EXEC'', 59),
     (''UMASK'', 60), (''CHROOT'', 61), (''SETSID'', 62), (''GETPGRP'', 63), (''KSIG'', 64),
     (''UNPAUSE'', 65), (''REVIVE'', 67), (''TASK_REPLY'', 68), (''SIGACTION'', 71),
     (''SIGSUSPEND'', 72), (''SIGPENDING'', 73), (''SIGPROCMASK'', 74), (''SIGRETURN'', 75),
     (''REBOOT'', 76), (''SVRCTL'', 77), (''HOLE_MAP'', 78), (''WORST_FIT'', 79)]"

section \<open>Tables\<close>

definition mm_call_vec_2 :: "mm_routine list" where
  "mm_call_vec_2 =
    [Mm_no_sys, Mm_do_mm_exit, Mm_do_fork, Mm_no_sys, Mm_no_sys, Mm_no_sys, Mm_no_sys,
     Mm_do_waitpid, Mm_no_sys, Mm_no_sys, Mm_no_sys, Mm_do_waitpid, Mm_no_sys, Mm_no_sys,
     Mm_no_sys, Mm_no_sys, Mm_no_sys, Mm_do_brk, Mm_no_sys, Mm_no_sys, Mm_do_getset, Mm_no_sys,
     Mm_no_sys, Mm_do_getset, Mm_do_getset, Mm_no_sys, Mm_do_trace, Mm_do_alarm, Mm_no_sys,
     Mm_do_pause, Mm_no_sys, Mm_no_sys, Mm_no_sys, Mm_no_sys, Mm_no_sys, Mm_no_sys, Mm_no_sys,
     Mm_do_kill, Mm_no_sys, Mm_no_sys, Mm_no_sys, Mm_no_sys, Mm_no_sys, Mm_no_sys, Mm_no_sys,
     Mm_no_sys, Mm_do_getset, Mm_do_getset, Mm_no_sys, Mm_no_sys, Mm_no_sys, Mm_no_sys,
     Mm_no_sys, Mm_no_sys, Mm_no_sys, Mm_no_sys, Mm_no_sys, Mm_no_sys, Mm_no_sys, Mm_do_exec,
     Mm_no_sys, Mm_no_sys, Mm_do_getset, Mm_do_getset, Mm_do_ksig, Mm_no_sys, Mm_no_sys,
     Mm_no_sys, Mm_no_sys, Mm_no_sys, Mm_no_sys, Mm_do_sigaction, Mm_do_sigsuspend,
     Mm_do_sigpending, Mm_do_sigprocmask, Mm_do_sigreturn, Mm_do_reboot, Mm_do_svrctl,
     Mm_do_setgroup]"

definition mm_call_vec_5 :: "mm_routine list" where
  "mm_call_vec_5 =
    [Mm_no_sys, Mm_do_mm_exit, Mm_do_fork, Mm_no_sys, Mm_no_sys, Mm_no_sys, Mm_no_sys,
     Mm_do_waitpid, Mm_no_sys, Mm_no_sys, Mm_no_sys, Mm_do_waitpid, Mm_no_sys, Mm_no_sys,
     Mm_no_sys, Mm_no_sys, Mm_no_sys, Mm_do_brk, Mm_no_sys, Mm_no_sys, Mm_do_getset, Mm_no_sys,
     Mm_no_sys, Mm_do_getset, Mm_do_getset, Mm_no_sys, Mm_do_trace, Mm_do_alarm, Mm_no_sys,
     Mm_do_pause, Mm_no_sys, Mm_no_sys, Mm_no_sys, Mm_no_sys, Mm_no_sys, Mm_no_sys, Mm_no_sys,
     Mm_do_kill, Mm_no_sys, Mm_no_sys, Mm_no_sys, Mm_no_sys, Mm_no_sys, Mm_no_sys, Mm_no_sys,
     Mm_no_sys, Mm_do_getset, Mm_do_getset, Mm_no_sys, Mm_no_sys, Mm_no_sys, Mm_no_sys,
     Mm_no_sys, Mm_no_sys, Mm_no_sys, Mm_no_sys, Mm_no_sys, Mm_no_sys, Mm_no_sys, Mm_do_exec,
     Mm_no_sys, Mm_no_sys, Mm_do_getset, Mm_do_getset, Mm_do_ksig, Mm_no_sys, Mm_no_sys,
     Mm_no_sys, Mm_no_sys, Mm_no_sys, Mm_no_sys, Mm_do_sigaction, Mm_do_sigsuspend,
     Mm_do_sigpending, Mm_do_sigprocmask, Mm_do_sigreturn, Mm_do_reboot, Mm_do_svrctl,
     Mm_do_hole_map, Mm_do_worst_fit]"

definition fs_call_vec_2 :: "fs_routine list" where
  "fs_call_vec_2 =
    [Fs_no_sys, Fs_do_exit, Fs_do_fork, Fs_do_read, Fs_do_write, Fs_do_open, Fs_do_close,
     Fs_no_sys, Fs_do_creat, Fs_do_link, Fs_do_unlink, Fs_no_sys, Fs_do_chdir, Fs_do_time,
     Fs_do_mknod, Fs_do_chmod, Fs_do_chown, Fs_no_sys, Fs_do_stat, Fs_do_lseek, Fs_no_sys,
     Fs_do_mount, Fs_do_umount, Fs_do_set, Fs_no_sys, Fs_do_stime, Fs_no_sys, Fs_no_sys,
     Fs_do_fstat, Fs_no_sys, Fs_do_utime, Fs_no_sys, Fs_no_sys, Fs_do_access, Fs_no_sys,
     Fs_no_sys, Fs_do_sync, Fs_no_sys, Fs_do_rename, Fs_do_mkdir, Fs_do_unlink, Fs_do_dup,
     Fs_do_pipe, Fs_do_tims, Fs_no_sys, Fs_no_sys, Fs_do_set, Fs_no_sys, Fs_no_sys, Fs_no_sys,
     Fs_no_sys, Fs_no_sys, Fs_no_sys, Fs_no_sys, Fs_do_ioctl, Fs_do_fcntl, Fs_no_sys,
     Fs_no_sys, Fs_no_sys, Fs_do_exec, Fs_do_umask, Fs_do_chroot, Fs_do_setsid, Fs_no_sys,
     Fs_no_sys, Fs_do_unpause, Fs_no_sys, Fs_do_revive, Fs_no_sys, Fs_no_sys, Fs_no_sys,
     Fs_no_sys, Fs_no_sys, Fs_no_sys, Fs_no_sys, Fs_no_sys, Fs_no_sys, Fs_do_svrctl, Fs_no_sys]"

definition fs_call_vec_5 :: "fs_routine list" where
  "fs_call_vec_5 =
    [Fs_no_sys, Fs_do_exit, Fs_do_fork, Fs_do_read, Fs_do_write, Fs_do_open, Fs_do_close,
     Fs_no_sys, Fs_do_creat, Fs_do_link, Fs_do_unlink, Fs_no_sys, Fs_do_chdir, Fs_do_time,
     Fs_do_mknod, Fs_do_chmod, Fs_do_chown, Fs_no_sys, Fs_do_stat, Fs_do_lseek, Fs_no_sys,
     Fs_do_mount, Fs_do_umount, Fs_do_set, Fs_no_sys, Fs_do_stime, Fs_no_sys, Fs_no_sys,
     Fs_do_fstat, Fs_no_sys, Fs_do_utime, Fs_no_sys, Fs_no_sys, Fs_do_access, Fs_no_sys,
     Fs_no_sys, Fs_do_sync, Fs_no_sys, Fs_do_rename, Fs_do_mkdir, Fs_do_unlink, Fs_do_dup,
     Fs_do_pipe, Fs_do_tims, Fs_no_sys, Fs_no_sys, Fs_do_set, Fs_no_sys, Fs_no_sys, Fs_no_sys,
     Fs_no_sys, Fs_no_sys, Fs_no_sys, Fs_no_sys, Fs_do_ioctl, Fs_do_fcntl, Fs_no_sys,
     Fs_no_sys, Fs_no_sys, Fs_do_exec, Fs_do_umask, Fs_do_chroot, Fs_do_setsid, Fs_no_sys,
     Fs_no_sys, Fs_do_unpause, Fs_no_sys, Fs_do_revive, Fs_no_sys, Fs_no_sys, Fs_no_sys,
     Fs_no_sys, Fs_no_sys, Fs_no_sys, Fs_no_sys, Fs_no_sys, Fs_no_sys, Fs_do_svrctl, Fs_no_sys,
     Fs_no_sys]"

section \<open>What the calls need\<close>

text \<open>The routine of each server by the name of the call: the calls of both systems, and the new
  ones of each.\<close>

type_synonym service = "(string \<times> mm_routine \<times> fs_routine) list"

definition old_calls :: service where
  "old_calls =
    [(''EXIT'', Mm_do_mm_exit, Fs_do_exit), (''FORK'', Mm_do_fork, Fs_do_fork),
     (''READ'', Mm_no_sys, Fs_do_read), (''WRITE'', Mm_no_sys, Fs_do_write),
     (''OPEN'', Mm_no_sys, Fs_do_open), (''CLOSE'', Mm_no_sys, Fs_do_close),
     (''WAIT'', Mm_do_waitpid, Fs_no_sys), (''CREAT'', Mm_no_sys, Fs_do_creat),
     (''LINK'', Mm_no_sys, Fs_do_link), (''UNLINK'', Mm_no_sys, Fs_do_unlink),
     (''WAITPID'', Mm_do_waitpid, Fs_no_sys), (''CHDIR'', Mm_no_sys, Fs_do_chdir),
     (''TIME'', Mm_no_sys, Fs_do_time), (''MKNOD'', Mm_no_sys, Fs_do_mknod),
     (''CHMOD'', Mm_no_sys, Fs_do_chmod), (''CHOWN'', Mm_no_sys, Fs_do_chown),
     (''BRK'', Mm_do_brk, Fs_no_sys), (''STAT'', Mm_no_sys, Fs_do_stat),
     (''LSEEK'', Mm_no_sys, Fs_do_lseek), (''GETPID'', Mm_do_getset, Fs_no_sys),
     (''MOUNT'', Mm_no_sys, Fs_do_mount), (''UMOUNT'', Mm_no_sys, Fs_do_umount),
     (''SETUID'', Mm_do_getset, Fs_do_set), (''GETUID'', Mm_do_getset, Fs_no_sys),
     (''STIME'', Mm_no_sys, Fs_do_stime), (''PTRACE'', Mm_do_trace, Fs_no_sys),
     (''ALARM'', Mm_do_alarm, Fs_no_sys), (''FSTAT'', Mm_no_sys, Fs_do_fstat),
     (''PAUSE'', Mm_do_pause, Fs_no_sys), (''UTIME'', Mm_no_sys, Fs_do_utime),
     (''ACCESS'', Mm_no_sys, Fs_do_access), (''SYNC'', Mm_no_sys, Fs_do_sync),
     (''KILL'', Mm_do_kill, Fs_no_sys), (''RENAME'', Mm_no_sys, Fs_do_rename),
     (''MKDIR'', Mm_no_sys, Fs_do_mkdir), (''RMDIR'', Mm_no_sys, Fs_do_unlink),
     (''DUP'', Mm_no_sys, Fs_do_dup), (''PIPE'', Mm_no_sys, Fs_do_pipe),
     (''TIMES'', Mm_no_sys, Fs_do_tims), (''SETGID'', Mm_do_getset, Fs_do_set),
     (''GETGID'', Mm_do_getset, Fs_no_sys), (''SIGNAL'', Mm_no_sys, Fs_no_sys),
     (''IOCTL'', Mm_no_sys, Fs_do_ioctl), (''FCNTL'', Mm_no_sys, Fs_do_fcntl),
     (''EXEC'', Mm_do_exec, Fs_do_exec), (''UMASK'', Mm_no_sys, Fs_do_umask),
     (''CHROOT'', Mm_no_sys, Fs_do_chroot), (''SETSID'', Mm_do_getset, Fs_do_setsid),
     (''GETPGRP'', Mm_do_getset, Fs_no_sys), (''KSIG'', Mm_do_ksig, Fs_no_sys),
     (''UNPAUSE'', Mm_no_sys, Fs_do_unpause), (''REVIVE'', Mm_no_sys, Fs_do_revive),
     (''TASK_REPLY'', Mm_no_sys, Fs_no_sys), (''SIGACTION'', Mm_do_sigaction, Fs_no_sys),
     (''SIGSUSPEND'', Mm_do_sigsuspend, Fs_no_sys), (''SIGPENDING'', Mm_do_sigpending, Fs_no_sys),
     (''SIGPROCMASK'', Mm_do_sigprocmask, Fs_no_sys), (''SIGRETURN'', Mm_do_sigreturn, Fs_no_sys),
     (''REBOOT'', Mm_do_reboot, Fs_no_sys), (''SVRCTL'', Mm_do_svrctl, Fs_do_svrctl)]"

definition calls_2 :: service where
  "calls_2 = old_calls @ [(''SETGROUP'', Mm_do_setgroup, Fs_no_sys)]"

definition calls_5 :: service where
  "calls_5 = old_calls @ [(''HOLE_MAP'', Mm_do_hole_map, Fs_no_sys), (''WORST_FIT'', Mm_do_worst_fit, Fs_no_sys)]"

text \<open>The tables fit the numbers if they have an entry for every number, the entries of every call
  are the routines for that call, and all other entries refuse.\<close>

definition tables_fit :: "service \<Rightarrow> nat \<Rightarrow> (string \<times> nat) list \<Rightarrow> mm_routine list \<Rightarrow> fs_routine list \<Rightarrow> bool" where
  "tables_fit calls ncalls callnr mm fs \<longleftrightarrow> length mm = ncalls \<and> length fs = ncalls
     \<and> sorted_wrt (<) (map snd callnr) \<and> list_all (\<lambda>(c, n). n < ncalls) callnr
     \<and> map (\<lambda>(c, n). (c, mm ! n, fs ! n)) callnr = calls
     \<and> list_all (\<lambda>n. List.member (map snd callnr) n \<or> mm ! n = Mm_no_sys \<and> fs ! n = Fs_no_sys) [0 ..< ncalls]"

text \<open>In both systems the tables of the memory manager and of the file system fit the numbers
  of the calls: every call, the new ones included, reaches the routine meant for it in each of
  the two servers, and no other number reaches any routine. The only calls that no server
  takes are \<open>SIGNAL\<close>, which is obsolete, and \<open>TASK_REPLY\<close>, which is an answer.\<close>
lemma call_tables_fit:
  "tables_fit calls_2 NCALLS_2 callnr_2 mm_call_vec_2 fs_call_vec_2
   \<and> tables_fit calls_5 NCALLS_5 callnr_5 mm_call_vec_5 fs_call_vec_5
   \<and> map fst (filter (\<lambda>c. snd c = (Mm_no_sys, Fs_no_sys)) (calls_2 @ calls_5))
       = [''SIGNAL'', ''TASK_REPLY'', ''SIGNAL'', ''TASK_REPLY'']"
  by code_simp

end
