(* ===== verification/Devices.thy ===== *)
theory Devices
  imports Kernel_State
begin

text \<open>
  The numbers of the tasks (\<^verbatim>\<open>include/minix/com.h\<close>), which depend on the drivers that are compiled in,
  and the tables of devices (\<^verbatim>\<open>fs/table.c\<close>) of exercise 2 (\<open>dmap_2\<close>) and exercise 5 (\<open>dmap_5\<close>), which
  map a major device number to a task.
\<close>

section \<open>Task numbers\<close>

text \<open>The configuration of \<^verbatim>\<open>minix/config.h\<close>.\<close>

record drivers =
  NR_CTRLRS :: nat
  ENABLE_PRINTER :: bool
  ENABLE_SB16 :: bool
  ENABLE_DP8390 :: bool
  IBM_PC :: bool

definition MEM :: int where "MEM = - 4"
definition FLOPPY :: int where "FLOPPY = - 5"

definition CTRLR :: "int \<Rightarrow> int" where
  "CTRLR n = - 8 - n"

definition PRINTER :: "drivers \<Rightarrow> int" where
  "PRINTER d = CTRLR (int (NR_CTRLRS d) - 1) - of_bool (ENABLE_PRINTER d)"

definition SB16MIXER :: "drivers \<Rightarrow> int" where
  "SB16MIXER d = PRINTER d - of_bool (ENABLE_SB16 d)"

definition SB16 :: "drivers \<Rightarrow> int" where
  "SB16 d = SB16MIXER d - of_bool (ENABLE_SB16 d)"

definition DP8390 :: "drivers \<Rightarrow> int" where
  "DP8390 d = SB16 d - of_bool (ENABLE_DP8390 d)"

definition TTY :: "drivers \<Rightarrow> int" where
  "TTY d = DP8390 d - 1"

section \<open>The tables of devices\<close>

text \<open>The routines are outside the sources; \<open>No_io\<close> is a null pointer.\<close>

datatype opcl = No_opcl | No_dev | Gen_opcl | Tty_opcl | Ctty_opcl

datatype dev_io = No_io | Gen_io | Ctty_io

record dmap =
  dmap_opcl :: opcl
  dmap_io :: dev_io
  dmap_task :: int

definition DT :: "bool \<Rightarrow> opcl \<Rightarrow> dev_io \<Rightarrow> int \<Rightarrow> dmap" where
  "DT enable opcl io task =
     \<lparr>dmap_opcl = (if enable then opcl else No_dev), dmap_io = (if enable then io else No_io),
      dmap_task = (if enable then task else 0)\<rparr>"

definition dmap_2 :: "drivers \<Rightarrow> dmap list" where
  "dmap_2 d =
     [DT True No_dev No_io 0,
      DT True Gen_opcl Gen_io MEM,
      DT True Gen_opcl Gen_io FLOPPY,
      DT (NR_CTRLRS d \<ge> 1) Gen_opcl Gen_io (CTRLR 0),
      DT True Tty_opcl Gen_io (TTY d),
      DT True Ctty_opcl Ctty_io (TTY d),
      DT (ENABLE_PRINTER d) Gen_opcl Gen_io (PRINTER d)] @
     (if IBM_PC d
      then [DT True No_dev No_io ANY,
            DT (NR_CTRLRS d \<ge> 2) Gen_opcl Gen_io (CTRLR 1),
            DT False No_opcl No_io 0,
            DT (NR_CTRLRS d \<ge> 3) Gen_opcl Gen_io (CTRLR 2),
            DT False No_opcl No_io 0,
            DT (NR_CTRLRS d \<ge> 4) Gen_opcl Gen_io (CTRLR 3),
            DT (ENABLE_SB16 d) Gen_opcl Gen_io (SB16 d),
            DT (ENABLE_SB16 d) Gen_opcl Gen_io (SB16MIXER d)]
      else [])"

definition dmap_5 :: "drivers \<Rightarrow> dmap list" where
  "dmap_5 d =
     [DT True No_dev No_io 0,
      DT True Gen_opcl Gen_io MEM,
      DT True Gen_opcl Gen_io FLOPPY,
      DT (NR_CTRLRS d \<ge> 1) Gen_opcl Gen_io (CTRLR 0),
      DT True Tty_opcl Gen_io (TTY d),
      DT True Ctty_opcl Ctty_io (TTY d),
      DT (ENABLE_PRINTER d) Gen_opcl Gen_io (PRINTER d)] @
     (if IBM_PC d
      then [DT True No_dev No_io ANY,
            DT (NR_CTRLRS d \<ge> 2) Gen_opcl Gen_io (CTRLR 1),
            DT False No_opcl No_io 0,
            DT (NR_CTRLRS d \<ge> 3) Gen_opcl Gen_io (CTRLR 2),
            DT False No_opcl No_io 0,
            DT (NR_CTRLRS d \<ge> 4) Gen_opcl Gen_io (CTRLR 3),
            DT (ENABLE_SB16 d) Gen_opcl Gen_io (SB16 d),
            DT (ENABLE_SB16 d) Gen_opcl Gen_io (SB16MIXER d)]
      else [])"

definition max_major :: "drivers \<Rightarrow> nat" where
  "max_major d = length (dmap_2 d)"

section \<open>Numbers without gaps\<close>

text \<open>The tasks of a system, the one started first in front.\<close>

definition tasks :: "drivers \<Rightarrow> int list" where
  "tasks d =
     TTY d # (if ENABLE_DP8390 d then [DP8390 d] else []) @ (if ENABLE_SB16 d then [SB16 d, SB16MIXER d] else [])
       @ (if ENABLE_PRINTER d then [PRINTER d] else []) @ map (\<lambda>i. CTRLR (int i)) (rev [0 ..< NR_CTRLRS d])
       @ [SYN_ALRM_TASK, IDLE, FLOPPY, MEM, CLOCK, SYSTASK, HARDWARE]"

lemma controllers: "map (\<lambda>i. CTRLR (int i)) (rev [0 ..< n]) = [- 7 - int n .. - 8]"
  by (induction n) (simp_all add: CTRLR_def upto_rec1)

lemma fixed_tasks: "[SYN_ALRM_TASK, IDLE, FLOPPY, MEM, CLOCK, SYSTASK, HARDWARE] = [- 7 .. - 1]"
  by code_simp

lemma upto_append: "i \<le> j + 1 \<Longrightarrow> j \<le> k \<Longrightarrow> [i .. j] @ [j + 1 .. k] = [i .. k]" for i :: int
  by (cases "i \<le> j") (auto simp: upto_split2 [of i j k] intro: arg_cong [where f = "\<lambda>i. [i .. k]"])

lemmas task_numbers = TTY_def DP8390_def SB16_def SB16MIXER_def PRINTER_def CTRLR_def

lemma tasks_upto: "tasks d = [TTY d .. - 1]"
proof -
  have "[- 7 - int (NR_CTRLRS d) .. - 8] @ [- 7 .. - 1] = [- 7 - int (NR_CTRLRS d) .. - 1]"
    using upto_append [of "- 7 - int (NR_CTRLRS d)" "- 8" "- 1"] by simp
  then show ?thesis unfolding tasks_def controllers fixed_tasks
    by (simp add: task_numbers upto_rec1 [of "_ - _ :: int"])
qed

section \<open>Devices and tasks\<close>

definition open_devices :: "dmap list \<Rightarrow> dmap list" where
  "open_devices ds = filter (\<lambda>e. dmap_opcl e \<noteq> No_dev) ds"

lemma mem_tasks: "t \<in> set (tasks d) \<longleftrightarrow> TTY d \<le> t \<and> t \<le> - 1"
  by (auto simp: tasks_upto)

lemma same_tables: "dmap_5 = dmap_2"
  by (simp add: fun_eq_iff dmap_2_def dmap_5_def)

text \<open>The drivers of the devices that can be opened; \<^verbatim>\<open>/dev/tty\<close> is a terminal too.\<close>

definition drivers_of :: "dmap list \<Rightarrow> int list" where
  "drivers_of ds = map dmap_task (filter (\<lambda>e. dmap_opcl e \<noteq> Ctty_opcl) (open_devices ds))"

lemma drivers_of_DT [simp]:
  "drivers_of [] = []"
  "drivers_of (DT en opc io t # ds) = (if en \<and> opc \<noteq> No_dev \<and> opc \<noteq> Ctty_opcl then [t] else []) @ drivers_of ds"
  by (simp_all add: drivers_of_def open_devices_def DT_def)

lemma distinct_if [simp]:
  "distinct ((if b then [t] else []) @ ts) = (distinct ts \<and> (b \<longrightarrow> t \<notin> set ts))"
  "(u \<in> set ((if b then [t] else []) @ ts)) = (b \<and> u = t \<or> u \<in> set ts)"
  by auto

lemma numbers_below:
  "TTY d < MEM" "TTY d < FLOPPY" "i < int (NR_CTRLRS d) \<Longrightarrow> TTY d < CTRLR i" "TTY d < PRINTER d" "TTY d < SB16MIXER d" "TTY d < SB16 d"
  "MEM \<le> - 1" "FLOPPY \<le> - 1" "0 \<le> i \<Longrightarrow> CTRLR i \<le> - 1" "PRINTER d \<le> - 1" "SB16MIXER d \<le> - 1" "SB16 d \<le> - 1" "TTY d \<le> - 1"
  by (simp_all add: task_numbers MEM_def FLOPPY_def)

lemma distinct_drivers: "distinct (drivers_of (dmap_2 d))"
  unfolding dmap_2_def
  by (cases "IBM_PC d"; simp del: distinct_append set_append; intro conjI impI; simp add: task_numbers MEM_def FLOPPY_def)

definition entry_ok :: "drivers \<Rightarrow> dmap \<Rightarrow> bool" where
  "entry_ok d e \<longleftrightarrow> (dmap_opcl e = No_dev) = (dmap_io e = No_io) \<and> (dmap_opcl e \<noteq> No_dev \<longrightarrow> dmap_task e \<in> set (tasks d))"

lemma entry_ok_DT:
  "entry_ok d (DT en opc io t) \<longleftrightarrow> (en \<longrightarrow> (opc = No_dev) = (io = No_io) \<and> (opc \<noteq> No_dev \<longrightarrow> TTY d \<le> t \<and> t \<le> - 1))"
  by (auto simp: entry_ok_def DT_def mem_tasks)

lemma entries_ok: "list_all (entry_ok d) (dmap_2 d)"
  by (simp add: dmap_2_def entry_ok_DT numbers_below less_imp_le)

text \<open>C37: Whatever drivers are compiled in, the task numbers run without a gap or a clash from the
  terminal, the most negative one, to \<open>HARDWARE\<close>, and in both systems every device that can be opened
  has an I/O routine and a task that exists, two such devices have different tasks except
  the terminals, and a device that is not there has no I/O routine.\<close>
theorem devices_have_tasks:
  assumes "dm = dmap_2 d \<or> dm = dmap_5 d"
  shows "tasks d = [TTY d .. - 1] \<and> distinct (drivers_of dm)
    \<and> (\<forall>e \<in> set dm. (dmap_opcl e = No_dev) = (dmap_io e = No_io))
    \<and> (\<forall>e \<in> set (open_devices dm). dmap_task e \<in> set (tasks d))"
proof -
  have dm: "dm = dmap_2 d" using assms by (auto simp: same_tables)
  show ?thesis unfolding dm
    using tasks_upto distinct_drivers entries_ok [of d] by (simp add: open_devices_def entry_ok_def list_all_iff)
qed

text \<open>A computer with two controllers, a printer and a sound card.\<close>

definition sound_pc :: drivers where
  "sound_pc = \<lparr>NR_CTRLRS = 2, ENABLE_PRINTER = True, ENABLE_SB16 = True, ENABLE_DP8390 = False, IBM_PC = True\<rparr>"

theorem devices_have_tasks_witness:
  "tasks sound_pc = [- 13 .. - 1] \<and> dmap_task (dmap_5 sound_pc ! 14) = - 11
     \<and> length (open_devices (dmap_5 sound_pc)) = 9 \<and> list_all (\<lambda>e. dmap_task e \<in> set (tasks sound_pc)) (open_devices (dmap_5 sound_pc))"
proof -
  have "TTY sound_pc = - 13" "dmap_task (dmap_5 sound_pc ! 14) = - 11" "length (open_devices (dmap_5 sound_pc)) = 9"
    by code_simp+
  moreover have "tasks sound_pc = [TTY sound_pc .. - 1]" "list_all (\<lambda>e. dmap_task e \<in> set (tasks sound_pc)) (open_devices (dmap_5 sound_pc))"
    using devices_have_tasks [of "dmap_5 sound_pc" sound_pc] unfolding list_all_iff by blast+
  ultimately show ?thesis by (simp only: simp_thms)
qed

end
