(* ===== verification/Command_Line.thy ===== *)
theory Command_Line
  imports Prelude
begin

text \<open>
  What the programs use of \<open>atoi\<close>: white space, a sign, and the digits up to the first other
  character. A value that is no \<open>int\<close> has no defined result.
\<close>

definition is_space :: "char \<Rightarrow> bool" where
  "is_space c \<longleftrightarrow> c = CHR '' '' \<or> 9 \<le> (of_char c :: nat) \<and> (of_char c :: nat) \<le> 13"

definition is_digit_char :: "char \<Rightarrow> bool" where
  "is_digit_char c \<longleftrightarrow> 48 \<le> (of_char c :: nat) \<and> (of_char c :: nat) \<le> 57"

fun read_digits :: "int \<Rightarrow> string \<Rightarrow> int" where
  "read_digits n [] = n"
| "read_digits n (c # cs) = (if is_digit_char c then read_digits (10 * n + (of_char c - 48)) cs else n)"

definition atoi_str :: "string \<Rightarrow> int option" where
  "atoi_str s =
     (let n = (case dropWhile is_space s of
                 [] \<Rightarrow> 0
               | c # cs \<Rightarrow> if c = CHR ''-'' then - read_digits 0 cs
                          else if c = CHR ''+'' then read_digits 0 cs else read_digits 0 (c # cs))
      in if in_int32 n then Some n else None)"

text \<open>A word that does not begin like a number is read as 0.\<close>

definition no_number :: "string \<Rightarrow> bool" where
  "no_number s \<longleftrightarrow> (case s of [] \<Rightarrow> True | c # cs \<Rightarrow> \<not> is_space c \<and> \<not> is_digit_char c \<and> c \<noteq> CHR ''-'' \<and> c \<noteq> CHR ''+'')"

lemma atoi_no_number: "no_number s \<Longrightarrow> atoi_str s = Some 0"
  by (cases s) (auto simp: no_number_def atoi_str_def in_int32_def)

text \<open>Digits are read back from what \<open>%d\<close> prints.\<close>

definition digit_char :: "nat \<Rightarrow> char" where
  "digit_char d = char_of (48 + d)"

fun decimal :: "nat \<Rightarrow> string" where
  "decimal n = (if n < 10 then [digit_char n] else decimal (n div 10) @ [digit_char (n mod 10)])"

declare decimal.simps [simp del]

lemma digit_char_digit: "d < 10 \<Longrightarrow> is_digit_char (digit_char d)" "d < 10 \<Longrightarrow> (of_char (digit_char d) :: int) = 48 + int d"
  by (simp_all add: digit_char_def is_digit_char_def flip: of_nat_of_char [where 'a = int])

lemma read_digits_append: "list_all is_digit_char ds \<Longrightarrow> read_digits n (ds @ cs) = read_digits (read_digits n ds) cs"
  by (induction ds arbitrary: n) auto

lemma decimal_digits: "list_all is_digit_char (decimal n)"
  by (induction n rule: decimal.induct) (subst decimal.simps, simp add: digit_char_digit)

lemma read_decimal: "read_digits 0 (decimal n) = int n"
proof (induction n rule: decimal.induct)
  case (1 n)
  show ?case
  proof (cases "n < 10")
    case True
    then show ?thesis by (subst decimal.simps) (simp add: digit_char_digit)
  next
    case False
    with 1 show ?thesis by (subst decimal.simps) (simp add: read_digits_append decimal_digits digit_char_digit zdiv_int zmod_int)
  qed
qed

lemma decimal_nonempty: "decimal n \<noteq> []"
  by (subst decimal.simps) simp

lemma atoi_decimal: "n < 2 ^ 31 \<Longrightarrow> atoi_str (decimal n) = Some (int n)"
proof -
  assume n: "n < 2 ^ 31"
  obtain c cs where d: "decimal n = c # cs" using decimal_nonempty by (cases "decimal n") auto
  with decimal_digits [of n] have c: "is_digit_char c" by simp
  then have "\<not> is_space c" "c \<noteq> CHR ''-''" "c \<noteq> CHR ''+''" by (auto simp: is_digit_char_def is_space_def)
  with n show ?thesis using read_decimal [of n] by (simp add: atoi_str_def d in_int32_def)
qed

end
