(* ===== verification/Pierogi_Main.thy ===== *)
theory Pierogi_Main
  imports Command_Line Semafors_Props Monitors_Props
begin

text \<open>
  The start of the two pierogi programs (\<open>main\<close> of \<^verbatim>\<open>semafors/main.c\<close> and \<^verbatim>\<open>monitors/main.c\<close>): the
  arguments, the file for the results, the size of the buffers. \<open>opens\<close> says which files can be
  opened for writing.
\<close>

section \<open>Starting\<close>

datatype notice = Usage string | No_save_file | Simulation_starts int | All_threads_running

datatype 's launch = Running 's | Return int | Undefined_start

text \<open>With a negative size \<open>sem_init\<close> fails and leaves a semaphore that is not initialised.\<close>

definition sem_launch :: "(string \<Rightarrow> bool) \<Rightarrow> string list \<Rightarrow> notice list \<times> sem_sys launch" where
  "sem_launch opens argv =
     (if length argv < 3 then ([Usage (hd argv)], Return 1)
      else if \<not> opens (argv ! 2) then ([No_save_file], Return 1)
      else case atoi_str (argv ! 1) of
        None \<Rightarrow> ([], Undefined_start)
      | Some N \<Rightarrow>
          ([Simulation_starts N, All_threads_running],
           if N < 0 then Undefined_start else Running (sem_start N)))"

definition mon_launch :: "(string \<Rightarrow> bool) \<Rightarrow> string list \<Rightarrow> notice list \<times> mon_sys launch" where
  "mon_launch opens argv =
     (if length argv < 3 then ([Usage (hd argv)], Return 1)
      else if \<not> opens (argv ! 2) then ([No_save_file], Return 1)
      else case atoi_str (argv ! 1) of
        None \<Rightarrow> ([], Undefined_start)
      | Some N \<Rightarrow> ([Simulation_starts N, All_threads_running], Running (mon_start N)))"

section \<open>Buffers without room\<close>

text \<open>With a capacity of 0 nobody passes the first semaphore, or the first condition.\<close>

fun made_line :: "line \<Rightarrow> bool" where
  "made_line (Produced m k i c) = True"
| "made_line _ = False"

lemma made_line_iff: "made_line l = (\<exists>m k i c. l = Produced m k i c)"
  by (cases l) simp_all

fun before_empty :: "prod_pc \<Rightarrow> bool" where
  "before_empty Produce = True"
| "before_empty (DownEmpty x) = True"
| "before_empty _ = False"

definition starved :: "sem_sys \<Rightarrow> bool" where
  "starved s \<longleftrightarrow> (\<forall>k. sem_empty s k = 0 \<and> sem_full s k = 0 \<and> before_empty (prods s k))
     \<and> (\<forall>f. conss s f = TakeFilling DownFull) \<and> list_all made_line (out s)"

lemma starved_at: "starved s \<Longrightarrow> sem_empty s k = 0" "starved s \<Longrightarrow> sem_full s k = 0" "starved s \<Longrightarrow> before_empty (prods s k)"
  "starved s \<Longrightarrow> conss s f = TakeFilling DownFull"
  by (simp_all add: starved_def)

lemma starved_thread: "starved s \<Longrightarrow> thread_step t s = Next s' \<Longrightarrow> starved s' \<and> event_of t s = []"
proof (cases t)
  case (Consumer f)
  assume "starved s" and "thread_step t s = Next s'"
  then show ?thesis using Consumer
    by (simp add: starved_at thread_step_def thread_run_Consumer consumer_step_def take_step_def down_def split: if_splits)
next
  case (Producer k)
  assume s: "starved s" and t: "thread_step t s = Next s'"
  then have r: "producer_step k s = Next s'" using Producer by (simp add: thread_step_def thread_run_Producer split: if_splits)
  show ?thesis
  proof (cases "prods s k")
    case Produce
    with r s Producer show ?thesis by (auto simp: starved_def producer_step_def produce_eq)
  next
    case (DownEmpty x)
    with r starved_at [OF s] show ?thesis by (simp add: producer_step_def down_def)
  qed (use starved_at(3) [OF s, of k] in simp_all)
qed

lemma starved_run: "sem_run 0 es s \<Longrightarrow> starved s \<and> es = []"
proof (induction rule: sem_run.induct)
  case sem_begin
  show ?case by (simp add: starved_def sem_start_def)
next
  case (sem_thread es s t s')
  then show ?case using starved_thread by auto
next
  case (sem_main es s s')
  then show ?case by (auto simp: starved_def split: main_pc.splits)
qed

fun before_store :: "put_pc \<Rightarrow> bool" where
  "before_store PutMake = True"
| "before_store (PutLock x) = True"
| "before_store (PutCheck x) = True"
| "before_store (PutWait x) = True"
| "before_store (PutAgain x) = True"
| "before_store _ = False"

fun before_fetch :: "eat_pc \<Rightarrow> bool" where
  "before_fetch (GetFilling GetLock) = True"
| "before_fetch (GetFilling GetCheck) = True"
| "before_fetch (GetFilling GetWait) = True"
| "before_fetch (GetFilling GetAgain) = True"
| "before_fetch _ = False"

definition mon_starved :: "mon_sys \<Rightarrow> bool" where
  "mon_starved s \<longleftrightarrow> (\<forall>k. m_count (mons s k) = 0 \<and> m_capacity (mons s k) = 0 \<and> before_store (puts_at s k))
     \<and> (\<forall>f. before_fetch (eats_at s f)) \<and> list_all made_line (m_lines s)"

lemma mon_starved_at: "mon_starved s \<Longrightarrow> m_count (mons s k) = 0" "mon_starved s \<Longrightarrow> m_capacity (mons s k) = 0"
  "mon_starved s \<Longrightarrow> before_store (puts_at s k)" "mon_starved s \<Longrightarrow> before_fetch (eats_at s f)"
  by (simp_all add: mon_starved_def)

lemma mon_starved_put: "mon_starved s \<Longrightarrow> put_step k c s = Next s' \<Longrightarrow> mon_starved s' \<and> mon_event (Producer k) s = []"
  using mon_starved_at(3) [of s k]
  by (cases "puts_at s k") (auto simp: mon_starved_def put_step_def produce_eq Let_def split: if_splits)

lemma mon_starved_eat:
  assumes "mon_starved s" and "eat_step f s = Next s'"
  shows "mon_starved s' \<and> mon_event (Consumer f) s = []"
proof (cases "eats_at s f")
  case (GetFilling pc)
  with assms mon_starved_at(4) [OF assms(1), of f] show ?thesis
    by (cases pc) (auto simp: mon_starved_def eat_step_def get_step_def split: if_splits)
qed (use mon_starved_at(4) [OF assms(1), of f] in simp_all)

lemma before_fetch_woken: "before_fetch pc \<Longrightarrow> before_fetch (woken pc)"
  by (induction pc rule: before_fetch.induct) simp_all

lemma mon_starved_spurious:
  assumes "mon_starved s"
  shows "mon_starved (spurious t s)"
proof (cases t)
  case (Consumer f)
  with assms before_fetch_woken show ?thesis by (simp add: mon_starved_def spurious_def)
next
  case (Producer k)
  with assms show ?thesis by (auto simp: mon_starved_def spurious_def signal_not_full_def split: put_pc.splits)
qed

lemma mon_starved_step:
  assumes "mon_starved s" and "mon_step t c s = Next s'"
  shows "mon_starved s' \<and> mon_event t s = []"
proof (cases t)
  case (Producer k)
  with assms(2) have "put_step k c s = Next s'" by (simp add: mon_step_def split: if_splits)
  with assms(1) show ?thesis unfolding Producer by (rule mon_starved_put)
next
  case (Consumer f)
  with assms(2) have "eat_step f s = Next s'" by (simp add: mon_step_def split: if_splits)
  with assms(1) show ?thesis unfolding Consumer by (rule mon_starved_eat)
qed

lemma mon_starved_run: "mon_run 0 es s \<Longrightarrow> mon_starved s \<and> es = []"
proof (induction rule: mon_run.induct)
  case mon_begin
  show ?case by (simp add: mon_starved_def mon_start_def monitor_init_def)
next
  case (mon_thread es s t c s')
  then show ?case using mon_starved_step [of s t c s'] by simp
next
  case (mon_spurious es s t)
  then show ?case using mon_starved_spurious by simp
next
  case (mon_exit es s s')
  then show ?case by (auto simp: mon_starved_def mon_main_def split: if_splits)
qed

text \<open>C38: The size of the buffers is not checked. When the argument is not a number, both programs
  start with buffers of size 0; then no item ever gets into a buffer, and the only lines
  printed are those of the producers about the items they made: no pierog is ever made.\<close>
theorem no_number_no_pierogi:
  assumes "opens name" and "no_number arg"
  shows "sem_launch opens [prog, arg, name] = ([Simulation_starts 0, All_threads_running], Running (sem_start 0))
    \<and> mon_launch opens [prog, arg, name] = ([Simulation_starts 0, All_threads_running], Running (mon_start 0))
    \<and> (\<forall>es s. sem_run 0 es s \<longrightarrow> es = [] \<and> (\<forall>l \<in> set (out s). \<exists>m k i c. l = Produced m k i c))
    \<and> (\<forall>es s. mon_run 0 es s \<longrightarrow> es = [] \<and> (\<forall>l \<in> set (m_lines s). \<exists>m k i c. l = Produced m k i c))"
  using assms starved_run mon_starved_run
  by (simp add: sem_launch_def mon_launch_def atoi_no_number starved_def mon_starved_def made_line_iff list_all_iff)

theorem no_number_no_pierogi_witness:
  "\<exists>s. sem_launch (\<lambda>_. True) [''pierogi'', ''ten'', ''log.txt''] = ([Simulation_starts 0, All_threads_running], Running s)"
  using no_number_no_pierogi [of "\<lambda>_. True" "''log.txt''" "''ten''" "''pierogi''"]
  by (simp add: no_number_def is_space_def is_digit_char_def)

end
