(* ===== verification/Hole_Programs.thy ===== *)
theory Hole_Programs
  imports Swap_Props Command_Line Call_Tables
begin

text \<open>
  The test programs of exercise 5, \<^verbatim>\<open>t.c\<close>, \<^verbatim>\<open>w.c\<close> and \<^verbatim>\<open>x.c\<close>, over the system calls. \<open>_syscall\<close> and the
  main loop of the memory manager are outside the sources: a system call is an argument \<open>sysc\<close>, which maps the number,
  the field \<open>m1_i1\<close> and the state of the memory manager to the result, the words copied to the
  caller's buffer and the new state.
\<close>

type_synonym sysc = "nat \<Rightarrow> int \<Rightarrow> mm \<Rightarrow> (int \<times> 32 word list \<times> mm) res"

definition HOLE_MAP :: nat where "HOLE_MAP = the (map_of callnr_5 ''HOLE_MAP'')"
definition WORST_FIT :: nat where "WORST_FIT = the (map_of callnr_5 ''WORST_FIT'')"

section \<open>The programs\<close>

definition hole_map :: "sysc \<Rightarrow> int \<Rightarrow> mm \<Rightarrow> (int \<times> 32 word list \<times> mm) res" where
  "hole_map sysc nbytes s = sysc HOLE_MAP nbytes s"

definition worst_fit_call :: "sysc \<Rightarrow> int \<Rightarrow> mm \<Rightarrow> (int \<times> 32 word list \<times> mm) res" where
  "worst_fit_call sysc w s = sysc WORST_FIT w s"

datatype printed = In_brackets int | Failed int | Hole_size int

text \<open>The loop of \<^verbatim>\<open>t.c\<close> from index \<open>p\<close> of the array \<open>b\<close>; \<open>None\<close> is a read outside the array.\<close>

function print_holes :: "32 word list \<Rightarrow> nat \<Rightarrow> printed list option" where
  "print_holes b p =
     (if length b \<le> p then None
      else if b ! p \<noteq> 0 \<and> p < 1023
      then if length b \<le> p + 1 then None
           else map_option (\<lambda>out. Hole_size (sint (b ! p)) # out) (print_holes b (p + 2))
      else Some [])"
  by pat_completeness auto
termination by (relation "measure (\<lambda>(b, p). length b - p)") auto

declare print_holes.simps [simp del]

text \<open>The array has 1024 words; more than that from the system call would overflow it.\<close>

definition t_main :: "sysc \<Rightarrow> mm \<Rightarrow> (printed list \<times> int) option res" where
  "t_main sysc s =
     bind_res (hole_map sysc 4096 s)
       (\<lambda>(r, ws, s).
          Ok (if 1024 < length ws then None
              else if r < 0 then Some ([In_brackets r, Failed r], 1)
              else map_option (\<lambda>out. (In_brackets r # out, 0))
                     (print_holes (ws @ drop (length ws) (replicate 1024 0)) 0)))"

definition w_main :: "sysc \<Rightarrow> string list \<Rightarrow> mm \<Rightarrow> (int \<times> mm) option res" where
  "w_main sysc argv s =
     (if length argv < 2 then Ok (Some (1, s))
      else case atoi_str (argv ! 1) of
        None \<Rightarrow> Ok None
      | Some w \<Rightarrow> bind_res (worst_fit_call sysc w s) (\<lambda>(r, ws, s). Ok (Some (0, s))))"

text \<open>The time that \<^verbatim>\<open>x.c\<close> sleeps, and its result.\<close>

definition x_main :: "string list \<Rightarrow> (int option \<times> int) option" where
  "x_main argv =
     (if length argv < 2 then Some (None, 1) else map_option (\<lambda>n. (Some n, 0)) (atoi_str (argv ! 1)))"

section \<open>The system calls\<close>

text \<open>What \<open>_syscall\<close> makes of the status: a negative one becomes -1.\<close>

definition sysc_answer :: "status \<Rightarrow> int" where
  "sysc_answer st = (case st of Value n \<Rightarrow> n | OK \<Rightarrow> 0 | _ \<Rightarrow> - 1)"

definition words :: "(32 word \<times> 32 word) list \<Rightarrow> 32 word list" where
  "words ps = concat (map (\<lambda>(l, b). [l, b]) ps)"

text \<open>A system call runs the routine in the call table, and the buffer of the caller is valid.\<close>

definition serves :: "config \<Rightarrow> sysc \<Rightarrow> bool" where
  "serves cf sysc \<longleftrightarrow> (\<forall>nr v s. nr < NCALLS_5 \<longrightarrow>
     (mm_call_vec_5 ! nr = Mm_do_hole_map \<longrightarrow>
        sysc nr v s = bind_res (do_hole_map cf v OK s) (\<lambda>(st, ps). Ok (sysc_answer st, words ps, s)))
     \<and> (mm_call_vec_5 ! nr = Mm_do_worst_fit \<longrightarrow>
        sysc nr v s = (case do_worst_fit v s of (st, s) \<Rightarrow> Ok (sysc_answer st, [], s))))"

lemma new_calls: "HOLE_MAP < NCALLS_5" "mm_call_vec_5 ! HOLE_MAP = Mm_do_hole_map"
  "WORST_FIT < NCALLS_5" "mm_call_vec_5 ! WORST_FIT = Mm_do_worst_fit"
  by code_simp+

lemma hole_map_served: "serves cf sysc \<Longrightarrow>
    hole_map sysc v s = bind_res (do_hole_map cf v OK s) (\<lambda>(st, ps). Ok (sysc_answer st, words ps, s))"
  using new_calls unfolding serves_def hole_map_def by blast

lemma worst_fit_served: "serves cf sysc \<Longrightarrow> worst_fit_call sysc v s = Ok (0, [], s\<lparr>wf_mode := v\<rparr>)"
  using new_calls unfolding serves_def worst_fit_call_def by (simp add: do_worst_fit_def sysc_answer_def)

section \<open>What is printed\<close>

lemma length_words [simp]: "length (words ps) = 2 * length ps"
  by (induction ps) (auto simp: words_def)

lemma words_simps [simp]: "words [] = []" "words ((l, b) # ps) = l # b # words ps" "words (ps @ qs) = words ps @ words qs"
  by (simp_all add: words_def)

lemma sint_int32: "sint w = int32 (int (unat w))" for w :: "32 word"
  by (simp add: sint_uint signed_take_bit_eq_take_bit_shift int32_def take_bit_eq_mod)

text \<open>After the pairs comes a zero, at the latest in word 1022.\<close>

lemma print_pairs:
  assumes "\<forall>p \<in> set ps. fst p \<noteq> 0" and "length us + 2 * length ps \<le> 1022"
  shows "print_holes (us @ words ps @ 0 # vs) (length us) = Some (map (\<lambda>p. Hole_size (sint (fst p))) ps)"
  using assms
proof (induction ps arbitrary: us)
  case Nil
  show ?case by (subst print_holes.simps) simp
next
  case (Cons p ps)
  obtain l b where p: "p = (l, b)" by (rule prod.exhaust)
  have "print_holes ((us @ [l, b]) @ words ps @ 0 # vs) (length (us @ [l, b])) = Some (map (\<lambda>p. Hole_size (sint (fst p))) ps)"
    using Cons.prems by (intro Cons.IH) simp_all
  with Cons.prems p show ?case by (subst print_holes.simps) (simp add: nth_append)
qed

text \<open>C10: The test program \<^verbatim>\<open>t.c\<close> through the call table, \<open>do_hole_map\<close> and back: it prints the number of the
  holes of memory and then their sizes in address order, all of them up to 511, and never reads or writes outside
  its array. A size prints as it is unless it is 2 to the 31 or more, which \<open>%d\<close> shows as negative.\<close>
theorem t_prints_holes:
  assumes "table_ok (NR_HOLES cf) s hs" and "serves cf sysc"
  shows "t_main sysc s = Ok (Some (In_brackets (int (length (take 511 hs)))
      # map (\<lambda>h. Hole_size (int32 (int (snd h)))) (take 511 hs), 0))"
proof -
  obtain ps where d: "do_hole_map cf 4096 OK s = Ok (Value (int (length ps)), ps @ [(0, 0)])"
    and ps: "map (\<lambda>p. (unat (snd p), unat (fst p))) ps = take 511 hs"
    using do_hole_map_spec [OF assms(1), of 4096] by auto
  have len: "length ps = length (take 511 hs)" using arg_cong [OF ps, of length] by simp
  then have l: "length ps \<le> 511" by simp
  have pos: "0 < snd h" if "h \<in> set hs" for h using assms(1) that by (auto simp: table_ok_def wf_holes_def)
  have nz: "\<forall>p \<in> set ps. fst p \<noteq> 0"
  proof
    fix p assume "p \<in> set ps"
    then have "(unat (snd p), unat (fst p)) \<in> set (take 511 hs)" unfolding ps [symmetric] by force
    then show "fst p \<noteq> 0" using pos in_set_takeD by force
  qed
  have sizes: "map (\<lambda>p. Hole_size (sint (fst p))) ps = map (\<lambda>h. Hole_size (int32 (int (snd h)))) (take 511 hs)"
    unfolding ps [symmetric] by (simp add: sint_int32)
  let ?vs = "0 # replicate (1022 - 2 * length ps) 0"
  have "print_holes ([] @ words ps @ 0 # ?vs) (length ([] :: 32 word list)) = Some (map (\<lambda>p. Hole_size (sint (fst p))) ps)"
    using nz l by (intro print_pairs) simp_all
  then show ?thesis
    using l by (simp add: t_main_def hole_map_served [OF assms(2)] d sysc_answer_def sizes len)
qed

text \<open>The calls served by the routines of the memory manager.\<close>

definition mm_sysc :: "config \<Rightarrow> sysc" where
  "mm_sysc cf nr v s =
     (if nr < NCALLS_5 \<and> mm_call_vec_5 ! nr = Mm_do_hole_map
      then bind_res (do_hole_map cf v OK s) (\<lambda>(st, ps). Ok (sysc_answer st, words ps, s))
      else if nr < NCALLS_5 \<and> mm_call_vec_5 ! nr = Mm_do_worst_fit
      then (case do_worst_fit v s of (st, s) \<Rightarrow> Ok (sysc_answer st, [], s)) else Ok (- 1, [], s))"

lemma mm_sysc_serves: "serves cf (mm_sysc cf)"
  by (simp add: serves_def mm_sysc_def)

theorem t_prints_holes_witness:
  "t_main (mm_sysc small_config) small_mm = Ok (Some ([In_brackets 2, Hole_size 5, Hole_size 20], 0))"
  using t_prints_holes [OF small_mm_table mm_sysc_serves] by (simp add: int32_def)

section \<open>Choosing the policy\<close>

lemma w_sets_policy:
  assumes "serves cf sysc" and "n < 2 ^ 31"
  shows "w_main sysc [prog, decimal n] s = Ok (Some (0, s\<lparr>wf_mode := int n\<rparr>))"
  using assms by (simp add: w_main_def atoi_decimal worst_fit_served)

text \<open>The program does not check its argument: a word switches back to first fit.\<close>

lemma w_word_is_first_fit:
  "serves cf sysc \<Longrightarrow> no_number arg \<Longrightarrow> w_main sysc [prog, arg] s = Ok (Some (0, s\<lparr>wf_mode := 0\<rparr>))"
  by (simp add: w_main_def atoi_no_number worst_fit_served)

end
