(* ===== verification/Spec2Isabelle.thy ===== *)
theory Spec2Isabelle
  imports Semafors_Props Monitors_Props Disk_Props Hole_Props Swap_Props Kernel_Sched_Props Kernel_Receive
    Kernel_Held Kernel_Machine Kernel_Alarms Kernel_Steady Kernel_Clocked Kernel_Exit Kernel_Setgroup Kernel_Signals Kernel_Task Kernel_Clock Kernel_Timer Mm_Misc_Props Call_Tables
    Devices Pierogi_Main Hole_Programs
begin

text \<open>
  The programs of the laboratories in operating systems, in the order of the sources:

  \<^bold>\<open>Pierogi with semaphores\<close> (\<^verbatim>\<open>src/semafors\<close>). Four producers and three consumers share four
  ring buffers, each guarded by a mutex and two counting semaphores. \<open>Ring_Buffer\<close> is
  \<^verbatim>\<open>buffer.c\<close> and the making of items of \<^verbatim>\<open>produce_making.c\<close>; \<open>Semafors\<close> is \<^verbatim>\<open>main.c\<close> and
  \<^verbatim>\<open>my_semaphore.c\<close>, one statement of a thread per step, with the program counters of all threads
  in the state; a run is any interleaving. \<open>Semafors_Inv\<close> has the invariant of a channel (tokens of
  the semaphores against the positions of the threads), \<open>Semafors_Props\<close> what follows: delivery in
  order, mutual exclusion, progress and defined behaviour, and the unsafe end of \<open>main\<close>.

  \<^bold>\<open>Pierogi with monitors\<close> (\<^verbatim>\<open>src/monitors\<close>). The same threads with \<open>pthread\<close> mutexes and conditions.
  \<open>Monitors\<close> is \<^verbatim>\<open>monitor.c\<close> and \<^verbatim>\<open>main.c\<close>, with spurious wake-ups as extra steps; \<open>Monitors_Inv\<close>
  and \<open>Monitors_Steps\<close> have the invariant and its preservation, \<open>Monitors_Props\<close> delivery, safety and
  that no wake-up is lost. \<open>Pierogi_Main\<close> is the start of both programs, from the arguments (\<open>Command_Line\<close>
  has \<open>atoi\<close>) to the threads, and what happens when the size is no number. Both buffers satisfy the locale \<open>bounded_fifo\<close> of \<open>Fifo\<close>, from which the
  facts about a channel come.

  \<^bold>\<open>Memory manager\<close> (\<^verbatim>\<open>mm/alloc.c\<close> of exercise 5). \<open>Hole_Table\<close> is the array of holes with its two
  linked lists and the loops over them: \<open>free_mem\<close>, \<open>merge\<close>, \<open>del_slot\<close> and the two searches.
  \<open>Hole_Lists\<close> and \<open>Hole_Alloc\<close> show that they work on a sorted list of separate holes, and that
  both policies are interpretations of the allocator locale of \<open>Region\<close>; \<open>Hole_Props\<close> has the
  properties of single operations and the conservation of memory. \<open>Swap\<close> is the rest of the file: \<open>mem_init\<close>,
  \<open>alloc_mem\<close> with swapping, \<open>swap_out\<close>, \<open>swap_in\<close>, \<open>swap_on\<close>, \<open>swap_off\<close> and the two system calls of
  the exercise; \<open>Swap_Inv\<close>, \<open>Swap_Init\<close> and \<open>Swap_Props\<close> prove what they do with memory. \<open>Mm_Misc\<close> is
  \<^verbatim>\<open>mm/misc.c\<close> of exercise 2, whose calls go on to the kernel and to the swapping routines;
  \<open>Mm_Misc_Props\<close> follows \<open>setgroup\<close> through both components. \<open>Call_Tables\<close> has the call numbers and
  the call tables of both systems, \<open>Hole_Programs\<close> the test programs \<^verbatim>\<open>t.c\<close>, \<^verbatim>\<open>w.c\<close> and \<^verbatim>\<open>x.c\<close> of exercise 5, which go
  through these tables to \<open>do_hole_map\<close> and \<open>do_worst_fit\<close>. \<open>Devices\<close> has the task numbers of
  \<^verbatim>\<open>com.h\<close> and the tables of devices of \<^verbatim>\<open>fs/table.c\<close>, for any configuration of drivers.

  \<^bold>\<open>Kernel\<close> (\<^verbatim>\<open>kernel/proc.c\<close>, \<^verbatim>\<open>proc.h\<close>, \<^verbatim>\<open>system.c\<close>, \<^verbatim>\<open>clock.c\<close> of exercise 2). \<open>Kernel_State\<close> is the
  process table; a pointer to an entry is the number of the process. \<open>Kernel_Queues\<close> is the
  scheduler with the three groups, \<open>Kernel_Ipc\<close> message passing and interrupts, \<open>Kernel_System\<close>
  and \<open>Kernel_Task\<close> the system task with all its handlers, \<open>Kernel_Clock\<close> the clock task and the
  synchronous alarm task, \<open>Kernel_Timer\<close> the timer chip and how long a delay takes.
  \<open>Kernel_Lists\<close> and \<open>Kernel_Sched\<close> translate the pointer operations of the scheduler into
  operations on six lists; \<open>sched_ok\<close> of \<open>Kernel_Sched_Inv\<close> is its invariant, \<open>ipc_ok\<close> of
  \<open>Kernel_Ipc_Inv\<close> extends it by the queues of callers and the freedom from deadlock. The
  properties are in \<open>Kernel_Sched_Props\<close> (with \<open>Kernel_Tick\<close>), \<open>Kernel_Receive\<close> (with
  \<open>Kernel_Send\<close>), \<open>Kernel_Held\<close>, \<open>Kernel_Exit\<close>, \<open>Kernel_Signals\<close> (a signal and the return from its handler) and \<open>Kernel_Setgroup\<close>.

  \<^bold>\<open>The running kernel.\<close> \<open>Kernel_Machine\<close> puts the routines together: an event is a system call of the
  running process, a request that the system task serves, an interrupt (at task level, or while a
  routine of the kernel runs), \<open>unhold\<close>, a tick of the clock, a call of the scheduler or a signal, and
  a run is any sequence of them. Its three
  properties say that no run hangs, panics or follows a null pointer, that the processor
  always belongs to the highest class that can run, and that senders never wait in a circle;
  \<open>Kernel_Alarms\<close> shows that at a tick exactly the due alarms go off and that the time of the next one stays right;
  \<open>Kernel_Steady\<close> that no routine but those of the clock task, a fork and an exit changes an alarm; \<open>Kernel_Clocked\<close>
  adds the rounds of the clock task to the events of the machine and shows that no alarm is missed. The
  invariant \<open>kernel_ok\<close> joins \<open>ipc_ok\<close>, that every runnable process is queued (\<open>cpu_inv\<close>), that the
  first of the first queue runs (\<open>best\<close>), the order of held-up interrupts (\<open>held_ok\<close>) and the ranges
  of the counters. \<open>Kernel_Frame\<close> has what no routine changes, with rules for sequences in the manner
  of a verification condition generator; \<open>Kernel_Steps\<close> waking and sleeping, \<open>Kernel_Calls\<close>,
  \<open>Kernel_Inform\<close> and \<open>Kernel_Exchange\<close> sending, signals and receiving up to whole system calls,
  \<open>Kernel_Interrupts\<close> and \<open>Kernel_Runs\<close> the events from outside, \<open>Kernel_Life\<close> and \<open>Kernel_Requests\<close> the
  handlers of the system task, from fork to exit; the locale \<open>guarded\<close> of \<open>Guarded\<close> turns the
  steps into runs. The conditions on events are those the kernel relies on. The idle task makes no calls, and tasks and
  servers, whose calls the kernel does not check, send neither to themselves (see \<open>self_send_hangs\<close>)
  nor to \<open>ANY\<close>. The requests of the memory manager are sensible (\<open>request_fits\<close>): they name user processes,
  the caller of \<^verbatim>\<open>fork\<close> and \<^verbatim>\<open>exec\<close> waits for the answer, a process is put into another group while it is
  blocked (see \<open>setgroup_keeps_old_queue\<close>), and the requests that stop the system, turn a user process into a server or write
  raw entries of the process table are left out.

  \<^bold>\<open>Virtual disk\<close> (\<^verbatim>\<open>exercise6\<close>). \<open>Disk_Format\<close> has the bytes of the super block, with the codec
  locale \<open>fixed_codec\<close> and its interpretations; \<open>Virtual_Disk\<close> is \<^verbatim>\<open>fs.c\<close> and \<^verbatim>\<open>generate.c\<close>, each
  command a function on the files of a directory. \<open>Disk_Space\<close> is about the map of blocks,
  \<open>Disk_Inv\<close> defines a sound disk, \<open>Disk_Files\<close> what the stored files are and how a
  directory entry changes them, \<open>Disk_Map\<close> the printed map, \<open>Disk_Commands\<close> runs the commands on sound
  disks, and \<open>Disk_Props\<close> has the properties: the stored files are a map from names to contents
  which the commands update.
\<close>

text \<open>
  \<^bold>\<open>Conventions.\<close> A C \<open>int\<close> is an integer with the wrap-around \<open>int32\<close> written out (\<open>Prelude\<close>), an
  unsigned quantity of the kernel is a 32-bit word. Pointers into a table are \<open>None\<close> or \<open>Some\<close> the
  index; following a null pointer, a panic, and a loop that does not end are the results
  \<open>Null_deref\<close>, \<open>Panic\<close> and \<open>Hang\<close> of type \<open>res\<close>. For the thread programs and the disk undefined
  behaviour is a value of its own.

  \<^bold>\<open>Fuel.\<close> A walk along pointers has one step more than the table has slots: a walk that
  needs more has met a slot twice and would go round for ever, so \<open>Hang\<close> is exactly that the
  loop of the source does not end. The theorems give \<open>Ok\<close>, that is, they prove that the loops
  end. The loops of \<open>alloc_mem\<close> and \<open>mem_init\<close> have their bounds as an argument, and the
  theorems say how much is enough.

  \<^bold>\<open>Parameters.\<close> The constants of headers outside the sources are the record \<open>config\<close> of
  \<open>Machine\<close>. Code outside the sources is a parameter of the definitions that call it: the records \<open>env\<close>
  (\<open>phys_copy\<close>, the layout of structures in memory, segment selectors, the monitor environment, the raw
  process table requests \<open>T_GETUSER\<close> and \<open>T_SETUSER\<close>), \<open>clock_env\<close> (functions of tasks that alarms call) and
  \<open>mm_env\<close> (\<open>check_sig\<close>, \<open>setreply\<close>, copies from user space). Messages of the memory manager to the
  kernel and the file system are a log in its state.

  \<^bold>\<open>Not modelled.\<close> The acknowledgement of PS/2 interrupts and the wake-up of terminals and printer by
  the clock, and the branches for other chips and
  machines, for they act on hardware. Process numbers outside the table: \<open>sys_call\<close> checks them, the system task relies
  on its callers. The function codes and message fields of
  \<^verbatim>\<open>com.h\<close> for drivers, which no modelled routine reads. Lack of memory and failing writes in the
  programs of exercises 1 and 6, which do not check for them. Interrupts between two statements of a kernel routine: each
  routine is one step, as the locks of the source intend. The test program of the scheduler,
  which burns time and prints, and the shell
  scripts.
\<close>

end
